(* ===== verification/Prelude.thy ===== *)
theory Prelude
  imports Main "HOL-Library.Word"
begin

text \<open>
  Shared material of the development: the types that stand for the C integers the sources
  use, the reading of a \<open>char\<close> as a signed or unsigned byte, C string constants with their
  terminating NUL, \<open>memchr\<close> and the decimal part of \<open>strtoul\<close>, and the generic facts on
  lists, words and bytes that the component theories use.
\<close>

unbundle bit_operations_syntax

named_theorems flow_simps \<open>weakest-precondition rules of the control-flow combinators\<close>
named_theorems handler_defs \<open>definitions of the switch cases of the HTTP parser\<close>
named_theorems table_simps \<open>characterisations of lookup tables by conditions on the byte\<close>


section \<open>Integer types\<close>

type_synonym u8 = "8 word"
type_synonym u16 = "16 word"
type_synonym u32 = "32 word"
type_synonym u64 = "64 word"


section \<open>Characters as bytes\<close>

text \<open>
  A HOL \<open>char\<close> is a byte. \<open>uchar\<close> is the value after a cast to \<open>unsigned char\<close>, \<open>schar\<close>
  the value of a plain \<open>char\<close>, which is signed on the platforms the library is built for.
\<close>

definition uchar :: "char \<Rightarrow> nat" where
  "uchar c = of_char c"

definition schar :: "char \<Rightarrow> int" where
  "schar c = (if uchar c < 128 then int (uchar c) else int (uchar c) - 256)"

lemma uchar_less [simp]: "uchar c < 256"
  by (simp add: uchar_def)

lemma uchar_inject [simp]: "uchar c = uchar d \<longleftrightarrow> c = d"
  by (simp add: uchar_def)

lemma uchar_char_of [simp]: "n < 256 \<Longrightarrow> uchar (char_of n) = n"
  by (simp add: uchar_def)

lemma char_of_uchar [simp]: "char_of (uchar c) = c"
  by (simp add: uchar_def)

lemma char_cases_nat:
  obtains n where "n < 256" and "c = char_of (n::nat)"
  using char_of_uchar [of c] uchar_less [of c] by metis

lemma schar_nonneg_iff: "0 \<le> schar c \<longleftrightarrow> uchar c < 128"
  using uchar_less [of c] by (auto simp: schar_def simp del: uchar_less)

text \<open>A property of all bytes is checked on the 256 elements of the type.\<close>

lemma all_chars: "(\<forall>c\<in>set (Enum.enum :: char list). P c) \<Longrightarrow> P c"
  by (simp add: enum_UNIV)


section \<open>C strings\<close>

definition NUL :: char where
  "NUL = CHR 0x00"

lemma uchar_NUL [simp]: "uchar NUL = 0"
  by (simp add: NUL_def uchar_def)

text \<open>Reading a string constant by index: its terminating NUL is part of the array.\<close>

definition cstr_at :: "string \<Rightarrow> nat \<Rightarrow> char" where
  "cstr_at s i = (if i < length s then s ! i else NUL)"

lemma cstr_at_less [simp]: "i < length s \<Longrightarrow> cstr_at s i = s ! i"
  by (simp add: cstr_at_def)

lemma cstr_at_ge [simp]: "length s \<le> i \<Longrightarrow> cstr_at s i = NUL"
  by (simp add: cstr_at_def)

lemma drop_Cons_nth:
  assumes "drop p d = c # cs"
  shows "p < length d" "d ! p = c" "drop (p + 1) d = cs"
proof -
  show "p < length d" using assms by (cases "p < length d") auto
  with assms Cons_nth_drop_Suc [of p d] show "d ! p = c" "drop (p + 1) d = cs" by auto
qed

text \<open>\<open>memchr (data + p, c, limit)\<close>: the index of the first \<open>c\<close> among the \<open>limit\<close> bytes at \<open>p\<close>.\<close>

fun index_of :: "'a \<Rightarrow> 'a list \<Rightarrow> nat option" where
  "index_of c [] = None"
| "index_of c (x # xs) = (if x = c then Some 0 else map_option Suc (index_of c xs))"

definition memchr :: "char list \<Rightarrow> nat \<Rightarrow> char \<Rightarrow> nat \<Rightarrow> nat option" where
  "memchr d p c limit = map_option (\<lambda>i. p + i) (index_of c (take limit (drop p d)))"

lemma index_of_Some:
  "index_of c xs = Some i \<Longrightarrow> i < length xs \<and> xs ! i = c \<and> (\<forall>j<i. xs ! j \<noteq> c)"
proof (induction xs arbitrary: i)
  case (Cons x xs)
  show ?case
  proof (cases "x = c")
    case False
    with Cons.prems obtain j where "index_of c xs = Some j" "i = Suc j" by auto
    with Cons.IH [of j] False show ?thesis by (auto simp: nth_Cons split: nat.splits)
  qed (use Cons.prems in auto)
qed simp

lemma index_of_None: "index_of c xs = None \<longleftrightarrow> c \<notin> set xs"
  by (induction xs) auto

lemma memchr_Some:
  assumes "memchr d p c limit = Some q"
  shows "p \<le> q \<and> q < length d \<and> d ! q = c \<and> (\<forall>j. p \<le> j \<longrightarrow> j < q \<longrightarrow> d ! j \<noteq> c)"
proof -
  from assms obtain i where i: "index_of c (take limit (drop p d)) = Some i" "q = p + i"
    by (auto simp: memchr_def)
  from index_of_Some [OF i(1)]
  have b: "i < limit" "i < length d - p" "take limit (drop p d) ! i = c"
    and before: "\<forall>j<i. take limit (drop p d) ! j \<noteq> c" by auto
  have "d ! j \<noteq> c" if "p \<le> j" "j < q" for j
    using before [rule_format, of "j - p"] that i(2) b by (simp add: less_diff_conv2)
  with b i(2) show ?thesis by (simp add: less_diff_conv2 add.commute)
qed


section \<open>Decimal digits\<close>

definition isdigit :: "char \<Rightarrow> bool" where
  "isdigit c \<longleftrightarrow> 48 \<le> uchar c \<and> uchar c \<le> 57"

definition isspace :: "char \<Rightarrow> bool" where
  "isspace c \<longleftrightarrow> uchar c = 32 \<or> 9 \<le> uchar c \<and> uchar c \<le> 13"

fun dec_value :: "nat \<Rightarrow> char list \<Rightarrow> nat" where
  "dec_value acc [] = acc"
| "dec_value acc (c # cs) = dec_value (10 * acc + (uchar c - 48)) cs"

text \<open>
  \<open>strtoul (s, NULL, 10)\<close> with a 64-bit \<open>unsigned long\<close>: white space is skipped, a sign is
  accepted, the longest run of digits is read, and a value out of range gives \<open>ULONG_MAX\<close>.
  The argument is the memory from the pointer on.
\<close>

definition strtoul10 :: "char list \<Rightarrow> nat" where
  "strtoul10 s =
     (let s1 = dropWhile isspace s;
          neg = (s1 \<noteq> [] \<and> hd s1 = CHR ''-'');
          s2 = (if s1 \<noteq> [] \<and> (hd s1 = CHR ''-'' \<or> hd s1 = CHR ''+'') then tl s1 else s1);
          v = dec_value 0 (takeWhile isdigit s2)
      in if 2 ^ 64 \<le> v then 2 ^ 64 - 1 else if neg then (2 ^ 64 - v) mod 2 ^ 64 else v)"

lemma strtoul10_digit:
  assumes "isdigit c"
  shows "strtoul10 (c # cs) =
    (let v = dec_value 0 (takeWhile isdigit (c # cs)) in if 2 ^ 64 \<le> v then 2 ^ 64 - 1 else v)"
proof -
  have "\<not> isspace c" using assms by (simp add: isdigit_def isspace_def)
  moreover have "c \<noteq> CHR ''-''" "c \<noteq> CHR ''+''"
    using assms by (auto simp: isdigit_def uchar_def)
  ultimately show ?thesis by (simp add: strtoul10_def Let_def)
qed


text \<open>Case conversion of the C library in the C locale.\<close>

definition toupper :: "char \<Rightarrow> char" where
  "toupper c = (if 97 \<le> uchar c \<and> uchar c \<le> 122 then char_of (uchar c - 32) else c)"

definition tolower :: "char \<Rightarrow> char" where
  "tolower c = (if 65 \<le> uchar c \<and> uchar c \<le> 90 then char_of (uchar c + 32) else c)"


section \<open>Bit masks\<close>

lemma and_power_nonzero:
  assumes "n < LENGTH('a)"
  shows "(w :: 'a::len word) AND push_bit n 1 \<noteq> 0 \<longleftrightarrow> bit w n"
proof -
  have "bit (w AND push_bit n 1) n \<longleftrightarrow> bit w n"
    using assms by (simp add: bit_simps)
  moreover have "m = n" if "bit (w AND push_bit n 1) m" for m
    using that by (auto simp: bit_simps)
  ultimately show ?thesis
    by (metis bit_0_eq bot_apply bot_bool_def bit_eqI)
qed

end
