(* ===== verification/Http_Tables.thy ===== *)
theory Http_Tables
  imports Prelude
begin

text \<open>
  Constants of \<open>src/mwnet_mt/net/httpparser/http_parser.{h,c}\<close>: request methods, error codes and
  their strings, flags, the parser's enumerations, the lookup tables \<open>tokens\<close>, \<open>unhex\<close> and
  \<open>normal_url_char\<close>, and the character-class macros. The library is built with the default
  \<open>HTTP_PARSER_STRICT = 1\<close>, so the strict variants are the ones modelled. Each table gets a
  characterisation by conditions on the byte, which the later proofs use instead of the table.
\<close>

section \<open>Enumerations\<close>

datatype (plugins only: code size) http_method =
    HTTP_DELETE | HTTP_GET | HTTP_HEAD | HTTP_POST
  | HTTP_PUT | HTTP_CONNECT | HTTP_OPTIONS | HTTP_TRACE
  | HTTP_COPY | HTTP_LOCK | HTTP_MKCOL | HTTP_MOVE
  | HTTP_PROPFIND | HTTP_PROPPATCH | HTTP_SEARCH | HTTP_UNLOCK
  | HTTP_BIND | HTTP_REBIND | HTTP_UNBIND | HTTP_ACL
  | HTTP_REPORT | HTTP_MKACTIVITY | HTTP_CHECKOUT | HTTP_MERGE
  | HTTP_MSEARCH | HTTP_NOTIFY | HTTP_SUBSCRIBE | HTTP_UNSUBSCRIBE
  | HTTP_PATCH | HTTP_PURGE | HTTP_MKCALENDAR | HTTP_LINK
  | HTTP_UNLINK

text \<open>The numbers of \<open>HTTP_METHOD_MAP\<close>.\<close>

primrec method_num :: "http_method \<Rightarrow> nat" where
  "method_num HTTP_DELETE = 0"
| "method_num HTTP_GET = 1"
| "method_num HTTP_HEAD = 2"
| "method_num HTTP_POST = 3"
| "method_num HTTP_PUT = 4"
| "method_num HTTP_CONNECT = 5"
| "method_num HTTP_OPTIONS = 6"
| "method_num HTTP_TRACE = 7"
| "method_num HTTP_COPY = 8"
| "method_num HTTP_LOCK = 9"
| "method_num HTTP_MKCOL = 10"
| "method_num HTTP_MOVE = 11"
| "method_num HTTP_PROPFIND = 12"
| "method_num HTTP_PROPPATCH = 13"
| "method_num HTTP_SEARCH = 14"
| "method_num HTTP_UNLOCK = 15"
| "method_num HTTP_BIND = 16"
| "method_num HTTP_REBIND = 17"
| "method_num HTTP_UNBIND = 18"
| "method_num HTTP_ACL = 19"
| "method_num HTTP_REPORT = 20"
| "method_num HTTP_MKACTIVITY = 21"
| "method_num HTTP_CHECKOUT = 22"
| "method_num HTTP_MERGE = 23"
| "method_num HTTP_MSEARCH = 24"
| "method_num HTTP_NOTIFY = 25"
| "method_num HTTP_SUBSCRIBE = 26"
| "method_num HTTP_UNSUBSCRIBE = 27"
| "method_num HTTP_PATCH = 28"
| "method_num HTTP_PURGE = 29"
| "method_num HTTP_MKCALENDAR = 30"
| "method_num HTTP_LINK = 31"
| "method_num HTTP_UNLINK = 32"

definition method_strings :: "string list" where
  "method_strings =
   [''DELETE'', ''GET'', ''HEAD'', ''POST'', ''PUT'',
    ''CONNECT'', ''OPTIONS'', ''TRACE'', ''COPY'', ''LOCK'',
    ''MKCOL'', ''MOVE'', ''PROPFIND'', ''PROPPATCH'', ''SEARCH'',
    ''UNLOCK'', ''BIND'', ''REBIND'', ''UNBIND'', ''ACL'',
    ''REPORT'', ''MKACTIVITY'', ''CHECKOUT'', ''MERGE'', ''M-SEARCH'',
    ''NOTIFY'', ''SUBSCRIBE'', ''UNSUBSCRIBE'', ''PATCH'', ''PURGE'',
    ''MKCALENDAR'', ''LINK'', ''UNLINK'']"

text \<open>\<open>ELEM_AT (method_strings, m, "<unknown>")\<close>; the argument is an unchecked enum value.\<close>

definition http_method_str :: "nat \<Rightarrow> string" where
  "http_method_str m = (if m < length method_strings then method_strings ! m else ''<unknown>'')"

datatype http_parser_type = HTTP_REQUEST | HTTP_RESPONSE | HTTP_BOTH

datatype (plugins only: code size) http_errno =
    HPE_OK | HPE_CB_message_begin | HPE_CB_url
  | HPE_CB_header_field | HPE_CB_header_value | HPE_CB_headers_complete
  | HPE_CB_body | HPE_CB_message_complete | HPE_CB_status
  | HPE_CB_chunk_header | HPE_CB_chunk_complete | HPE_INVALID_EOF_STATE
  | HPE_HEADER_OVERFLOW | HPE_CLOSED_CONNECTION | HPE_INVALID_VERSION
  | HPE_INVALID_STATUS | HPE_INVALID_METHOD | HPE_INVALID_URL
  | HPE_INVALID_HOST | HPE_INVALID_PORT | HPE_INVALID_PATH
  | HPE_INVALID_QUERY_STRING | HPE_INVALID_FRAGMENT | HPE_LF_EXPECTED
  | HPE_INVALID_HEADER_TOKEN | HPE_INVALID_CONTENT_LENGTH | HPE_UNEXPECTED_CONTENT_LENGTH
  | HPE_INVALID_CHUNK_SIZE | HPE_INVALID_CONSTANT | HPE_INVALID_INTERNAL_STATE
  | HPE_STRICT | HPE_PAUSED | HPE_UNKNOWN

primrec errno_num :: "http_errno \<Rightarrow> nat" where
  "errno_num HPE_OK = 0"
| "errno_num HPE_CB_message_begin = 1"
| "errno_num HPE_CB_url = 2"
| "errno_num HPE_CB_header_field = 3"
| "errno_num HPE_CB_header_value = 4"
| "errno_num HPE_CB_headers_complete = 5"
| "errno_num HPE_CB_body = 6"
| "errno_num HPE_CB_message_complete = 7"
| "errno_num HPE_CB_status = 8"
| "errno_num HPE_CB_chunk_header = 9"
| "errno_num HPE_CB_chunk_complete = 10"
| "errno_num HPE_INVALID_EOF_STATE = 11"
| "errno_num HPE_HEADER_OVERFLOW = 12"
| "errno_num HPE_CLOSED_CONNECTION = 13"
| "errno_num HPE_INVALID_VERSION = 14"
| "errno_num HPE_INVALID_STATUS = 15"
| "errno_num HPE_INVALID_METHOD = 16"
| "errno_num HPE_INVALID_URL = 17"
| "errno_num HPE_INVALID_HOST = 18"
| "errno_num HPE_INVALID_PORT = 19"
| "errno_num HPE_INVALID_PATH = 20"
| "errno_num HPE_INVALID_QUERY_STRING = 21"
| "errno_num HPE_INVALID_FRAGMENT = 22"
| "errno_num HPE_LF_EXPECTED = 23"
| "errno_num HPE_INVALID_HEADER_TOKEN = 24"
| "errno_num HPE_INVALID_CONTENT_LENGTH = 25"
| "errno_num HPE_UNEXPECTED_CONTENT_LENGTH = 26"
| "errno_num HPE_INVALID_CHUNK_SIZE = 27"
| "errno_num HPE_INVALID_CONSTANT = 28"
| "errno_num HPE_INVALID_INTERNAL_STATE = 29"
| "errno_num HPE_STRICT = 30"
| "errno_num HPE_PAUSED = 31"
| "errno_num HPE_UNKNOWN = 32"

definition http_strerror_tab :: "(string \<times> string) list" where
  "http_strerror_tab =
   [(''HPE_OK'', ''success''),
    (''HPE_CB_message_begin'', ''the on_message_begin callback failed''),
    (''HPE_CB_url'', ''the on_url callback failed''),
    (''HPE_CB_header_field'', ''the on_header_field callback failed''),
    (''HPE_CB_header_value'', ''the on_header_value callback failed''),
    (''HPE_CB_headers_complete'', ''the on_headers_complete callback failed''),
    (''HPE_CB_body'', ''the on_body callback failed''),
    (''HPE_CB_message_complete'', ''the on_message_complete callback failed''),
    (''HPE_CB_status'', ''the on_status callback failed''),
    (''HPE_CB_chunk_header'', ''the on_chunk_header callback failed''),
    (''HPE_CB_chunk_complete'', ''the on_chunk_complete callback failed''),
    (''HPE_INVALID_EOF_STATE'', ''stream ended at an unexpected time''),
    (''HPE_HEADER_OVERFLOW'', ''too many header bytes seen; overflow detected''),
    (''HPE_CLOSED_CONNECTION'', ''data received after completed connection: close message''),
    (''HPE_INVALID_VERSION'', ''invalid HTTP version''),
    (''HPE_INVALID_STATUS'', ''invalid HTTP status code''),
    (''HPE_INVALID_METHOD'', ''invalid HTTP method''),
    (''HPE_INVALID_URL'', ''invalid URL''),
    (''HPE_INVALID_HOST'', ''invalid host''),
    (''HPE_INVALID_PORT'', ''invalid port''),
    (''HPE_INVALID_PATH'', ''invalid path''),
    (''HPE_INVALID_QUERY_STRING'', ''invalid query string''),
    (''HPE_INVALID_FRAGMENT'', ''invalid fragment''),
    (''HPE_LF_EXPECTED'', ''LF character expected''),
    (''HPE_INVALID_HEADER_TOKEN'', ''invalid character in header''),
    (''HPE_INVALID_CONTENT_LENGTH'', ''invalid character in content-length header''),
    (''HPE_UNEXPECTED_CONTENT_LENGTH'', ''unexpected content-length header''),
    (''HPE_INVALID_CHUNK_SIZE'', ''invalid character in chunk size header''),
    (''HPE_INVALID_CONSTANT'', ''invalid constant string''),
    (''HPE_INVALID_INTERNAL_STATE'', ''encountered unexpected internal state''),
    (''HPE_STRICT'', ''strict mode assertion failed''),
    (''HPE_PAUSED'', ''parser is paused''),
    (''HPE_UNKNOWN'', ''an unknown error occurred'')]"

text \<open>\<open>http_errno_name\<close> and \<open>http_errno_description\<close> index the table by the code.\<close>

definition http_errno_name :: "http_errno \<Rightarrow> string" where
  "http_errno_name err = fst (http_strerror_tab ! errno_num err)"

definition http_errno_description :: "http_errno \<Rightarrow> string" where
  "http_errno_description err = snd (http_strerror_tab ! errno_num err)"

text \<open>\<open>enum flags\<close>: the bits of \<open>http_parser.flags\<close>.\<close>

definition F_CHUNKED :: u8 where "F_CHUNKED = push_bit 0 1"
definition F_CONNECTION_KEEP_ALIVE :: u8 where "F_CONNECTION_KEEP_ALIVE = push_bit 1 1"
definition F_CONNECTION_CLOSE :: u8 where "F_CONNECTION_CLOSE = push_bit 2 1"
definition F_CONNECTION_UPGRADE :: u8 where "F_CONNECTION_UPGRADE = push_bit 3 1"
definition F_TRAILING :: u8 where "F_TRAILING = push_bit 4 1"
definition F_UPGRADE :: u8 where "F_UPGRADE = push_bit 5 1"
definition F_SKIPBODY :: u8 where "F_SKIPBODY = push_bit 6 1"
definition F_CONTENTLENGTH :: u8 where "F_CONTENTLENGTH = push_bit 7 1"

lemmas flag_defs = F_CHUNKED_def F_CONNECTION_KEEP_ALIVE_def F_CONNECTION_CLOSE_def
  F_CONNECTION_UPGRADE_def F_TRAILING_def F_UPGRADE_def F_SKIPBODY_def F_CONTENTLENGTH_def

text \<open>\<open>enum state\<close>, with the numbering that \<open>PARSING_HEADER\<close> compares.\<close>

datatype (plugins only: code size) pstate =
    s_dead | s_start_req_or_res | s_res_or_resp_H | s_start_res
  | s_res_H | s_res_HT | s_res_HTT | s_res_HTTP
  | s_res_first_http_major | s_res_http_major | s_res_first_http_minor | s_res_http_minor
  | s_res_first_status_code | s_res_status_code | s_res_status_start | s_res_status
  | s_res_line_almost_done | s_start_req | s_req_method | s_req_spaces_before_url
  | s_req_schema | s_req_schema_slash | s_req_schema_slash_slash | s_req_server_start
  | s_req_server | s_req_server_with_at | s_req_path | s_req_query_string_start
  | s_req_query_string | s_req_fragment_start | s_req_fragment | s_req_http_start
  | s_req_http_H | s_req_http_HT | s_req_http_HTT | s_req_http_HTTP
  | s_req_first_http_major | s_req_http_major | s_req_first_http_minor | s_req_http_minor
  | s_req_line_almost_done | s_header_field_start | s_header_field | s_header_value_discard_ws
  | s_header_value_discard_ws_almost_done | s_header_value_discard_lws | s_header_value_start | s_header_value
  | s_header_value_lws | s_header_almost_done | s_chunk_size_start | s_chunk_size
  | s_chunk_parameters | s_chunk_size_almost_done | s_headers_almost_done | s_headers_done
  | s_chunk_data | s_chunk_data_almost_done | s_chunk_data_done | s_body_identity
  | s_body_identity_eof | s_message_done

primrec state_num :: "pstate \<Rightarrow> nat" where
  "state_num s_dead = 1"
| "state_num s_start_req_or_res = 2"
| "state_num s_res_or_resp_H = 3"
| "state_num s_start_res = 4"
| "state_num s_res_H = 5"
| "state_num s_res_HT = 6"
| "state_num s_res_HTT = 7"
| "state_num s_res_HTTP = 8"
| "state_num s_res_first_http_major = 9"
| "state_num s_res_http_major = 10"
| "state_num s_res_first_http_minor = 11"
| "state_num s_res_http_minor = 12"
| "state_num s_res_first_status_code = 13"
| "state_num s_res_status_code = 14"
| "state_num s_res_status_start = 15"
| "state_num s_res_status = 16"
| "state_num s_res_line_almost_done = 17"
| "state_num s_start_req = 18"
| "state_num s_req_method = 19"
| "state_num s_req_spaces_before_url = 20"
| "state_num s_req_schema = 21"
| "state_num s_req_schema_slash = 22"
| "state_num s_req_schema_slash_slash = 23"
| "state_num s_req_server_start = 24"
| "state_num s_req_server = 25"
| "state_num s_req_server_with_at = 26"
| "state_num s_req_path = 27"
| "state_num s_req_query_string_start = 28"
| "state_num s_req_query_string = 29"
| "state_num s_req_fragment_start = 30"
| "state_num s_req_fragment = 31"
| "state_num s_req_http_start = 32"
| "state_num s_req_http_H = 33"
| "state_num s_req_http_HT = 34"
| "state_num s_req_http_HTT = 35"
| "state_num s_req_http_HTTP = 36"
| "state_num s_req_first_http_major = 37"
| "state_num s_req_http_major = 38"
| "state_num s_req_first_http_minor = 39"
| "state_num s_req_http_minor = 40"
| "state_num s_req_line_almost_done = 41"
| "state_num s_header_field_start = 42"
| "state_num s_header_field = 43"
| "state_num s_header_value_discard_ws = 44"
| "state_num s_header_value_discard_ws_almost_done = 45"
| "state_num s_header_value_discard_lws = 46"
| "state_num s_header_value_start = 47"
| "state_num s_header_value = 48"
| "state_num s_header_value_lws = 49"
| "state_num s_header_almost_done = 50"
| "state_num s_chunk_size_start = 51"
| "state_num s_chunk_size = 52"
| "state_num s_chunk_parameters = 53"
| "state_num s_chunk_size_almost_done = 54"
| "state_num s_headers_almost_done = 55"
| "state_num s_headers_done = 56"
| "state_num s_chunk_data = 57"
| "state_num s_chunk_data_almost_done = 58"
| "state_num s_chunk_data_done = 59"
| "state_num s_body_identity = 60"
| "state_num s_body_identity_eof = 61"
| "state_num s_message_done = 62"

definition all_states :: "pstate list" where
  "all_states =
   [s_dead, s_start_req_or_res, s_res_or_resp_H, s_start_res,
    s_res_H, s_res_HT, s_res_HTT, s_res_HTTP,
    s_res_first_http_major, s_res_http_major, s_res_first_http_minor, s_res_http_minor,
    s_res_first_status_code, s_res_status_code, s_res_status_start, s_res_status,
    s_res_line_almost_done, s_start_req, s_req_method, s_req_spaces_before_url,
    s_req_schema, s_req_schema_slash, s_req_schema_slash_slash, s_req_server_start,
    s_req_server, s_req_server_with_at, s_req_path, s_req_query_string_start,
    s_req_query_string, s_req_fragment_start, s_req_fragment, s_req_http_start,
    s_req_http_H, s_req_http_HT, s_req_http_HTT, s_req_http_HTTP,
    s_req_first_http_major, s_req_http_major, s_req_first_http_minor, s_req_http_minor,
    s_req_line_almost_done, s_header_field_start, s_header_field, s_header_value_discard_ws,
    s_header_value_discard_ws_almost_done, s_header_value_discard_lws, s_header_value_start, s_header_value,
    s_header_value_lws, s_header_almost_done, s_chunk_size_start, s_chunk_size,
    s_chunk_parameters, s_chunk_size_almost_done, s_headers_almost_done, s_headers_done,
    s_chunk_data, s_chunk_data_almost_done, s_chunk_data_done, s_body_identity,
    s_body_identity_eof, s_message_done]"

lemma all_states_num: "all_states ! (state_num s - 1) = s"
  by (cases s) (simp_all add: all_states_def)

lemma state_num_inject [simp]: "state_num s = state_num t \<longleftrightarrow> s = t"
  by (metis all_states_num)

instantiation pstate :: linorder
begin

definition less_eq_pstate :: "pstate \<Rightarrow> pstate \<Rightarrow> bool" where
  "less_eq_pstate s t \<longleftrightarrow> state_num s \<le> state_num t"

definition less_pstate :: "pstate \<Rightarrow> pstate \<Rightarrow> bool" where
  "less_pstate s t \<longleftrightarrow> state_num s < state_num t"

instance
  by standard (auto simp: less_eq_pstate_def less_pstate_def)

end

definition PARSING_HEADER :: "pstate \<Rightarrow> bool" where
  "PARSING_HEADER s \<longleftrightarrow> s \<le> s_headers_done"

datatype (plugins only: code size) header_states =
    h_general | h_C | h_CO | h_CON
  | h_matching_connection | h_matching_proxy_connection | h_matching_content_length | h_matching_transfer_encoding
  | h_matching_upgrade | h_connection | h_content_length | h_transfer_encoding
  | h_upgrade | h_matching_transfer_encoding_chunked | h_matching_connection_token_start | h_matching_connection_keep_alive
  | h_matching_connection_close | h_matching_connection_upgrade | h_matching_connection_token | h_transfer_encoding_chunked
  | h_connection_keep_alive | h_connection_close | h_connection_upgrade

datatype (plugins only: code size) http_host_state =
    s_http_host_dead | s_http_userinfo_start | s_http_userinfo | s_http_host_start
  | s_http_host_v6_start | s_http_host | s_http_host_v6 | s_http_host_v6_end
  | s_http_host_v6_zone_start | s_http_host_v6_zone | s_http_host_port_start | s_http_host_port


section \<open>Tables\<close>

text \<open>
  The initialisers of \<open>tokens\<close>, \<open>unhex\<close> and \<open>normal_url_char\<close> name only the first entries of
  the arrays (128, 128 and 16); C fills the rest with zeros, which the tables below spell out.
\<close>

definition tokens :: "char list" where
  "tokens =
   [NUL, NUL, NUL, NUL, NUL, NUL, NUL, NUL,
   NUL, NUL, NUL, NUL, NUL, NUL, NUL, NUL,
   NUL, NUL, NUL, NUL, NUL, NUL, NUL, NUL,
   NUL, NUL, NUL, NUL, NUL, NUL, NUL, NUL,
   NUL, CHR ''!'', NUL, CHR ''#'', CHR ''$'', CHR ''%'', CHR ''&'', CHR 0x27,
   NUL, NUL, CHR ''*'', CHR ''+'', NUL, CHR ''-'', CHR ''.'', NUL,
   CHR 0x30, CHR 0x31, CHR 0x32, CHR 0x33, CHR 0x34, CHR 0x35, CHR 0x36, CHR 0x37,
   CHR 0x38, CHR 0x39, NUL, NUL, NUL, NUL, NUL, NUL,
   NUL, CHR ''a'', CHR ''b'', CHR ''c'', CHR ''d'', CHR ''e'', CHR ''f'', CHR ''g'',
   CHR ''h'', CHR ''i'', CHR ''j'', CHR ''k'', CHR ''l'', CHR ''m'', CHR ''n'', CHR ''o'',
   CHR ''p'', CHR ''q'', CHR ''r'', CHR ''s'', CHR ''t'', CHR ''u'', CHR ''v'', CHR ''w'',
   CHR ''x'', CHR ''y'', CHR ''z'', NUL, NUL, NUL, CHR ''^'', CHR ''_'',
   CHR 0x60, CHR ''a'', CHR ''b'', CHR ''c'', CHR ''d'', CHR ''e'', CHR ''f'', CHR ''g'',
   CHR ''h'', CHR ''i'', CHR ''j'', CHR ''k'', CHR ''l'', CHR ''m'', CHR ''n'', CHR ''o'',
   CHR ''p'', CHR ''q'', CHR ''r'', CHR ''s'', CHR ''t'', CHR ''u'', CHR ''v'', CHR ''w'',
   CHR ''x'', CHR ''y'', CHR ''z'', NUL, CHR ''|'', NUL, CHR ''~'', NUL]
   @ replicate 128 NUL"

definition unhex :: "int list" where
  "unhex =
   [-1, -1, -1, -1, -1, -1, -1, -1, -1, -1, -1, -1, -1, -1, -1, -1,
   -1, -1, -1, -1, -1, -1, -1, -1, -1, -1, -1, -1, -1, -1, -1, -1,
   -1, -1, -1, -1, -1, -1, -1, -1, -1, -1, -1, -1, -1, -1, -1, -1,
   0, 1, 2, 3, 4, 5, 6, 7, 8, 9, -1, -1, -1, -1, -1, -1,
   -1, 10, 11, 12, 13, 14, 15, -1, -1, -1, -1, -1, -1, -1, -1, -1,
   -1, -1, -1, -1, -1, -1, -1, -1, -1, -1, -1, -1, -1, -1, -1, -1,
   -1, 10, 11, 12, 13, 14, 15, -1, -1, -1, -1, -1, -1, -1, -1, -1,
   -1, -1, -1, -1, -1, -1, -1, -1, -1, -1, -1, -1, -1, -1, -1, -1]
   @ replicate 128 0"

definition normal_url_char :: "nat list" where
  "normal_url_char =
   [0, 0,
    0, 0,
    2 + 4 + 16 + 32 + 64 + 128, 1 + 2 + 4 + 8 + 16 + 32 + 64 + 128,
    1 + 2 + 4 + 8 + 16 + 32 + 64 + 128, 1 + 2 + 4 + 8 + 16 + 32 + 64,
    1 + 2 + 4 + 8 + 16 + 32 + 64 + 128, 1 + 2 + 4 + 8 + 16 + 32 + 64 + 128,
    1 + 2 + 4 + 8 + 16 + 32 + 64 + 128, 1 + 2 + 4 + 8 + 16 + 32 + 64 + 128,
    1 + 2 + 4 + 8 + 16 + 32 + 64 + 128, 1 + 2 + 4 + 8 + 16 + 32 + 64 + 128,
    1 + 2 + 4 + 8 + 16 + 32 + 64 + 128, 1 + 2 + 4 + 8 + 16 + 32 + 64]
   @ replicate 16 0"

text \<open>\<open>BIT_AT(a, i)\<close>: bit \<open>i mod 8\<close> of byte \<open>i div 8\<close>.\<close>

definition BIT_AT :: "nat list \<Rightarrow> nat \<Rightarrow> bool" where
  "BIT_AT a i \<longleftrightarrow> bit (a ! (i div 8)) (i mod 8)"


section \<open>Character classes\<close>

definition CR :: char where "CR = CHR 0x0D"
definition LF :: char where "LF = CHR 0x0A"

definition LOWER :: "char \<Rightarrow> char" where
  "LOWER c = char_of (uchar c OR 0x20)"

definition IS_ALPHA :: "char \<Rightarrow> bool" where
  "IS_ALPHA c \<longleftrightarrow> uchar CHR ''a'' \<le> uchar (LOWER c) \<and> uchar (LOWER c) \<le> uchar CHR ''z''"

definition IS_NUM :: "char \<Rightarrow> bool" where
  "IS_NUM c \<longleftrightarrow> schar CHR ''0'' \<le> schar c \<and> schar c \<le> schar CHR ''9''"

definition IS_ALPHANUM :: "char \<Rightarrow> bool" where
  "IS_ALPHANUM c \<longleftrightarrow> IS_ALPHA c \<or> IS_NUM c"

definition IS_HEX :: "char \<Rightarrow> bool" where
  "IS_HEX c \<longleftrightarrow> IS_NUM c \<or>
     uchar CHR ''a'' \<le> uchar (LOWER c) \<and> uchar (LOWER c) \<le> uchar CHR ''f''"

definition IS_MARK :: "char \<Rightarrow> bool" where
  "IS_MARK c \<longleftrightarrow> c = CHR ''-'' \<or> c = CHR ''_'' \<or> c = CHR ''.'' \<or> c = CHR ''!'' \<or>
     c = CHR ''~'' \<or> c = CHR ''*'' \<or> c = CHR 0x27 \<or> c = CHR ''('' \<or> c = CHR '')''"

definition IS_USERINFO_CHAR :: "char \<Rightarrow> bool" where
  "IS_USERINFO_CHAR c \<longleftrightarrow> IS_ALPHANUM c \<or> IS_MARK c \<or> c = CHR ''%'' \<or> c = CHR '';'' \<or>
     c = CHR '':'' \<or> c = CHR ''&'' \<or> c = CHR ''='' \<or> c = CHR ''+'' \<or> c = CHR ''$'' \<or>
     c = CHR '',''"

definition STRICT_TOKEN :: "char \<Rightarrow> char" where
  "STRICT_TOKEN c = tokens ! uchar c"

definition TOKEN :: "char \<Rightarrow> char" where
  "TOKEN c = tokens ! uchar c"

definition IS_URL_CHAR :: "char \<Rightarrow> bool" where
  "IS_URL_CHAR c \<longleftrightarrow> BIT_AT normal_url_char (uchar c)"

definition IS_HOST_CHAR :: "char \<Rightarrow> bool" where
  "IS_HOST_CHAR c \<longleftrightarrow> IS_ALPHANUM c \<or> c = CHR ''.'' \<or> c = CHR ''-''"

definition IS_HEADER_CHAR :: "char \<Rightarrow> bool" where
  "IS_HEADER_CHAR c \<longleftrightarrow> c = CR \<or> c = LF \<or> schar c = 9 \<or> (31 < uchar c \<and> schar c \<noteq> 127)"

definition unhex_at :: "char \<Rightarrow> int" where
  "unhex_at c = unhex ! uchar c"


section \<open>What the tables say\<close>

text \<open>
  A table of 256 entries is compared with its characterisation as a whole list, once; the
  pointwise statements follow.
\<close>

lemma half_table_nth:
  assumes "take k xs = map f [0..<k]" "drop k xs = replicate m z" "n < k + m"
  shows "xs ! n = (if n < k then f n else z)"
proof -
  have "length xs = k + m" using assms(1,2) by (metis append_take_drop_id diff_zero length_append
      length_map length_replicate length_upt)
  have "xs ! n = (map f [0..<k] @ replicate m z) ! n"
    using assms(1,2) by (metis append_take_drop_id)
  with assms(3) show ?thesis by (simp add: nth_append)
qed

lemma IS_NUM_iff [table_simps]: "IS_NUM c \<longleftrightarrow> 48 \<le> uchar c \<and> uchar c \<le> 57"
proof -
  have "uchar CHR ''0'' = 48" "uchar CHR ''9'' = 57" by (simp_all add: uchar_def)
  then show ?thesis using uchar_less [of c] by (simp add: IS_NUM_def schar_def del: uchar_less)
qed

lemma IS_NUM_isdigit: "IS_NUM c = isdigit c"
  by (simp add: IS_NUM_iff isdigit_def)

lemma or_32: "(n::nat) OR 32 = (if odd (n div 32) then n else n + 32)"
proof -
  have "n OR 32 = set_bit 5 n" by (simp add: set_bit_eq_or push_bit_eq_mult)
  also have "\<dots> = (if odd (n div 32) then n else n + 32)"
    by (simp add: set_bit_eq bit_iff_odd)
  finally show ?thesis .
qed

lemma uchar_LOWER: "uchar (LOWER c) = uchar c OR 32"
proof -
  have "n OR 32 < 256" if "n < 256" for n :: nat
  proof (cases "n < 224")
    case False
    with that have "n div 32 = 7" by simp
    with that show ?thesis by (simp add: or_32)
  qed (simp add: or_32)
  from this [OF uchar_less [of c]] show ?thesis by (simp add: LOWER_def)
qed

lemma or_32_range:
  assumes "n < 256"
  shows "97 \<le> n OR (32::nat) \<and> n OR 32 \<le> 122 \<longleftrightarrow> 65 \<le> n \<and> n \<le> 90 \<or> 97 \<le> n \<and> n \<le> 122"
    and "97 \<le> n OR (32::nat) \<and> n OR 32 \<le> 102 \<longleftrightarrow> 65 \<le> n \<and> n \<le> 70 \<or> 97 \<le> n \<and> n \<le> 102"
proof -
  define q r where "q = n div 32" and "r = n mod 32"
  have n: "n = 32 * q + r" and r: "r < 32" by (simp_all add: q_def r_def)
  with assms have "q < 8" by simp
  then have q: "q = 0 \<or> q = 1 \<or> q = 2 \<or> q = 3 \<or> q = 4 \<or> q = 5 \<or> q = 6 \<or> q = 7" by arith
  have o: "n OR 32 = (if odd q then n else n + 32)" by (simp add: or_32 q_def)
  from q r show "97 \<le> n OR (32::nat) \<and> n OR 32 \<le> 122 \<longleftrightarrow> 65 \<le> n \<and> n \<le> 90 \<or> 97 \<le> n \<and> n \<le> 122"
    unfolding o unfolding n by (elim disjE) auto
  from q r show "97 \<le> n OR (32::nat) \<and> n OR 32 \<le> 102 \<longleftrightarrow> 65 \<le> n \<and> n \<le> 70 \<or> 97 \<le> n \<and> n \<le> 102"
    unfolding o unfolding n by (elim disjE) auto
qed

lemma IS_ALPHA_iff [table_simps]:
  "IS_ALPHA c \<longleftrightarrow> 65 \<le> uchar c \<and> uchar c \<le> 90 \<or> 97 \<le> uchar c \<and> uchar c \<le> 122"
proof -
  have "uchar CHR ''a'' = 97" "uchar CHR ''z'' = 122" by (simp_all add: uchar_def)
  with or_32_range(1) [OF uchar_less [of c]] show ?thesis by (simp add: IS_ALPHA_def uchar_LOWER)
qed

lemma IS_HEX_iff [table_simps]:
  "IS_HEX c \<longleftrightarrow> 48 \<le> uchar c \<and> uchar c \<le> 57 \<or> 65 \<le> uchar c \<and> uchar c \<le> 70 \<or>
     97 \<le> uchar c \<and> uchar c \<le> 102"
proof -
  have "uchar CHR ''a'' = 97" "uchar CHR ''f'' = 102" by (simp_all add: uchar_def)
  with or_32_range(2) [OF uchar_less [of c]] show ?thesis
    by (simp add: IS_HEX_def uchar_LOWER IS_NUM_iff)
qed

text \<open>RFC 2616 tokens: no control character, no separator; letters are lower-cased.\<close>

definition token_byte :: "nat \<Rightarrow> bool" where
  "token_byte n \<longleftrightarrow> 32 < n \<and> n < 127 \<and>
     n \<notin> {34, 40, 41, 44, 47, 58, 59, 60, 61, 62, 63, 64, 91, 92, 93, 123, 125}"

lemma tokens_low:
  "take 128 (map uchar tokens) =
   map (\<lambda>n. if token_byte n then (if 65 \<le> n \<and> n \<le> 90 then n + 32 else n) else 0) [0..<128]"
  by (simp add: tokens_def token_byte_def uchar_def NUL_def upt_conv_Cons)

lemma tokens_high: "drop 128 (map uchar tokens) = replicate 128 0"
  by (simp add: tokens_def)

lemma length_tokens [simp]: "length tokens = 256"
  by (simp add: tokens_def)

lemma uchar_TOKEN:
  "uchar (TOKEN c) =
   (if token_byte (uchar c) then (if IS_ALPHA c \<and> uchar c \<le> 90 then uchar c + 32 else uchar c)
    else 0)"
proof -
  have "uchar (TOKEN c) = map uchar tokens ! uchar c" by (simp add: TOKEN_def)
  also have "\<dots> = (if uchar c < 128 then (if token_byte (uchar c) then
      (if 65 \<le> uchar c \<and> uchar c \<le> 90 then uchar c + 32 else uchar c) else 0) else 0)"
    by (rule half_table_nth [OF tokens_low tokens_high]) simp
  finally show ?thesis by (auto simp: IS_ALPHA_iff token_byte_def)
qed

lemma TOKEN_NUL_iff [table_simps]: "TOKEN c = NUL \<longleftrightarrow> \<not> token_byte (uchar c)"
proof -
  have "TOKEN c = NUL \<longleftrightarrow> uchar (TOKEN c) = 0"
    using uchar_inject [of "TOKEN c" NUL] by (simp add: uchar_NUL del: uchar_inject)
  then show ?thesis by (auto simp: uchar_TOKEN token_byte_def)
qed

lemma STRICT_TOKEN_eq: "STRICT_TOKEN c = TOKEN c"
  by (simp add: TOKEN_def STRICT_TOKEN_def)

lemma normal_url_char_map:
  "concat (map (\<lambda>w. map (\<lambda>k. odd (w div k)) [1, 2, 4, 8, 16, 32, 64, 128])
     (take 16 normal_url_char)) =
   map (\<lambda>n. 32 < n \<and> n < 127 \<and> n \<noteq> 35 \<and> n \<noteq> 63) [0..<128]"
  by (simp add: normal_url_char_def upt_conv_Cons)

lemma concat_map_const_nth:
  "(\<And>x. length (f x) = k) \<Longrightarrow> i < length xs * k \<Longrightarrow>
     concat (map f xs) ! i = f (xs ! (i div k)) ! (i mod k)"
proof (induction xs arbitrary: i)
  case (Cons x xs)
  show ?case
  proof (cases "i < k")
    case False
    then have "i - k < length xs * k" using Cons.prems by (auto simp: not_less)
    moreover from this have "0 < k" by (cases k) auto
    ultimately have "0 < k" "i - k < length xs * k" by auto
    with False Cons.IH [OF Cons.prems(1), of "i - k"] Cons.prems(1) show ?thesis
      by (simp add: nth_append le_div_geq le_mod_geq)
  qed (use Cons.prems in \<open>simp add: nth_append\<close>)
qed simp

lemma powers_of_two_nth: "k < 8 \<Longrightarrow> [1, 2, 4, 8, 16, 32, 64, 128] ! k = (2::nat) ^ k"
proof -
  assume "k < 8"
  then have "k = 0 \<or> k = 1 \<or> k = 2 \<or> k = 3 \<or> k = 4 \<or> k = 5 \<or> k = 6 \<or> k = 7" by arith
  then show ?thesis by (elim disjE) simp_all
qed

lemma BIT_AT_map:
  "BIT_AT a i = map (\<lambda>k. odd (a ! (i div 8) div k)) [1, 2, 4, 8, 16, 32, 64, 128] ! (i mod 8)"
proof -
  have i: "i mod 8 < length [1, 2, 4, 8, 16, 32, 64, 128 :: nat]" by simp
  show ?thesis unfolding BIT_AT_def bit_iff_odd nth_map [OF i]
    by (subst powers_of_two_nth) simp_all
qed

lemma IS_URL_CHAR_iff [table_simps]:
  "IS_URL_CHAR c \<longleftrightarrow> 32 < uchar c \<and> uchar c < 127 \<and> uchar c \<noteq> 35 \<and> uchar c \<noteq> 63"
proof (cases "uchar c < 128")
  case True
  then have i: "uchar c div 8 < 16" by simp
  have len: "length (take 16 normal_url_char) = 16" by (simp add: normal_url_char_def)
  have "IS_URL_CHAR c = BIT_AT (take 16 normal_url_char) (uchar c)"
    using i by (simp add: IS_URL_CHAR_def BIT_AT_def)
  also have "\<dots> = concat (map (\<lambda>w. map (\<lambda>k. odd (w div k)) [1, 2, 4, 8, 16, 32, 64, 128])
      (take 16 normal_url_char)) ! uchar c"
    unfolding BIT_AT_map by (rule concat_map_const_nth [symmetric]) (use True len in simp_all)
  finally show ?thesis unfolding normal_url_char_map using True by simp
next
  case False
  define j where "j = uchar c div 8 - 16"
  have j: "j < 16" "uchar c div 8 = 16 + j"
    using False uchar_less [of c] unfolding j_def by (simp_all del: uchar_less)
  have "length normal_url_char = 32" "drop 16 normal_url_char = replicate 16 0"
    by (simp_all add: normal_url_char_def)
  then have "normal_url_char ! (16 + j) = replicate 16 0 ! j"
    using nth_drop [of 16 normal_url_char j] by simp
  with j have "normal_url_char ! (uchar c div 8) = 0" by simp
  with False show ?thesis by (simp add: IS_URL_CHAR_def BIT_AT_def)
qed

lemma unhex_low:
  "take 128 unhex = map (\<lambda>n. if 48 \<le> n \<and> n \<le> 57 then int n - 48
     else if 97 \<le> n \<and> n \<le> 102 then int n - 87
     else if 65 \<le> n \<and> n \<le> 70 then int n - 55 else - 1) [0..<128]"
  by (simp add: unhex_def upt_conv_Cons)

lemma unhex_high: "drop 128 unhex = replicate 128 0"
  by (simp add: unhex_def)

lemma unhex_at_eq [table_simps]:
  "unhex_at c =
    (if 48 \<le> uchar c \<and> uchar c \<le> 57 then int (uchar c) - 48
     else if 97 \<le> uchar c \<and> uchar c \<le> 102 then int (uchar c) - 87
     else if 65 \<le> uchar c \<and> uchar c \<le> 70 then int (uchar c) - 55
     else if 128 \<le> uchar c then 0 else - 1)"
  unfolding unhex_at_def
  by (subst half_table_nth [OF unhex_low unhex_high]) auto

end
