(* ===== verification/Http_Parser.thy ===== *)
theory Http_Parser
  imports Http_Tables
begin

text \<open>
  The incremental HTTP parser of \<open>src/mwnet_mt/net/httpparser/http_parser.c\<close>: the parser
  record and its callbacks, the macros \<open>CALLBACK_*\<close>, \<open>MARK\<close>, \<open>COUNT_HEADER_SIZE\<close>, the URL
  automaton \<open>parse_url_char\<close>, every case of the switch of \<open>http_parser_execute\<close> as one
  definition, the loop around the switch, and the small functions of the API.

  A local frame holds what the C function keeps in locals (\<open>p_state\<close>, the position \<open>p - data\<close>,
  \<open>ch\<close>, the five marks). One pass through the switch ends by \<open>break\<close>, \<open>goto reexecute\<close>,
  \<open>goto error\<close> or \<open>return\<close>: the constructors of the flow type. A failed \<open>assert\<close> is the flow
  \<open>Abort\<close>. A callback may read and write the parser and the world it belongs to (type \<open>'u\<close>);
  because a callback could set the state and make the parser re-execute for ever, the loops are
  partial functions, and that they end is a theorem about well-behaved callbacks.
\<close>

section \<open>Structures\<close>

record http_parser =
  ptype :: http_parser_type
  flags :: u8
  state :: pstate
  header_state :: header_states
  index :: "7 word"
  lenient_http_headers :: bool
  nread :: u32
  content_length :: u64
  http_major :: u16
  http_minor :: u16
  status_code :: u16
  method_of :: http_method
  http_errno :: http_errno
  upgrade :: bool

text \<open>
  A callback takes the parser and the user state and returns its \<open>int\<close> result with both. A data
  callback also gets the buffer, the offset \<open>at - data\<close> and the length.
\<close>

type_synonym 'u http_cb = "http_parser \<Rightarrow> 'u \<Rightarrow> int \<times> http_parser \<times> 'u"
type_synonym 'u http_data_cb =
  "http_parser \<Rightarrow> char list \<Rightarrow> nat \<Rightarrow> nat \<Rightarrow> 'u \<Rightarrow> int \<times> http_parser \<times> 'u"

record 'u http_parser_settings =
  on_message_begin :: "'u http_cb option"
  on_url :: "'u http_data_cb option"
  on_status :: "'u http_data_cb option"
  on_header_field :: "'u http_data_cb option"
  on_header_value :: "'u http_data_cb option"
  on_headers_complete :: "'u http_cb option"
  on_body :: "'u http_data_cb option"
  on_message_complete :: "'u http_cb option"
  on_chunk_header :: "'u http_cb option"
  on_chunk_complete :: "'u http_cb option"

definition http_parser_settings_init :: "'u http_parser_settings" where
  "http_parser_settings_init =
     \<lparr>on_message_begin = None, on_url = None, on_status = None, on_header_field = None,
      on_header_value = None, on_headers_complete = None, on_body = None,
      on_message_complete = None, on_chunk_header = None, on_chunk_complete = None\<rparr>"

definition HTTP_MAX_HEADER_SIZE :: nat where
  "HTTP_MAX_HEADER_SIZE = 80 * 1024"

definition ULLONG_MAX :: u64 where
  "ULLONG_MAX = - 1"

definition has_flag :: "http_parser \<Rightarrow> u8 \<Rightarrow> bool" where
  "has_flag hp F \<longleftrightarrow> flags hp AND F \<noteq> 0"

definition set_flag :: "u8 \<Rightarrow> http_parser \<Rightarrow> http_parser" where
  "set_flag F hp = hp\<lparr>flags := flags hp OR F\<rparr>"

definition http_message_needs_eof :: "http_parser \<Rightarrow> bool" where
  "http_message_needs_eof hp =
     (if ptype hp = HTTP_REQUEST then False
      else if status_code hp div 100 = 1 \<or> status_code hp = 204 \<or> status_code hp = 304 \<or>
              has_flag hp F_SKIPBODY then False
      else if has_flag hp F_CHUNKED \<or> content_length hp \<noteq> ULLONG_MAX then False
      else True)"

definition http_should_keep_alive :: "http_parser \<Rightarrow> bool" where
  "http_should_keep_alive hp =
     (if http_major hp > 0 \<and> http_minor hp > 0
      then (if has_flag hp F_CONNECTION_CLOSE then False else \<not> http_message_needs_eof hp)
      else (if \<not> has_flag hp F_CONNECTION_KEEP_ALIVE then False else \<not> http_message_needs_eof hp))"

definition start_state :: "http_parser \<Rightarrow> pstate" where
  "start_state hp = (if ptype hp = HTTP_REQUEST then s_start_req else s_start_res)"

definition NEW_MESSAGE :: "http_parser \<Rightarrow> pstate" where
  "NEW_MESSAGE hp = (if http_should_keep_alive hp then start_state hp else s_dead)"

definition http_parser_init :: "http_parser_type \<Rightarrow> http_parser" where
  "http_parser_init t =
     \<lparr>ptype = t, flags = 0,
      state = (if t = HTTP_REQUEST then s_start_req
               else if t = HTTP_RESPONSE then s_start_res else s_start_req_or_res),
      header_state = h_general, index = 0, lenient_http_headers = False, nread = 0,
      content_length = 0, http_major = 0, http_minor = 0, status_code = 0,
      method_of = HTTP_DELETE, http_errno = HPE_OK, upgrade = False\<rparr>"

text \<open>\<open>http_parser_pause\<close>; \<open>None\<close> is the failed assertion on a parser in an error state.\<close>

definition http_parser_pause :: "http_parser \<Rightarrow> bool \<Rightarrow> http_parser option" where
  "http_parser_pause hp paused =
     (if http_errno hp = HPE_OK \<or> http_errno hp = HPE_PAUSED
      then Some (hp\<lparr>http_errno := (if paused then HPE_PAUSED else HPE_OK)\<rparr>) else None)"

definition http_body_is_final :: "http_parser \<Rightarrow> bool" where
  "http_body_is_final hp \<longleftrightarrow> state hp = s_message_done"

definition http_parser_version :: nat where
  "http_parser_version = 2 * 0x10000 OR 7 * 0x00100 OR 1 * 0x00001"


section \<open>Frames and flows\<close>

record 'u frame =
  parser :: http_parser
  p_state :: pstate
  pos :: nat
  cur :: char
  header_field_mark :: "nat option"
  header_value_mark :: "nat option"
  url_mark :: "nat option"
  body_mark :: "nat option"
  status_mark :: "nat option"
  lenient :: bool
  usr :: 'u

datatype 'u flow =
    Break "'u frame"
  | Reexecute "'u frame"
  | GotoError "'u frame"
  | Return nat "'u frame"
  | Abort

text \<open>The argument \<open>FOR\<close> of the callback macros.\<close>

datatype notify_for = FOR_message_begin | FOR_message_complete | FOR_chunk_header | FOR_chunk_complete

datatype data_for = FOR_header_field | FOR_header_value | FOR_url | FOR_body | FOR_status

primrec on_notify :: "notify_for \<Rightarrow> 'u http_parser_settings \<Rightarrow> 'u http_cb option" where
  "on_notify FOR_message_begin S = on_message_begin S"
| "on_notify FOR_message_complete S = on_message_complete S"
| "on_notify FOR_chunk_header S = on_chunk_header S"
| "on_notify FOR_chunk_complete S = on_chunk_complete S"

primrec on_data :: "data_for \<Rightarrow> 'u http_parser_settings \<Rightarrow> 'u http_data_cb option" where
  "on_data FOR_header_field S = on_header_field S"
| "on_data FOR_header_value S = on_header_value S"
| "on_data FOR_url S = on_url S"
| "on_data FOR_body S = on_body S"
| "on_data FOR_status S = on_status S"

primrec HPE_CB_notify :: "notify_for \<Rightarrow> http_errno" where
  "HPE_CB_notify FOR_message_begin = HPE_CB_message_begin"
| "HPE_CB_notify FOR_message_complete = HPE_CB_message_complete"
| "HPE_CB_notify FOR_chunk_header = HPE_CB_chunk_header"
| "HPE_CB_notify FOR_chunk_complete = HPE_CB_chunk_complete"

primrec HPE_CB_data :: "data_for \<Rightarrow> http_errno" where
  "HPE_CB_data FOR_header_field = HPE_CB_header_field"
| "HPE_CB_data FOR_header_value = HPE_CB_header_value"
| "HPE_CB_data FOR_url = HPE_CB_url"
| "HPE_CB_data FOR_body = HPE_CB_body"
| "HPE_CB_data FOR_status = HPE_CB_status"

primrec mark_of :: "data_for \<Rightarrow> 'u frame \<Rightarrow> nat option" where
  "mark_of FOR_header_field fr = header_field_mark fr"
| "mark_of FOR_header_value fr = header_value_mark fr"
| "mark_of FOR_url fr = url_mark fr"
| "mark_of FOR_body fr = body_mark fr"
| "mark_of FOR_status fr = status_mark fr"

primrec set_mark :: "data_for \<Rightarrow> nat option \<Rightarrow> 'u frame \<Rightarrow> 'u frame" where
  "set_mark FOR_header_field m fr = fr\<lparr>header_field_mark := m\<rparr>"
| "set_mark FOR_header_value m fr = fr\<lparr>header_value_mark := m\<rparr>"
| "set_mark FOR_url m fr = fr\<lparr>url_mark := m\<rparr>"
| "set_mark FOR_body m fr = fr\<lparr>body_mark := m\<rparr>"
| "set_mark FOR_status m fr = fr\<lparr>status_mark := m\<rparr>"

definition with_parser :: "(http_parser \<Rightarrow> http_parser) \<Rightarrow> 'u frame \<Rightarrow> 'u frame" where
  "with_parser f fr = fr\<lparr>parser := f (parser fr)\<rparr>"

definition SET_ERRNO :: "http_errno \<Rightarrow> 'u frame \<Rightarrow> 'u frame" where
  "SET_ERRNO e = with_parser (\<lambda>hp. hp\<lparr>http_errno := e\<rparr>)"

definition UPDATE_STATE :: "pstate \<Rightarrow> 'u frame \<Rightarrow> 'u frame" where
  "UPDATE_STATE s fr = fr\<lparr>p_state := s\<rparr>"

definition RETURN :: "nat \<Rightarrow> 'u frame \<Rightarrow> 'u flow" where
  "RETURN n fr = Return n (with_parser (\<lambda>hp. hp\<lparr>state := p_state fr\<rparr>) fr)"

text \<open>\<open>SET_ERRNO (e); goto error;\<close>\<close>

definition fail :: "http_errno \<Rightarrow> 'u frame \<Rightarrow> 'u flow" where
  "fail e fr = GotoError (SET_ERRNO e fr)"

definition assert_then :: "bool \<Rightarrow> 'u flow \<Rightarrow> 'u flow" where
  "assert_then b k = (if b then k else Abort)"

definition STRICT_CHECK :: "bool \<Rightarrow> 'u frame \<Rightarrow> 'u flow \<Rightarrow> 'u flow" where
  "STRICT_CHECK cond fr k = (if cond then fail HPE_STRICT fr else k)"

definition COUNT_HEADER_SIZE :: "nat \<Rightarrow> 'u frame \<Rightarrow> ('u frame \<Rightarrow> 'u flow) \<Rightarrow> 'u flow" where
  "COUNT_HEADER_SIZE v fr k =
     (let fr' = with_parser (\<lambda>hp. hp\<lparr>nread := nread hp + of_nat v\<rparr>) fr
      in if HTTP_MAX_HEADER_SIZE < unat (nread (parser fr')) then fail HPE_HEADER_OVERFLOW fr'
         else k fr')"

definition MARK :: "data_for \<Rightarrow> 'u frame \<Rightarrow> 'u frame" where
  "MARK FOR fr = (if mark_of FOR fr = None then set_mark FOR (Some (pos fr)) fr else fr)"

text \<open>
  The callback macros (\<open>CALLBACK_NOTIFY_\<close> and \<open>CALLBACK_DATA_\<close> end in \<open>gen\<close> here): the state is written back before the call and read again after it, a
  nonzero result becomes \<open>HPE_CB_*\<close>, and any error (or pause) returns \<open>er\<close>.
\<close>

definition run_callback ::
  "http_errno \<Rightarrow> (http_parser \<Rightarrow> 'u \<Rightarrow> int \<times> http_parser \<times> 'u) \<Rightarrow> nat \<Rightarrow> 'u frame \<Rightarrow>
   ('u frame \<Rightarrow> 'u flow) \<Rightarrow> 'u flow" where
  "run_callback e cb er fr k =
     (case cb ((parser fr)\<lparr>state := p_state fr\<rparr>) (usr fr) of (r, hp, u) \<Rightarrow>
        let hp' = (if r \<noteq> 0 then hp\<lparr>http_errno := e\<rparr> else hp);
            fr' = fr\<lparr>parser := hp', p_state := state hp', usr := u\<rparr>
        in if http_errno hp' \<noteq> HPE_OK then Return er fr' else k fr')"

definition CALLBACK_NOTIFY_gen ::
  "'u http_parser_settings \<Rightarrow> notify_for \<Rightarrow> nat \<Rightarrow> 'u frame \<Rightarrow> ('u frame \<Rightarrow> 'u flow) \<Rightarrow> 'u flow" where
  "CALLBACK_NOTIFY_gen S FOR er fr k =
     assert_then (http_errno (parser fr) = HPE_OK)
       (case on_notify FOR S of
          None \<Rightarrow> k fr
        | Some cb \<Rightarrow> run_callback (HPE_CB_notify FOR) cb er fr k)"

definition CALLBACK_NOTIFY ::
  "'u http_parser_settings \<Rightarrow> notify_for \<Rightarrow> 'u frame \<Rightarrow> ('u frame \<Rightarrow> 'u flow) \<Rightarrow> 'u flow" where
  "CALLBACK_NOTIFY S FOR fr k = CALLBACK_NOTIFY_gen S FOR (pos fr + 1) fr k"

definition CALLBACK_NOTIFY_NOADVANCE ::
  "'u http_parser_settings \<Rightarrow> notify_for \<Rightarrow> 'u frame \<Rightarrow> ('u frame \<Rightarrow> 'u flow) \<Rightarrow> 'u flow" where
  "CALLBACK_NOTIFY_NOADVANCE S FOR fr k = CALLBACK_NOTIFY_gen S FOR (pos fr) fr k"

text \<open>The length is computed from the mark, so it is a function of it here.\<close>

definition CALLBACK_DATA_gen ::
  "'u http_parser_settings \<Rightarrow> char list \<Rightarrow> data_for \<Rightarrow> (nat \<Rightarrow> nat) \<Rightarrow> nat \<Rightarrow> 'u frame \<Rightarrow>
   ('u frame \<Rightarrow> 'u flow) \<Rightarrow> 'u flow" where
  "CALLBACK_DATA_gen S d FOR LEN er fr k =
     assert_then (http_errno (parser fr) = HPE_OK)
       (case mark_of FOR fr of
          None \<Rightarrow> k fr
        | Some m \<Rightarrow>
            (case on_data FOR S of
               None \<Rightarrow> k (set_mark FOR None fr)
             | Some cb \<Rightarrow>
                 run_callback (HPE_CB_data FOR) (\<lambda>hp. cb hp d m (LEN m)) er fr
                   (\<lambda>fr'. k (set_mark FOR None fr'))))"

definition CALLBACK_DATA ::
  "'u http_parser_settings \<Rightarrow> char list \<Rightarrow> data_for \<Rightarrow> 'u frame \<Rightarrow> ('u frame \<Rightarrow> 'u flow) \<Rightarrow> 'u flow" where
  "CALLBACK_DATA S d FOR fr k = CALLBACK_DATA_gen S d FOR (\<lambda>m. pos fr - m) (pos fr + 1) fr k"

definition CALLBACK_DATA_NOADVANCE ::
  "'u http_parser_settings \<Rightarrow> char list \<Rightarrow> data_for \<Rightarrow> 'u frame \<Rightarrow> ('u frame \<Rightarrow> 'u flow) \<Rightarrow> 'u flow" where
  "CALLBACK_DATA_NOADVANCE S d FOR fr k = CALLBACK_DATA_gen S d FOR (\<lambda>m. pos fr - m) (pos fr) fr k"


section \<open>The URL automaton\<close>

definition parse_url_char :: "pstate \<Rightarrow> char \<Rightarrow> pstate" where
  "parse_url_char s c =
    (if c = CHR '' '' \<or> c = CR \<or> c = LF then s_dead
     else if c = CHR 0x09 \<or> c = CHR 0x0C then s_dead
     else if s = s_req_spaces_before_url then
       (if c = CHR ''/'' \<or> c = CHR ''*'' then s_req_path
        else if IS_ALPHA c then s_req_schema else s_dead)
     else if s = s_req_schema then
       (if IS_ALPHA c then s else if c = CHR '':'' then s_req_schema_slash else s_dead)
     else if s = s_req_schema_slash then
       (if c = CHR ''/'' then s_req_schema_slash_slash else s_dead)
     else if s = s_req_schema_slash_slash then
       (if c = CHR ''/'' then s_req_server_start else s_dead)
     else if s = s_req_server_with_at \<and> c = CHR ''@'' then s_dead
     else if s = s_req_server_with_at \<or> s = s_req_server_start \<or> s = s_req_server then
       (if c = CHR ''/'' then s_req_path
        else if c = CHR ''?'' then s_req_query_string_start
        else if c = CHR ''@'' then s_req_server_with_at
        else if IS_USERINFO_CHAR c \<or> c = CHR ''['' \<or> c = CHR '']'' then s_req_server
        else s_dead)
     else if s = s_req_path then
       (if IS_URL_CHAR c then s
        else if c = CHR ''?'' then s_req_query_string_start
        else if c = CHR ''#'' then s_req_fragment_start else s_dead)
     else if s = s_req_query_string_start \<or> s = s_req_query_string then
       (if IS_URL_CHAR c then s_req_query_string
        else if c = CHR ''?'' then s_req_query_string
        else if c = CHR ''#'' then s_req_fragment_start else s_dead)
     else if s = s_req_fragment_start then
       (if IS_URL_CHAR c then s_req_fragment
        else if c = CHR ''?'' then s_req_fragment
        else if c = CHR ''#'' then s else s_dead)
     else if s = s_req_fragment then
       (if IS_URL_CHAR c then s
        else if c = CHR ''?'' \<or> c = CHR ''#'' then s else s_dead)
     else s_dead)"


end
