(* ===== verification/Http_Execute.thy ===== *)
theory Http_Execute
  imports Http_Parser
begin

text \<open>
  The body of \<open>http_parser_execute\<close>: one definition per case of its switch, in the order of the
  source, then the dispatch, the \<open>reexecute\<close> loop, the loop over the bytes and the function
  itself. \<open>S\<close> is the settings structure and \<open>d\<close> the bytes \<open>data[0 .. len)\<close>.
\<close>

section \<open>Status line\<close>

definition digit_of :: "char \<Rightarrow> 'a::len word" where
  "digit_of c = of_int (schar c - schar CHR ''0'')"

definition case_dead :: "'u frame \<Rightarrow> 'u flow" where
  "case_dead fr = (if cur fr = CR \<or> cur fr = LF then Break fr else fail HPE_CLOSED_CONNECTION fr)"

definition case_start_req_or_res :: "'u http_parser_settings \<Rightarrow> 'u frame \<Rightarrow> 'u flow" where
  "case_start_req_or_res S fr =
     (if cur fr = CR \<or> cur fr = LF then Break fr
      else let fr1 = with_parser (\<lambda>hp. hp\<lparr>flags := 0, content_length := ULLONG_MAX\<rparr>) fr in
        if cur fr = CHR ''H''
        then CALLBACK_NOTIFY S FOR_message_begin (UPDATE_STATE s_res_or_resp_H fr1) Break
        else Reexecute (UPDATE_STATE s_start_req (with_parser (\<lambda>hp. hp\<lparr>ptype := HTTP_REQUEST\<rparr>) fr1)))"

definition case_res_or_resp_H :: "'u frame \<Rightarrow> 'u flow" where
  "case_res_or_resp_H fr =
     (if cur fr = CHR ''T''
      then Break (UPDATE_STATE s_res_HT (with_parser (\<lambda>hp. hp\<lparr>ptype := HTTP_RESPONSE\<rparr>) fr))
      else if cur fr \<noteq> CHR ''E'' then fail HPE_INVALID_CONSTANT fr
      else Break (UPDATE_STATE s_req_method
        (with_parser (\<lambda>hp. hp\<lparr>ptype := HTTP_REQUEST, method_of := HTTP_HEAD, index := 2\<rparr>) fr)))"

definition case_start_res :: "'u http_parser_settings \<Rightarrow> 'u frame \<Rightarrow> 'u flow" where
  "case_start_res S fr =
     (let fr1 = with_parser (\<lambda>hp. hp\<lparr>flags := 0, content_length := ULLONG_MAX\<rparr>) fr in
      if cur fr = CHR ''H'' then CALLBACK_NOTIFY S FOR_message_begin (UPDATE_STATE s_res_H fr1) Break
      else if cur fr = CR \<or> cur fr = LF then CALLBACK_NOTIFY S FOR_message_begin fr1 Break
      else fail HPE_INVALID_CONSTANT fr1)"

text \<open>The states that expect one constant character: \<open>s_res_H\<close> to \<open>s_res_HTTP\<close>.\<close>

definition case_res_H :: "'u frame \<Rightarrow> 'u flow" where
  "case_res_H fr = STRICT_CHECK (cur fr \<noteq> CHR ''T'') fr (Break (UPDATE_STATE s_res_HT fr))"

definition case_res_HT :: "'u frame \<Rightarrow> 'u flow" where
  "case_res_HT fr = STRICT_CHECK (cur fr \<noteq> CHR ''T'') fr (Break (UPDATE_STATE s_res_HTT fr))"

definition case_res_HTT :: "'u frame \<Rightarrow> 'u flow" where
  "case_res_HTT fr = STRICT_CHECK (cur fr \<noteq> CHR ''P'') fr (Break (UPDATE_STATE s_res_HTTP fr))"

definition case_res_HTTP :: "'u frame \<Rightarrow> 'u flow" where
  "case_res_HTTP fr =
     STRICT_CHECK (cur fr \<noteq> CHR ''/'') fr (Break (UPDATE_STATE s_res_first_http_major fr))"

definition case_res_first_http_major :: "'u frame \<Rightarrow> 'u flow" where
  "case_res_first_http_major fr =
     (if schar (cur fr) < schar CHR ''0'' \<or> schar CHR ''9'' < schar (cur fr)
      then fail HPE_INVALID_VERSION fr
      else Break (UPDATE_STATE s_res_http_major
        (with_parser (\<lambda>hp. hp\<lparr>http_major := digit_of (cur fr)\<rparr>) fr)))"

definition case_res_http_major :: "'u frame \<Rightarrow> 'u flow" where
  "case_res_http_major fr =
     (if cur fr = CHR ''.'' then Break (UPDATE_STATE s_res_first_http_minor fr)
      else if \<not> IS_NUM (cur fr) then fail HPE_INVALID_VERSION fr
      else let fr1 = with_parser (\<lambda>hp. hp\<lparr>http_major := http_major hp * 10 + digit_of (cur fr)\<rparr>) fr
        in if 999 < http_major (parser fr1) then fail HPE_INVALID_VERSION fr1 else Break fr1)"

definition case_res_first_http_minor :: "'u frame \<Rightarrow> 'u flow" where
  "case_res_first_http_minor fr =
     (if \<not> IS_NUM (cur fr) then fail HPE_INVALID_VERSION fr
      else Break (UPDATE_STATE s_res_http_minor
        (with_parser (\<lambda>hp. hp\<lparr>http_minor := digit_of (cur fr)\<rparr>) fr)))"

definition case_res_http_minor :: "'u frame \<Rightarrow> 'u flow" where
  "case_res_http_minor fr =
     (if cur fr = CHR '' '' then Break (UPDATE_STATE s_res_first_status_code fr)
      else if \<not> IS_NUM (cur fr) then fail HPE_INVALID_VERSION fr
      else let fr1 = with_parser (\<lambda>hp. hp\<lparr>http_minor := http_minor hp * 10 + digit_of (cur fr)\<rparr>) fr
        in if 999 < http_minor (parser fr1) then fail HPE_INVALID_VERSION fr1 else Break fr1)"

definition case_res_first_status_code :: "'u frame \<Rightarrow> 'u flow" where
  "case_res_first_status_code fr =
     (if \<not> IS_NUM (cur fr)
      then (if cur fr = CHR '' '' then Break fr else fail HPE_INVALID_STATUS fr)
      else Break (UPDATE_STATE s_res_status_code
        (with_parser (\<lambda>hp. hp\<lparr>status_code := digit_of (cur fr)\<rparr>) fr)))"

definition case_res_status_code :: "'u frame \<Rightarrow> 'u flow" where
  "case_res_status_code fr =
     (if \<not> IS_NUM (cur fr)
      then (if cur fr = CHR '' '' then Break (UPDATE_STATE s_res_status_start fr)
            else if cur fr = CR then Break (UPDATE_STATE s_res_line_almost_done fr)
            else if cur fr = LF then Break (UPDATE_STATE s_header_field_start fr)
            else fail HPE_INVALID_STATUS fr)
      else let fr1 = with_parser (\<lambda>hp. hp\<lparr>status_code := status_code hp * 10 + digit_of (cur fr)\<rparr>) fr
        in if 999 < status_code (parser fr1) then fail HPE_INVALID_STATUS fr1 else Break fr1)"

definition case_res_status_start :: "'u frame \<Rightarrow> 'u flow" where
  "case_res_status_start fr =
     (if cur fr = CR then Break (UPDATE_STATE s_res_line_almost_done fr)
      else if cur fr = LF then Break (UPDATE_STATE s_header_field_start fr)
      else Break (with_parser (\<lambda>hp. hp\<lparr>index := 0\<rparr>) (UPDATE_STATE s_res_status (MARK FOR_status fr))))"

definition case_res_status :: "'u http_parser_settings \<Rightarrow> char list \<Rightarrow> 'u frame \<Rightarrow> 'u flow" where
  "case_res_status S d fr =
     (if cur fr = CR then CALLBACK_DATA S d FOR_status (UPDATE_STATE s_res_line_almost_done fr) Break
      else if cur fr = LF then CALLBACK_DATA S d FOR_status (UPDATE_STATE s_header_field_start fr) Break
      else Break fr)"

definition case_res_line_almost_done :: "'u frame \<Rightarrow> 'u flow" where
  "case_res_line_almost_done fr =
     STRICT_CHECK (cur fr \<noteq> LF) fr (Break (UPDATE_STATE s_header_field_start fr))"


section \<open>Request line\<close>

definition start_req_method :: "char \<Rightarrow> http_method option" where
  "start_req_method c = map_of
     [(CHR ''A'', HTTP_ACL), (CHR ''B'', HTTP_BIND), (CHR ''C'', HTTP_CONNECT),
      (CHR ''D'', HTTP_DELETE), (CHR ''G'', HTTP_GET), (CHR ''H'', HTTP_HEAD),
      (CHR ''L'', HTTP_LOCK), (CHR ''M'', HTTP_MKCOL), (CHR ''N'', HTTP_NOTIFY),
      (CHR ''O'', HTTP_OPTIONS), (CHR ''P'', HTTP_POST), (CHR ''R'', HTTP_REPORT),
      (CHR ''S'', HTTP_SUBSCRIBE), (CHR ''T'', HTTP_TRACE), (CHR ''U'', HTTP_UNLOCK)] c"

definition case_start_req :: "'u http_parser_settings \<Rightarrow> 'u frame \<Rightarrow> 'u flow" where
  "case_start_req S fr =
     (if cur fr = CR \<or> cur fr = LF then Break fr
      else let fr1 = with_parser (\<lambda>hp. hp\<lparr>flags := 0, content_length := ULLONG_MAX\<rparr>) fr in
        if \<not> IS_ALPHA (cur fr) then fail HPE_INVALID_METHOD fr1
        else let fr2 = with_parser (\<lambda>hp. hp\<lparr>method_of := HTTP_DELETE, index := 1\<rparr>) fr1 in
          (case start_req_method (cur fr) of
             None \<Rightarrow> fail HPE_INVALID_METHOD fr2
           | Some m \<Rightarrow> CALLBACK_NOTIFY S FOR_message_begin
               (UPDATE_STATE s_req_method (with_parser (\<lambda>hp. hp\<lparr>method_of := m\<rparr>) fr2)) Break))"

text \<open>The inner switch on method, index and character: \<open>XX(meth, pos, ch, new_meth)\<close>.\<close>

definition method_switch :: "http_method \<Rightarrow> nat \<Rightarrow> char \<Rightarrow> http_method option" where
  "method_switch m i c = map_of
     [((HTTP_POST, 1, CHR ''U''), HTTP_PUT), ((HTTP_POST, 1, CHR ''A''), HTTP_PATCH),
      ((HTTP_CONNECT, 1, CHR ''H''), HTTP_CHECKOUT), ((HTTP_CONNECT, 2, CHR ''P''), HTTP_COPY),
      ((HTTP_MKCOL, 1, CHR ''O''), HTTP_MOVE), ((HTTP_MKCOL, 1, CHR ''E''), HTTP_MERGE),
      ((HTTP_MKCOL, 2, CHR ''A''), HTTP_MKACTIVITY), ((HTTP_MKCOL, 3, CHR ''A''), HTTP_MKCALENDAR),
      ((HTTP_SUBSCRIBE, 1, CHR ''E''), HTTP_SEARCH), ((HTTP_REPORT, 2, CHR ''B''), HTTP_REBIND),
      ((HTTP_POST, 1, CHR ''R''), HTTP_PROPFIND), ((HTTP_PROPFIND, 4, CHR ''P''), HTTP_PROPPATCH),
      ((HTTP_PUT, 2, CHR ''R''), HTTP_PURGE), ((HTTP_LOCK, 1, CHR ''I''), HTTP_LINK),
      ((HTTP_UNLOCK, 2, CHR ''S''), HTTP_UNSUBSCRIBE), ((HTTP_UNLOCK, 2, CHR ''B''), HTTP_UNBIND),
      ((HTTP_UNLOCK, 3, CHR ''I''), HTTP_UNLINK)] (m, i, c)"

definition case_req_method :: "'u frame \<Rightarrow> 'u flow" where
  "case_req_method fr =
     (let c = cur fr; hp = parser fr; i = unat (index hp);
          matcher = method_strings ! method_num (method_of hp);
          next_index = (\<lambda>fr'. Break (with_parser (\<lambda>hp. hp\<lparr>index := index hp + 1\<rparr>) fr'))
      in if c = NUL then fail HPE_INVALID_METHOD fr
         else if c = CHR '' '' \<and> cstr_at matcher i = NUL
         then next_index (UPDATE_STATE s_req_spaces_before_url fr)
         else if c = cstr_at matcher i then next_index fr
         else if IS_ALPHA c then
           (case method_switch (method_of hp) i c of
              Some m \<Rightarrow> next_index (with_parser (\<lambda>hp. hp\<lparr>method_of := m\<rparr>) fr)
            | None \<Rightarrow> fail HPE_INVALID_METHOD fr)
         else if c = CHR ''-'' \<and> index hp = 1 \<and> method_of hp = HTTP_MKCOL
         then next_index (with_parser (\<lambda>hp. hp\<lparr>method_of := HTTP_MSEARCH\<rparr>) fr)
         else fail HPE_INVALID_METHOD fr)"

text \<open>\<open>UPDATE_STATE (parse_url_char (CURRENT_STATE (), ch))\<close> with the test for \<open>s_dead\<close>.\<close>

definition url_step :: "'u frame \<Rightarrow> 'u flow" where
  "url_step fr =
     (let fr1 = UPDATE_STATE (parse_url_char (p_state fr) (cur fr)) fr
      in if p_state fr1 = s_dead then fail HPE_INVALID_URL fr1 else Break fr1)"

definition case_req_spaces_before_url :: "'u frame \<Rightarrow> 'u flow" where
  "case_req_spaces_before_url fr =
     (if cur fr = CHR '' '' then Break fr
      else let fr1 = MARK FOR_url fr;
               fr2 = (if method_of (parser fr1) = HTTP_CONNECT
                      then UPDATE_STATE s_req_server_start fr1 else fr1)
           in url_step fr2)"

definition case_req_schema :: "'u frame \<Rightarrow> 'u flow" where
  "case_req_schema fr =
     (if cur fr = CHR '' '' \<or> cur fr = CR \<or> cur fr = LF then fail HPE_INVALID_URL fr
      else url_step fr)"

definition case_req_url :: "'u http_parser_settings \<Rightarrow> char list \<Rightarrow> 'u frame \<Rightarrow> 'u flow" where
  "case_req_url S d fr =
     (if cur fr = CHR '' '' then CALLBACK_DATA S d FOR_url (UPDATE_STATE s_req_http_start fr) Break
      else if cur fr = CR \<or> cur fr = LF then
        CALLBACK_DATA S d FOR_url
          (UPDATE_STATE (if cur fr = CR then s_req_line_almost_done else s_header_field_start)
            (with_parser (\<lambda>hp. hp\<lparr>http_major := 0, http_minor := 9\<rparr>) fr)) Break
      else url_step fr)"

definition case_req_http_start :: "'u frame \<Rightarrow> 'u flow" where
  "case_req_http_start fr =
     (if cur fr = CHR ''H'' then Break (UPDATE_STATE s_req_http_H fr)
      else if cur fr = CHR '' '' then Break fr else fail HPE_INVALID_CONSTANT fr)"

definition case_req_http_H :: "'u frame \<Rightarrow> 'u flow" where
  "case_req_http_H fr = STRICT_CHECK (cur fr \<noteq> CHR ''T'') fr (Break (UPDATE_STATE s_req_http_HT fr))"

definition case_req_http_HT :: "'u frame \<Rightarrow> 'u flow" where
  "case_req_http_HT fr = STRICT_CHECK (cur fr \<noteq> CHR ''T'') fr (Break (UPDATE_STATE s_req_http_HTT fr))"

definition case_req_http_HTT :: "'u frame \<Rightarrow> 'u flow" where
  "case_req_http_HTT fr = STRICT_CHECK (cur fr \<noteq> CHR ''P'') fr (Break (UPDATE_STATE s_req_http_HTTP fr))"

definition case_req_http_HTTP :: "'u frame \<Rightarrow> 'u flow" where
  "case_req_http_HTTP fr =
     STRICT_CHECK (cur fr \<noteq> CHR ''/'') fr (Break (UPDATE_STATE s_req_first_http_major fr))"

definition case_req_first_http_major :: "'u frame \<Rightarrow> 'u flow" where
  "case_req_first_http_major fr =
     (if schar (cur fr) < schar CHR ''1'' \<or> schar CHR ''9'' < schar (cur fr)
      then fail HPE_INVALID_VERSION fr
      else Break (UPDATE_STATE s_req_http_major
        (with_parser (\<lambda>hp. hp\<lparr>http_major := digit_of (cur fr)\<rparr>) fr)))"

definition case_req_http_major :: "'u frame \<Rightarrow> 'u flow" where
  "case_req_http_major fr =
     (if cur fr = CHR ''.'' then Break (UPDATE_STATE s_req_first_http_minor fr)
      else if \<not> IS_NUM (cur fr) then fail HPE_INVALID_VERSION fr
      else let fr1 = with_parser (\<lambda>hp. hp\<lparr>http_major := http_major hp * 10 + digit_of (cur fr)\<rparr>) fr
        in if 999 < http_major (parser fr1) then fail HPE_INVALID_VERSION fr1 else Break fr1)"

definition case_req_first_http_minor :: "'u frame \<Rightarrow> 'u flow" where
  "case_req_first_http_minor fr =
     (if \<not> IS_NUM (cur fr) then fail HPE_INVALID_VERSION fr
      else Break (UPDATE_STATE s_req_http_minor
        (with_parser (\<lambda>hp. hp\<lparr>http_minor := digit_of (cur fr)\<rparr>) fr)))"

definition case_req_http_minor :: "'u frame \<Rightarrow> 'u flow" where
  "case_req_http_minor fr =
     (if cur fr = CR then Break (UPDATE_STATE s_req_line_almost_done fr)
      else if cur fr = LF then Break (UPDATE_STATE s_header_field_start fr)
      else if \<not> IS_NUM (cur fr) then fail HPE_INVALID_VERSION fr
      else let fr1 = with_parser (\<lambda>hp. hp\<lparr>http_minor := http_minor hp * 10 + digit_of (cur fr)\<rparr>) fr
        in if 999 < http_minor (parser fr1) then fail HPE_INVALID_VERSION fr1 else Break fr1)"

definition case_req_line_almost_done :: "'u frame \<Rightarrow> 'u flow" where
  "case_req_line_almost_done fr =
     (if cur fr \<noteq> LF then fail HPE_LF_EXPECTED fr else Break (UPDATE_STATE s_header_field_start fr))"


section \<open>Header field\<close>

definition case_header_field_start :: "'u frame \<Rightarrow> 'u flow" where
  "case_header_field_start fr =
     (if cur fr = CR then Break (UPDATE_STATE s_headers_almost_done fr)
      else if cur fr = LF then Reexecute (UPDATE_STATE s_headers_almost_done fr)
      else let c = TOKEN (cur fr) in
        if c = NUL then fail HPE_INVALID_HEADER_TOKEN fr
        else Break (with_parser (\<lambda>hp. hp\<lparr>index := 0, header_state :=
               (if c = CHR ''c'' then h_C
                else if c = CHR ''p'' then h_matching_proxy_connection
                else if c = CHR ''t'' then h_matching_transfer_encoding
                else if c = CHR ''u'' then h_matching_upgrade else h_general)\<rparr>)
             (UPDATE_STATE s_header_field (MARK FOR_header_field fr))))"

text \<open>
  \<open>parser->index++\<close>, then the comparison with a constant: a mismatch (or an index past the
  array) gives \<open>miss\<close>, the last character of the constant gives \<open>hit\<close>. With
  \<open>sizeof (str) = length str + 1\<close>.
\<close>

definition match_next :: "string \<Rightarrow> 'h \<Rightarrow> 'h \<Rightarrow> 'h \<Rightarrow> 7 word \<Rightarrow> char \<Rightarrow> 'h" where
  "match_next str miss hit same i c =
     (if length str < unat i \<or> c \<noteq> cstr_at str (unat i) then miss
      else if unat i = length str - 1 then hit else same)"

definition match_field :: "string \<Rightarrow> header_states \<Rightarrow> char \<Rightarrow> http_parser \<Rightarrow> http_parser" where
  "match_field str hit c hp =
     (let i = index hp + 1
      in hp\<lparr>index := i, header_state := match_next str h_general hit (header_state hp) i c\<rparr>)"

text \<open>
  One iteration of the loop of \<open>s_header_field\<close> on a token character: the raw character and its
  token. \<open>None\<close> is the failed assertion of the default case.
\<close>

definition header_field_step :: "char \<Rightarrow> http_parser \<Rightarrow> http_parser option" where
  "header_field_step ch hp =
     (let c = TOKEN ch; hp1 = hp\<lparr>index := index hp + 1\<rparr> in
      case header_state hp of
        h_general \<Rightarrow> Some hp
      | h_C \<Rightarrow> Some (hp1\<lparr>header_state := (if c = CHR ''o'' then h_CO else h_general)\<rparr>)
      | h_CO \<Rightarrow> Some (hp1\<lparr>header_state := (if c = CHR ''n'' then h_CON else h_general)\<rparr>)
      | h_CON \<Rightarrow> Some (hp1\<lparr>header_state :=
          (if c = CHR ''n'' then h_matching_connection
           else if c = CHR ''t'' then h_matching_content_length else h_general)\<rparr>)
      | h_matching_connection \<Rightarrow> Some (match_field ''connection'' h_connection c hp)
      | h_matching_proxy_connection \<Rightarrow> Some (match_field ''proxy-connection'' h_connection c hp)
      | h_matching_content_length \<Rightarrow> Some (match_field ''content-length'' h_content_length c hp)
      | h_matching_transfer_encoding \<Rightarrow>
          Some (match_field ''transfer-encoding'' h_transfer_encoding c hp)
      | h_matching_upgrade \<Rightarrow> Some (match_field ''upgrade'' h_upgrade c hp)
      | h_connection \<Rightarrow> Some (if ch \<noteq> CHR '' '' then hp\<lparr>header_state := h_general\<rparr> else hp)
      | h_content_length \<Rightarrow> Some (if ch \<noteq> CHR '' '' then hp\<lparr>header_state := h_general\<rparr> else hp)
      | h_transfer_encoding \<Rightarrow> Some (if ch \<noteq> CHR '' '' then hp\<lparr>header_state := h_general\<rparr> else hp)
      | h_upgrade \<Rightarrow> Some (if ch \<noteq> CHR '' '' then hp\<lparr>header_state := h_general\<rparr> else hp)
      | _ \<Rightarrow> None)"

text \<open>The loop over the rest of the buffer: parser, position and last character at its end.\<close>

fun header_field_loop ::
  "char list \<Rightarrow> nat \<Rightarrow> char \<Rightarrow> http_parser \<Rightarrow> (http_parser \<times> nat \<times> char) option" where
  "header_field_loop [] p ch hp = Some (hp, p, ch)"
| "header_field_loop (c # cs) p ch hp =
     (if TOKEN c = NUL then Some (hp, p, c)
      else (case header_field_step c hp of
              None \<Rightarrow> None
            | Some hp' \<Rightarrow> header_field_loop cs (p + 1) c hp'))"

definition case_header_field :: "'u http_parser_settings \<Rightarrow> char list \<Rightarrow> 'u frame \<Rightarrow> 'u flow" where
  "case_header_field S d fr =
     (case header_field_loop (drop (pos fr) d) (pos fr) (cur fr) (parser fr) of
        None \<Rightarrow> Abort
      | Some (hp, p, c) \<Rightarrow>
          COUNT_HEADER_SIZE (p - pos fr) (fr\<lparr>parser := hp, pos := p, cur := c\<rparr>)
            (\<lambda>fr1. if pos fr1 = length d then Break (fr1\<lparr>pos := pos fr1 - 1\<rparr>)
                   else if cur fr1 = CHR '':'' then
                     CALLBACK_DATA S d FOR_header_field (UPDATE_STATE s_header_value_discard_ws fr1) Break
                   else fail HPE_INVALID_HEADER_TOKEN fr1))"


section \<open>Header value\<close>

definition case_header_value_start :: "'u frame \<Rightarrow> 'u flow" where
  "case_header_value_start fr =
     (let fr1 = with_parser (\<lambda>hp. hp\<lparr>index := 0\<rparr>) (UPDATE_STATE s_header_value (MARK FOR_header_value fr));
          c = LOWER (cur fr1);
          set_h = (\<lambda>h. with_parser (\<lambda>hp. hp\<lparr>header_state := h\<rparr>))
      in case header_state (parser fr1) of
           h_upgrade \<Rightarrow> Break (set_h h_general (with_parser (set_flag F_UPGRADE) fr1))
         | h_transfer_encoding \<Rightarrow>
             Break (set_h (if CHR ''c'' = c then h_matching_transfer_encoding_chunked else h_general) fr1)
         | h_content_length \<Rightarrow>
             (if \<not> IS_NUM (cur fr1) then fail HPE_INVALID_CONTENT_LENGTH fr1
              else if has_flag (parser fr1) F_CONTENTLENGTH then fail HPE_UNEXPECTED_CONTENT_LENGTH fr1
              else Break (with_parser (\<lambda>hp. hp\<lparr>content_length := digit_of (cur fr1)\<rparr>)
                     (with_parser (set_flag F_CONTENTLENGTH) fr1)))
         | h_connection \<Rightarrow>
             Break (set_h (if c = CHR ''k'' then h_matching_connection_keep_alive
                           else if c = CHR ''c'' then h_matching_connection_close
                           else if c = CHR ''u'' then h_matching_connection_upgrade
                           else h_matching_connection_token) fr1)
         | h_matching_connection_token_start \<Rightarrow> Break fr1
         | _ \<Rightarrow> Break (set_h h_general fr1))"

definition case_header_value_discard_ws :: "'u frame \<Rightarrow> 'u flow" where
  "case_header_value_discard_ws fr =
     (if cur fr = CHR '' '' \<or> cur fr = CHR 0x09 then Break fr
      else if cur fr = CR then Break (UPDATE_STATE s_header_value_discard_ws_almost_done fr)
      else if cur fr = LF then Break (UPDATE_STATE s_header_value_discard_lws fr)
      else case_header_value_start fr)"

text \<open>The skip of a value no state is interested in: up to the next CR or LF.\<close>

definition value_end :: "char list \<Rightarrow> nat \<Rightarrow> nat" where
  "value_end d p =
     (let limit = min (length d - p) HTTP_MAX_HEADER_SIZE
      in case memchr d p CR limit of
           Some p_cr \<Rightarrow>
             (case memchr d p LF limit of
                Some p_lf \<Rightarrow> if p_lf \<le> p_cr then p_lf else p_cr
              | None \<Rightarrow> p_cr)
         | None \<Rightarrow> (case memchr d p LF limit of Some p_lf \<Rightarrow> p_lf | None \<Rightarrow> length d))"

definition skip_value :: "char list \<Rightarrow> nat \<Rightarrow> nat" where
  "skip_value d p = value_end d p - 1"

text \<open>
  The switch on \<open>h_state\<close> for one character of the value, with \<open>h\<close> the local copy of the header
  state: the new frame and header state, or the failure of \<open>goto error\<close> or of an assertion.
\<close>

datatype 'u value_step = Value_next "'u frame" header_states | Value_exit "'u flow"

definition match_value :: "string \<Rightarrow> header_states \<Rightarrow> header_states \<Rightarrow> header_states \<Rightarrow> char \<Rightarrow>
    'u frame \<Rightarrow> 'u value_step" where
  "match_value str miss hit h c fr =
     (let i = index (parser fr) + 1
      in Value_next (with_parser (\<lambda>hp. hp\<lparr>index := i\<rparr>) fr) (match_next str miss hit h i c))"

definition content_length_step :: "header_states \<Rightarrow> 'u frame \<Rightarrow> 'u value_step" where
  "content_length_step h fr =
     (if cur fr = CHR '' '' then Value_next fr h
      else let fr_h = with_parser (\<lambda>hp. hp\<lparr>header_state := h\<rparr>) fr in
        if \<not> IS_NUM (cur fr) then Value_exit (fail HPE_INVALID_CONTENT_LENGTH fr_h)
        else let t = content_length (parser fr) * 10 + digit_of (cur fr) in
          if (ULLONG_MAX - 10) div 10 < content_length (parser fr)
          then Value_exit (fail HPE_INVALID_CONTENT_LENGTH fr_h)
          else Value_next (with_parser (\<lambda>hp. hp\<lparr>content_length := t\<rparr>) fr) h)"

definition connection_token_end :: "header_states \<Rightarrow> u8 \<Rightarrow> 'u frame \<Rightarrow> 'u value_step" where
  "connection_token_end h F fr =
     (if cur fr = CHR '',''
      then Value_next (with_parser (\<lambda>hp. hp\<lparr>index := 0\<rparr>) (with_parser (set_flag F) fr))
             h_matching_connection_token_start
      else if cur fr \<noteq> CHR '' '' then Value_next fr h_matching_connection_token
      else Value_next fr h)"

definition header_value_switch :: "char list \<Rightarrow> header_states \<Rightarrow> 'u frame \<Rightarrow> 'u value_step" where
  "header_value_switch d h fr =
     (let c = LOWER (cur fr) in
      case h of
        h_general \<Rightarrow> Value_next (fr\<lparr>pos := skip_value d (pos fr)\<rparr>) h
      | h_connection \<Rightarrow> Value_exit Abort
      | h_transfer_encoding \<Rightarrow> Value_exit Abort
      | h_content_length \<Rightarrow> content_length_step h fr
      | h_matching_transfer_encoding_chunked \<Rightarrow>
          match_value ''chunked'' h_general h_transfer_encoding_chunked h c fr
      | h_matching_connection_token_start \<Rightarrow>
          Value_next fr
            (if c = CHR ''k'' then h_matching_connection_keep_alive
             else if c = CHR ''c'' then h_matching_connection_close
             else if c = CHR ''u'' then h_matching_connection_upgrade
             else if STRICT_TOKEN c \<noteq> NUL then h_matching_connection_token
             else if c = CHR '' '' \<or> c = CHR 0x09 then h
             else h_general)
      | h_matching_connection_keep_alive \<Rightarrow>
          match_value ''keep-alive'' h_matching_connection_token h_connection_keep_alive h c fr
      | h_matching_connection_close \<Rightarrow>
          match_value ''close'' h_matching_connection_token h_connection_close h c fr
      | h_matching_connection_upgrade \<Rightarrow>
          match_value ''upgrade'' h_matching_connection_token h_connection_upgrade h c fr
      | h_matching_connection_token \<Rightarrow>
          (if cur fr = CHR '',''
           then Value_next (with_parser (\<lambda>hp. hp\<lparr>index := 0\<rparr>) fr) h_matching_connection_token_start
           else Value_next fr h)
      | h_transfer_encoding_chunked \<Rightarrow>
          Value_next fr (if cur fr \<noteq> CHR '' '' then h_general else h)
      | h_connection_keep_alive \<Rightarrow> connection_token_end h F_CONNECTION_KEEP_ALIVE fr
      | h_connection_close \<Rightarrow> connection_token_end h F_CONNECTION_CLOSE fr
      | h_connection_upgrade \<Rightarrow> connection_token_end h F_CONNECTION_UPGRADE fr
      | _ \<Rightarrow> Value_next (UPDATE_STATE s_header_value fr) h_general)"

text \<open>After the loop: the header state is stored and the bytes are counted.\<close>

definition header_value_done :: "char list \<Rightarrow> nat \<Rightarrow> header_states \<Rightarrow> 'u frame \<Rightarrow> 'u flow" where
  "header_value_done d start h fr =
     COUNT_HEADER_SIZE (pos fr - start) (with_parser (\<lambda>hp. hp\<lparr>header_state := h\<rparr>) fr)
       (\<lambda>fr1. if pos fr1 = length d then Break (fr1\<lparr>pos := pos fr1 - 1\<rparr>) else Break fr1)"

text \<open>Every step of the switch stays at its position or skips forward, before the end.\<close>

lemma skip_value_bounds:
  assumes "p < length d" "d ! p \<noteq> CR" "d ! p \<noteq> LF"
  shows "p \<le> skip_value d p" "skip_value d p < length d"
proof -
  have "p < q \<and> q < length d" if "memchr d p c limit = Some q" "c = CR \<or> c = LF" for q c limit
    using memchr_Some [OF that(1)] that(2) assms by (metis le_neq_implies_less)
  then have "p < value_end d p \<and> value_end d p \<le> length d"
    using assms(1) unfolding value_end_def Let_def
    by (auto split: option.splits dest!: less_imp_le)
  then show "p \<le> skip_value d p" "skip_value d p < length d" by (auto simp: skip_value_def)
qed

lemmas value_step_defs = header_value_switch_def match_value_def content_length_step_def
  connection_token_end_def

lemma header_value_switch_pos:
  assumes "header_value_switch d h fr = Value_next fr1 h1"
  shows "pos fr1 = (if h = h_general then skip_value d (pos fr) else pos fr)"
  using assms
  by (cases h) (auto simp: value_step_defs with_parser_def UPDATE_STATE_def Let_def split: if_splits)

text \<open>
  The loop of \<open>s_header_value\<close>: \<open>start\<close> is the position at which the case was entered, \<open>h\<close> the
  local copy of the header state.
\<close>

function header_value_loop ::
  "'u http_parser_settings \<Rightarrow> char list \<Rightarrow> nat \<Rightarrow> header_states \<Rightarrow> 'u frame \<Rightarrow> 'u flow" where
  "header_value_loop S d start h fr =
     (if \<not> pos fr < length d then header_value_done d start h fr
      else let fr0 = fr\<lparr>cur := d ! pos fr\<rparr> in
        if cur fr0 = CR then
          CALLBACK_DATA S d FOR_header_value
            (with_parser (\<lambda>hp. hp\<lparr>header_state := h\<rparr>) (UPDATE_STATE s_header_almost_done fr0))
            (header_value_done d start h)
        else if cur fr0 = LF then
          COUNT_HEADER_SIZE (pos fr0 - start) (UPDATE_STATE s_header_almost_done fr0)
            (\<lambda>fr1. CALLBACK_DATA_NOADVANCE S d FOR_header_value
               (with_parser (\<lambda>hp. hp\<lparr>header_state := h\<rparr>) fr1) Reexecute)
        else if \<not> lenient fr0 \<and> \<not> IS_HEADER_CHAR (cur fr0) then fail HPE_INVALID_HEADER_TOKEN fr0
        else (case header_value_switch d h fr0 of
                Value_exit fl \<Rightarrow> fl
              | Value_next fr1 h1 \<Rightarrow> header_value_loop S d start h1 (fr1\<lparr>pos := pos fr1 + 1\<rparr>)))"
  by pat_completeness auto
termination
proof (relation "measure (\<lambda>(S, d, start, h, fr). length d - pos fr)", goal_cases)
  case (2 S d start h fr fr0 fr1 h1)
  then have "pos fr \<le> pos fr1"
    using skip_value_bounds [of "pos fr" d] by (auto dest!: header_value_switch_pos split: if_splits)
  with 2 show ?case by simp
qed simp

declare header_value_loop.simps [simp del]

definition case_header_value :: "'u http_parser_settings \<Rightarrow> char list \<Rightarrow> 'u frame \<Rightarrow> 'u flow" where
  "case_header_value S d fr =
     header_value_loop S d (pos fr) (header_state (parser fr)) fr"

definition case_header_almost_done :: "'u frame \<Rightarrow> 'u flow" where
  "case_header_almost_done fr =
     (if cur fr \<noteq> LF then fail HPE_LF_EXPECTED fr else Break (UPDATE_STATE s_header_value_lws fr))"

text \<open>The flag a finished header leaves: the switch shared by \<open>s_header_value_lws\<close> and
  \<open>s_header_value_discard_lws\<close>.\<close>

definition header_flag :: "http_parser \<Rightarrow> http_parser" where
  "header_flag hp =
     (case header_state hp of
        h_connection_keep_alive \<Rightarrow> set_flag F_CONNECTION_KEEP_ALIVE hp
      | h_connection_close \<Rightarrow> set_flag F_CONNECTION_CLOSE hp
      | h_transfer_encoding_chunked \<Rightarrow> set_flag F_CHUNKED hp
      | h_connection_upgrade \<Rightarrow> set_flag F_CONNECTION_UPGRADE hp
      | _ \<Rightarrow> hp)"

definition case_header_value_lws :: "'u frame \<Rightarrow> 'u flow" where
  "case_header_value_lws fr =
     (if cur fr = CHR '' '' \<or> cur fr = CHR 0x09
      then Reexecute (UPDATE_STATE s_header_value_start fr)
      else Reexecute (UPDATE_STATE s_header_field_start (with_parser header_flag fr)))"

definition case_header_value_discard_ws_almost_done :: "'u frame \<Rightarrow> 'u flow" where
  "case_header_value_discard_ws_almost_done fr =
     STRICT_CHECK (cur fr \<noteq> LF) fr (Break (UPDATE_STATE s_header_value_discard_lws fr))"

definition case_header_value_discard_lws ::
  "'u http_parser_settings \<Rightarrow> char list \<Rightarrow> 'u frame \<Rightarrow> 'u flow" where
  "case_header_value_discard_lws S d fr =
     (if cur fr = CHR '' '' \<or> cur fr = CHR 0x09
      then Break (UPDATE_STATE s_header_value_discard_ws fr)
      else CALLBACK_DATA_NOADVANCE S d FOR_header_value
             (UPDATE_STATE s_header_field_start (MARK FOR_header_value (with_parser header_flag fr)))
             Reexecute)"


section \<open>End of the headers\<close>

definition run_headers_complete ::
  "'u http_parser_settings \<Rightarrow> 'u frame \<Rightarrow> ('u frame \<Rightarrow> 'u flow) \<Rightarrow> 'u flow" where
  "run_headers_complete S fr k =
     (case on_headers_complete S of
        None \<Rightarrow> k fr
      | Some cb \<Rightarrow>
          (case cb (parser fr) (usr fr) of (r, hp, u) \<Rightarrow>
             let fr1 = fr\<lparr>parser := hp, usr := u\<rparr> in
             if r = 0 then k fr1
             else if r = 2 then
               k (with_parser (set_flag F_SKIPBODY) (with_parser (\<lambda>hp. hp\<lparr>upgrade := True\<rparr>) fr1))
             else if r = 1 then k (with_parser (set_flag F_SKIPBODY) fr1)
             else RETURN (pos fr) (SET_ERRNO HPE_CB_headers_complete fr1)))"

definition case_headers_almost_done :: "'u http_parser_settings \<Rightarrow> 'u frame \<Rightarrow> 'u flow" where
  "case_headers_almost_done S fr =
     STRICT_CHECK (cur fr \<noteq> LF) fr
      (if has_flag (parser fr) F_TRAILING
       then CALLBACK_NOTIFY_NOADVANCE S FOR_chunk_complete (UPDATE_STATE s_message_done fr) Reexecute
       else if has_flag (parser fr) F_CHUNKED \<and> has_flag (parser fr) F_CONTENTLENGTH
       then fail HPE_UNEXPECTED_CONTENT_LENGTH fr
       else
         let fr1 = with_parser (\<lambda>hp. hp\<lparr>upgrade :=
               (flags hp AND (F_UPGRADE OR F_CONNECTION_UPGRADE) = F_UPGRADE OR F_CONNECTION_UPGRADE
                \<or> method_of hp = HTTP_CONNECT)\<rparr>) (UPDATE_STATE s_headers_done fr)
         in run_headers_complete S fr1
              (\<lambda>fr2. if http_errno (parser fr2) \<noteq> HPE_OK then RETURN (pos fr2) fr2 else Reexecute fr2))"

definition has_body :: "http_parser \<Rightarrow> bool" where
  "has_body hp \<longleftrightarrow> has_flag hp F_CHUNKED \<or>
     (0 < content_length hp \<and> content_length hp \<noteq> ULLONG_MAX)"

definition case_headers_done :: "'u http_parser_settings \<Rightarrow> 'u frame \<Rightarrow> 'u flow" where
  "case_headers_done S fr =
     STRICT_CHECK (cur fr \<noteq> LF) fr
      (let fr1 = with_parser (\<lambda>hp. hp\<lparr>nread := 0\<rparr>) fr; hp = parser fr1;
           complete = (\<lambda>k. CALLBACK_NOTIFY S FOR_message_complete (UPDATE_STATE (NEW_MESSAGE hp) fr1) k)
       in if upgrade hp \<and> (method_of hp = HTTP_CONNECT \<or> has_flag hp F_SKIPBODY \<or> \<not> has_body hp)
          then complete (\<lambda>fr2. RETURN (pos fr2 + 1) fr2)
          else if has_flag hp F_SKIPBODY then complete Break
          else if has_flag hp F_CHUNKED then Break (UPDATE_STATE s_chunk_size_start fr1)
          else if content_length hp = 0 then complete Break
          else if content_length hp \<noteq> ULLONG_MAX then Break (UPDATE_STATE s_body_identity fr1)
          else if \<not> http_message_needs_eof hp then complete Break
          else Break (UPDATE_STATE s_body_identity_eof fr1))"


section \<open>Body\<close>

definition take_body :: "nat \<Rightarrow> 'u frame \<Rightarrow> 'u frame" where
  "take_body to_read fr =
     (let fr1 = with_parser (\<lambda>hp. hp\<lparr>content_length := content_length hp - of_nat to_read\<rparr>)
            (MARK FOR_body fr)
      in fr1\<lparr>pos := pos fr1 + to_read - 1\<rparr>)"

definition case_body_identity :: "'u http_parser_settings \<Rightarrow> char list \<Rightarrow> 'u frame \<Rightarrow> 'u flow" where
  "case_body_identity S d fr =
     (let to_read = min (unat (content_length (parser fr))) (length d - pos fr) in
      assert_then (content_length (parser fr) \<noteq> 0 \<and> content_length (parser fr) \<noteq> ULLONG_MAX)
       (let fr1 = take_body to_read fr in
        if content_length (parser fr1) = 0
        then CALLBACK_DATA_gen S d FOR_body (\<lambda>m. pos fr1 - m + 1) (pos fr1)
               (UPDATE_STATE s_message_done fr1) Reexecute
        else Break fr1))"

definition case_body_identity_eof :: "char list \<Rightarrow> 'u frame \<Rightarrow> 'u flow" where
  "case_body_identity_eof d fr = Break ((MARK FOR_body fr)\<lparr>pos := length d - 1\<rparr>)"

definition case_message_done :: "'u http_parser_settings \<Rightarrow> 'u frame \<Rightarrow> 'u flow" where
  "case_message_done S fr =
     CALLBACK_NOTIFY S FOR_message_complete (UPDATE_STATE (NEW_MESSAGE (parser fr)) fr)
       (\<lambda>fr1. if upgrade (parser fr1) then RETURN (pos fr1 + 1) fr1 else Break fr1)"

definition case_chunk_size_start :: "'u frame \<Rightarrow> 'u flow" where
  "case_chunk_size_start fr =
     assert_then (nread (parser fr) = 1)
      (assert_then (has_flag (parser fr) F_CHUNKED)
        (let unhex_val = unhex_at (cur fr) in
         if unhex_val = -1 then fail HPE_INVALID_CHUNK_SIZE fr
         else Break (UPDATE_STATE s_chunk_size
                (with_parser (\<lambda>hp. hp\<lparr>content_length := of_int unhex_val\<rparr>) fr))))"

definition case_chunk_size :: "'u frame \<Rightarrow> 'u flow" where
  "case_chunk_size fr =
     assert_then (has_flag (parser fr) F_CHUNKED)
      (if cur fr = CR then Break (UPDATE_STATE s_chunk_size_almost_done fr)
       else let unhex_val = unhex_at (cur fr) in
         if unhex_val = -1 then
           (if cur fr = CHR '';'' \<or> cur fr = CHR '' '' then Break (UPDATE_STATE s_chunk_parameters fr)
            else fail HPE_INVALID_CHUNK_SIZE fr)
         else let t = content_length (parser fr) * 16 + of_int unhex_val in
           if (ULLONG_MAX - 16) div 16 < content_length (parser fr)
           then fail HPE_INVALID_CONTENT_LENGTH fr
           else Break (with_parser (\<lambda>hp. hp\<lparr>content_length := t\<rparr>) fr))"

definition case_chunk_parameters :: "'u frame \<Rightarrow> 'u flow" where
  "case_chunk_parameters fr =
     assert_then (has_flag (parser fr) F_CHUNKED)
      (if cur fr = CR then Break (UPDATE_STATE s_chunk_size_almost_done fr) else Break fr)"

definition case_chunk_size_almost_done :: "'u http_parser_settings \<Rightarrow> 'u frame \<Rightarrow> 'u flow" where
  "case_chunk_size_almost_done S fr =
     assert_then (has_flag (parser fr) F_CHUNKED)
      (STRICT_CHECK (cur fr \<noteq> LF) fr
        (let fr1 = with_parser (\<lambda>hp. hp\<lparr>nread := 0\<rparr>) fr in
         CALLBACK_NOTIFY S FOR_chunk_header
           (if content_length (parser fr1) = 0
            then UPDATE_STATE s_header_field_start (with_parser (set_flag F_TRAILING) fr1)
            else UPDATE_STATE s_chunk_data fr1) Break))"

definition case_chunk_data :: "char list \<Rightarrow> 'u frame \<Rightarrow> 'u flow" where
  "case_chunk_data d fr =
     (let to_read = min (unat (content_length (parser fr))) (length d - pos fr) in
      assert_then (has_flag (parser fr) F_CHUNKED)
       (assert_then (content_length (parser fr) \<noteq> 0 \<and> content_length (parser fr) \<noteq> ULLONG_MAX)
         (let fr1 = take_body to_read fr in
          if content_length (parser fr1) = 0 then Break (UPDATE_STATE s_chunk_data_almost_done fr1)
          else Break fr1)))"

definition case_chunk_data_almost_done ::
  "'u http_parser_settings \<Rightarrow> char list \<Rightarrow> 'u frame \<Rightarrow> 'u flow" where
  "case_chunk_data_almost_done S d fr =
     assert_then (has_flag (parser fr) F_CHUNKED)
      (assert_then (content_length (parser fr) = 0)
        (STRICT_CHECK (cur fr \<noteq> CR) fr
          (CALLBACK_DATA S d FOR_body (UPDATE_STATE s_chunk_data_done fr) Break)))"

definition case_chunk_data_done :: "'u http_parser_settings \<Rightarrow> 'u frame \<Rightarrow> 'u flow" where
  "case_chunk_data_done S fr =
     assert_then (has_flag (parser fr) F_CHUNKED)
      (STRICT_CHECK (cur fr \<noteq> LF) fr
        (CALLBACK_NOTIFY S FOR_chunk_complete
          (UPDATE_STATE s_chunk_size_start (with_parser (\<lambda>hp. hp\<lparr>nread := 0\<rparr>) fr)) Break))"


section \<open>The switch and the loops\<close>

definition exec_switch :: "'u http_parser_settings \<Rightarrow> char list \<Rightarrow> 'u frame \<Rightarrow> 'u flow" where
  "exec_switch S d fr =
     (case p_state fr of
        s_dead \<Rightarrow> case_dead fr
      | s_start_req_or_res \<Rightarrow> case_start_req_or_res S fr
      | s_res_or_resp_H \<Rightarrow> case_res_or_resp_H fr
      | s_start_res \<Rightarrow> case_start_res S fr
      | s_res_H \<Rightarrow> case_res_H fr
      | s_res_HT \<Rightarrow> case_res_HT fr
      | s_res_HTT \<Rightarrow> case_res_HTT fr
      | s_res_HTTP \<Rightarrow> case_res_HTTP fr
      | s_res_first_http_major \<Rightarrow> case_res_first_http_major fr
      | s_res_http_major \<Rightarrow> case_res_http_major fr
      | s_res_first_http_minor \<Rightarrow> case_res_first_http_minor fr
      | s_res_http_minor \<Rightarrow> case_res_http_minor fr
      | s_res_first_status_code \<Rightarrow> case_res_first_status_code fr
      | s_res_status_code \<Rightarrow> case_res_status_code fr
      | s_res_status_start \<Rightarrow> case_res_status_start fr
      | s_res_status \<Rightarrow> case_res_status S d fr
      | s_res_line_almost_done \<Rightarrow> case_res_line_almost_done fr
      | s_start_req \<Rightarrow> case_start_req S fr
      | s_req_method \<Rightarrow> case_req_method fr
      | s_req_spaces_before_url \<Rightarrow> case_req_spaces_before_url fr
      | s_req_schema \<Rightarrow> case_req_schema fr
      | s_req_schema_slash \<Rightarrow> case_req_schema fr
      | s_req_schema_slash_slash \<Rightarrow> case_req_schema fr
      | s_req_server_start \<Rightarrow> case_req_schema fr
      | s_req_server \<Rightarrow> case_req_url S d fr
      | s_req_server_with_at \<Rightarrow> case_req_url S d fr
      | s_req_path \<Rightarrow> case_req_url S d fr
      | s_req_query_string_start \<Rightarrow> case_req_url S d fr
      | s_req_query_string \<Rightarrow> case_req_url S d fr
      | s_req_fragment_start \<Rightarrow> case_req_url S d fr
      | s_req_fragment \<Rightarrow> case_req_url S d fr
      | s_req_http_start \<Rightarrow> case_req_http_start fr
      | s_req_http_H \<Rightarrow> case_req_http_H fr
      | s_req_http_HT \<Rightarrow> case_req_http_HT fr
      | s_req_http_HTT \<Rightarrow> case_req_http_HTT fr
      | s_req_http_HTTP \<Rightarrow> case_req_http_HTTP fr
      | s_req_first_http_major \<Rightarrow> case_req_first_http_major fr
      | s_req_http_major \<Rightarrow> case_req_http_major fr
      | s_req_first_http_minor \<Rightarrow> case_req_first_http_minor fr
      | s_req_http_minor \<Rightarrow> case_req_http_minor fr
      | s_req_line_almost_done \<Rightarrow> case_req_line_almost_done fr
      | s_header_field_start \<Rightarrow> case_header_field_start fr
      | s_header_field \<Rightarrow> case_header_field S d fr
      | s_header_value_discard_ws \<Rightarrow> case_header_value_discard_ws fr
      | s_header_value_discard_ws_almost_done \<Rightarrow> case_header_value_discard_ws_almost_done fr
      | s_header_value_discard_lws \<Rightarrow> case_header_value_discard_lws S d fr
      | s_header_value_start \<Rightarrow> case_header_value_start fr
      | s_header_value \<Rightarrow> case_header_value S d fr
      | s_header_value_lws \<Rightarrow> case_header_value_lws fr
      | s_header_almost_done \<Rightarrow> case_header_almost_done fr
      | s_chunk_size_start \<Rightarrow> case_chunk_size_start fr
      | s_chunk_size \<Rightarrow> case_chunk_size fr
      | s_chunk_parameters \<Rightarrow> case_chunk_parameters fr
      | s_chunk_size_almost_done \<Rightarrow> case_chunk_size_almost_done S fr
      | s_headers_almost_done \<Rightarrow> case_headers_almost_done S fr
      | s_headers_done \<Rightarrow> case_headers_done S fr
      | s_chunk_data \<Rightarrow> case_chunk_data d fr
      | s_chunk_data_almost_done \<Rightarrow> case_chunk_data_almost_done S d fr
      | s_chunk_data_done \<Rightarrow> case_chunk_data_done S fr
      | s_body_identity \<Rightarrow> case_body_identity S d fr
      | s_body_identity_eof \<Rightarrow> case_body_identity_eof d fr
      | s_message_done \<Rightarrow> case_message_done S fr)"

text \<open>\<open>reexecute:\<close> runs the switch again on the same character until it leaves it otherwise.\<close>

partial_function (option) exec_reexec ::
  "'u http_parser_settings \<Rightarrow> char list \<Rightarrow> 'u frame \<Rightarrow> 'u flow option" where
  "exec_reexec S d fr =
     (case exec_switch S d fr of
        Reexecute fr' \<Rightarrow> exec_reexec S d fr'
      | Break fr' \<Rightarrow> Some (Break fr')
      | GotoError fr' \<Rightarrow> Some (GotoError fr')
      | Return n fr' \<Rightarrow> Some (Return n fr')
      | Abort \<Rightarrow> Some Abort)"

text \<open>The callbacks for leftover marks after the last byte, and \<open>RETURN (len)\<close>.\<close>

definition marks_set :: "'u frame \<Rightarrow> nat" where
  "marks_set fr = length (filter (\<lambda>m. m \<noteq> None)
     [header_field_mark fr, header_value_mark fr, url_mark fr, body_mark fr, status_mark fr])"

definition exec_tail :: "'u http_parser_settings \<Rightarrow> char list \<Rightarrow> 'u frame \<Rightarrow> 'u flow" where
  "exec_tail S d fr =
     assert_then (marks_set fr \<le> 1)
      (CALLBACK_DATA_NOADVANCE S d FOR_header_field fr (\<lambda>fr.
       CALLBACK_DATA_NOADVANCE S d FOR_header_value fr (\<lambda>fr.
       CALLBACK_DATA_NOADVANCE S d FOR_url fr (\<lambda>fr.
       CALLBACK_DATA_NOADVANCE S d FOR_body fr (\<lambda>fr.
       CALLBACK_DATA_NOADVANCE S d FOR_status fr (\<lambda>fr.
       RETURN (length d) fr))))))"

text \<open>The result of the function: the bytes parsed, the parser and the user state.\<close>

datatype 'u outcome = Returned nat http_parser 'u | Aborted

text \<open>How a flow ends the function; \<open>GotoError\<close> runs the code at the label \<open>error\<close>.\<close>

fun finish :: "'u flow \<Rightarrow> 'u outcome" where
  "finish (GotoError fr) =
     (let fr1 = (if http_errno (parser fr) = HPE_OK then SET_ERRNO HPE_UNKNOWN fr else fr)
      in Returned (pos fr1) ((parser fr1)\<lparr>state := p_state fr1\<rparr>) (usr fr1))"
| "finish (Return n fr) = Returned n (parser fr) (usr fr)"
| "finish (Break fr) = Returned (pos fr) (parser fr) (usr fr)"
| "finish (Reexecute fr) = Returned (pos fr) (parser fr) (usr fr)"
| "finish Abort = Aborted"

definition count_byte :: "'u frame \<Rightarrow> 'u flow" where
  "count_byte fr = (if PARSING_HEADER (p_state fr) then COUNT_HEADER_SIZE 1 fr Break else Break fr)"

partial_function (option) exec_loop ::
  "'u http_parser_settings \<Rightarrow> char list \<Rightarrow> 'u frame \<Rightarrow> 'u outcome option" where
  "exec_loop S d fr =
     (if pos fr = length d then Some (finish (exec_tail S d fr))
      else (case count_byte (fr\<lparr>cur := d ! pos fr\<rparr>) of
              Break fr1 \<Rightarrow>
                Option.bind (exec_reexec S d fr1)
                  (\<lambda>fl. case fl of
                     Break fr2 \<Rightarrow> exec_loop S d (fr2\<lparr>pos := pos fr2 + 1\<rparr>)
                   | Reexecute fr2 \<Rightarrow> Some (finish fl)
                   | GotoError fr2 \<Rightarrow> Some (finish fl)
                   | Return n fr2 \<Rightarrow> Some (finish fl)
                   | Abort \<Rightarrow> Some (finish fl))
            | Reexecute fr1 \<Rightarrow> Some (finish (Reexecute fr1))
            | GotoError fr1 \<Rightarrow> Some (finish (GotoError fr1))
            | Return n fr1 \<Rightarrow> Some (finish (Return n fr1))
            | Abort \<Rightarrow> Some Aborted))"

declare exec_reexec.simps [code] exec_loop.simps [code]

text \<open>The marks that a state carries over from the previous buffer.\<close>

definition url_state :: "pstate \<Rightarrow> bool" where
  "url_state s \<longleftrightarrow> s \<in> {s_req_path, s_req_schema, s_req_schema_slash, s_req_schema_slash_slash,
     s_req_server_start, s_req_server, s_req_server_with_at, s_req_query_string_start,
     s_req_query_string, s_req_fragment_start, s_req_fragment}"

definition init_frame :: "http_parser \<Rightarrow> 'u \<Rightarrow> 'u frame" where
  "init_frame hp u =
     \<lparr>parser = hp, p_state = state hp, pos = 0, cur = NUL,
      header_field_mark = (if state hp = s_header_field then Some 0 else None),
      header_value_mark = (if state hp = s_header_value then Some 0 else None),
      url_mark = (if url_state (state hp) then Some 0 else None),
      body_mark = None,
      status_mark = (if state hp = s_res_status then Some 0 else None),
      lenient = lenient_http_headers hp, usr = u\<rparr>"

definition exec_eof :: "'u http_parser_settings \<Rightarrow> http_parser \<Rightarrow> 'u \<Rightarrow> 'u outcome" where
  "exec_eof S hp u =
     (if state hp = s_body_identity_eof
      then finish (CALLBACK_NOTIFY_NOADVANCE S FOR_message_complete (init_frame hp u) (Return 0))
      else if state hp = s_dead \<or> state hp = s_start_req_or_res \<or> state hp = s_start_res \<or>
              state hp = s_start_req
      then Returned 0 hp u
      else Returned 1 (hp\<lparr>http_errno := HPE_INVALID_EOF_STATE\<rparr>) u)"

definition http_parser_execute ::
  "'u http_parser_settings \<Rightarrow> http_parser \<Rightarrow> 'u \<Rightarrow> char list \<Rightarrow> 'u outcome option" where
  "http_parser_execute S hp u d =
     (if http_errno hp \<noteq> HPE_OK then Some (Returned 0 hp u)
      else if length d = 0 then Some (exec_eof S hp u)
      else exec_loop S d (init_frame hp u))"

end
