(* ===== verification/Http_Safety.thy ===== *)
theory Http_Safety
  imports Http_Execute
begin

text \<open>
  Safety of \<open>http_parser_execute\<close> for well-behaved callbacks. The callback interface is the
  locale \<open>http_buffer_callbacks\<close> of one call on a buffer \<open>d\<close>: a callback may change the user state (keeping an invariant of it) and
  may pause the parser, nothing else, and may rely on the slice of the buffer it is given being
  in bounds. Under it one pass of the switch keeps the invariant of the parser, never fails an
  assertion, never moves the position out of the buffer, and \<open>reexecute\<close> decreases a rank; so
  the function returns.
\<close>

section \<open>Flows\<close>

primrec flow_sat ::
  "('u frame \<Rightarrow> bool) \<Rightarrow> ('u frame \<Rightarrow> bool) \<Rightarrow> ('u frame \<Rightarrow> bool) \<Rightarrow> (nat \<Rightarrow> 'u frame \<Rightarrow> bool) \<Rightarrow>
   'u flow \<Rightarrow> bool" where
  "flow_sat B R E T (Break fr) = B fr"
| "flow_sat B R E T (Reexecute fr) = R fr"
| "flow_sat B R E T (GotoError fr) = E fr"
| "flow_sat B R E T (Return n fr) = T n fr"
| "flow_sat B R E T Abort = False"

lemma flow_sat_mono:
  assumes "flow_sat B R E T fl"
    and "\<And>fr. B fr \<Longrightarrow> B' fr" "\<And>fr. R fr \<Longrightarrow> R' fr" "\<And>fr. E fr \<Longrightarrow> E' fr"
    and "\<And>n fr. T n fr \<Longrightarrow> T' n fr"
  shows "flow_sat B' R' E' T' fl"
  using assms by (cases fl) auto

lemma flow_sat_fail [simp]: "flow_sat B R E T (fail e fr) = E (SET_ERRNO e fr)"
  by (simp add: fail_def)

lemma flow_sat_RETURN [simp]:
  "flow_sat B R E T (RETURN n fr) = T n (with_parser (\<lambda>hp. hp\<lparr>state := p_state fr\<rparr>) fr)"
  by (simp add: RETURN_def)

lemma flow_sat_assert [simp]: "flow_sat B R E T (assert_then b k) \<longleftrightarrow> b \<and> flow_sat B R E T k"
  by (simp add: assert_then_def)

lemma flow_sat_STRICT_CHECK [simp]:
  "flow_sat B R E T (STRICT_CHECK c fr k) \<longleftrightarrow>
     (if c then E (SET_ERRNO HPE_STRICT fr) else flow_sat B R E T k)"
  by (simp add: STRICT_CHECK_def)

lemma flow_sat_if [simp]:
  "flow_sat B R E T (if c then k1 else k2) \<longleftrightarrow>
     (if c then flow_sat B R E T k1 else flow_sat B R E T k2)"
  by simp

definition add_nread :: "nat \<Rightarrow> http_parser \<Rightarrow> http_parser" where
  "add_nread v hp = hp\<lparr>nread := nread hp + of_nat v\<rparr>"

lemma flow_sat_COUNT [simp]:
  "flow_sat B R E T (COUNT_HEADER_SIZE v fr k) \<longleftrightarrow>
     (if HTTP_MAX_HEADER_SIZE < unat (nread (parser fr) + of_nat v)
      then E (SET_ERRNO HPE_HEADER_OVERFLOW (with_parser (add_nread v) fr))
      else flow_sat B R E T (k (with_parser (add_nread v) fr)))"
  by (simp add: COUNT_HEADER_SIZE_def Let_def with_parser_def add_nread_def)


section \<open>Invariant of the parser\<close>

text \<open>The length of the constant a header state is being matched with.\<close>

definition match_length :: "header_states \<Rightarrow> nat" where
  "match_length h =
     (case h of
        h_matching_connection \<Rightarrow> 10 | h_matching_proxy_connection \<Rightarrow> 16
      | h_matching_content_length \<Rightarrow> 14 | h_matching_transfer_encoding \<Rightarrow> 17
      | h_matching_upgrade \<Rightarrow> 7 | h_matching_transfer_encoding_chunked \<Rightarrow> 7
      | h_matching_connection_keep_alive \<Rightarrow> 10 | h_matching_connection_close \<Rightarrow> 5
      | h_matching_connection_upgrade \<Rightarrow> 7
      | _ \<Rightarrow> 18)"

text \<open>The index stays below the last character of the constant while it is being matched.\<close>

definition index_inv :: "header_states \<Rightarrow> 7 word \<Rightarrow> bool" where
  "index_inv h i \<longleftrightarrow>
     (case h of
        h_C \<Rightarrow> i = 0 | h_CO \<Rightarrow> i = 1 | h_CON \<Rightarrow> i = 2
      | h_matching_connection_token_start \<Rightarrow> i = 0
      | _ \<Rightarrow> unat i + 2 \<le> match_length h)"

definition field_header_state :: "header_states \<Rightarrow> bool" where
  "field_header_state h \<longleftrightarrow> h \<in> {h_general, h_C, h_CO, h_CON, h_matching_connection,
     h_matching_proxy_connection, h_matching_content_length, h_matching_transfer_encoding,
     h_matching_upgrade, h_connection, h_content_length, h_transfer_encoding, h_upgrade}"

definition value_header_state :: "header_states \<Rightarrow> bool" where
  "value_header_state h \<longleftrightarrow> h \<in> {h_general, h_content_length,
     h_matching_transfer_encoding_chunked, h_matching_connection_token_start,
     h_matching_connection_keep_alive, h_matching_connection_close, h_matching_connection_upgrade,
     h_matching_connection_token, h_transfer_encoding_chunked, h_connection_keep_alive,
     h_connection_close, h_connection_upgrade}"

text \<open>What holds in every state of a parser without an error.\<close>

definition base_inv :: "http_parser \<Rightarrow> bool" where
  "base_inv hp \<longleftrightarrow> http_major hp \<le> 999 \<and> http_minor hp \<le> 999 \<and> status_code hp \<le> 999 \<and>
     unat (nread hp) \<le> HTTP_MAX_HEADER_SIZE \<and> unat (index hp) \<le> 17"

text \<open>
  What a state adds: the facts the assertions of the code and its array reads rely on. In
  \<open>s_chunk_size_start\<close> the counter is \<open>n\<close>: 0 between bytes, 1 once the byte is counted.
\<close>

definition state_inv :: "u32 \<Rightarrow> pstate \<Rightarrow> http_parser \<Rightarrow> bool" where
  "state_inv n s hp \<longleftrightarrow>
     (case s of
        s_req_method \<Rightarrow> 0 < index hp \<and>
          unat (index hp) \<le> length (method_strings ! method_num (method_of hp))
      | s_header_field \<Rightarrow> field_header_state (header_state hp) \<and> index_inv (header_state hp) (index hp)
      | s_header_value \<Rightarrow> value_header_state (header_state hp) \<and> index_inv (header_state hp) (index hp)
      | s_chunk_size_start \<Rightarrow> has_flag hp F_CHUNKED \<and> nread hp = n
      | s_chunk_size \<Rightarrow> has_flag hp F_CHUNKED \<and> content_length hp \<noteq> ULLONG_MAX
      | s_chunk_parameters \<Rightarrow> has_flag hp F_CHUNKED \<and> content_length hp \<noteq> ULLONG_MAX
      | s_chunk_size_almost_done \<Rightarrow> has_flag hp F_CHUNKED \<and> content_length hp \<noteq> ULLONG_MAX
      | s_chunk_data \<Rightarrow> has_flag hp F_CHUNKED \<and> content_length hp \<noteq> 0 \<and>
          content_length hp \<noteq> ULLONG_MAX
      | s_chunk_data_almost_done \<Rightarrow> has_flag hp F_CHUNKED \<and> content_length hp = 0
      | s_chunk_data_done \<Rightarrow> has_flag hp F_CHUNKED
      | s_body_identity \<Rightarrow> content_length hp \<noteq> 0 \<and> content_length hp \<noteq> ULLONG_MAX
      | _ \<Rightarrow> True)"

definition core_inv :: "u32 \<Rightarrow> pstate \<Rightarrow> http_parser \<Rightarrow> bool" where
  "core_inv n s hp \<longleftrightarrow> base_inv hp \<and> state_inv n s hp"

text \<open>A parser between calls: an error is final, so only a running or paused parser counts.\<close>

definition parser_inv :: "http_parser \<Rightarrow> bool" where
  "parser_inv hp \<longleftrightarrow> (http_errno hp = HPE_OK \<or> http_errno hp = HPE_PAUSED \<longrightarrow> core_inv 0 (state hp) hp)"

text \<open>The marks agree with the state, and lie before the position.\<close>

definition mark_le :: "nat option \<Rightarrow> nat \<Rightarrow> bool" where
  "mark_le m p \<longleftrightarrow> (case m of None \<Rightarrow> True | Some i \<Rightarrow> i \<le> p)"

lemma mark_le_simps [simp]: "mark_le None p" "mark_le (Some i) p \<longleftrightarrow> i \<le> p"
  by (simp_all add: mark_le_def)

lemma mark_le_trans [elim]: "mark_le m p \<Longrightarrow> p \<le> q \<Longrightarrow> mark_le m q"
  by (auto simp: mark_le_def split: option.splits)

definition body_state :: "pstate \<Rightarrow> bool" where
  "body_state s \<longleftrightarrow> s \<in> {s_chunk_data, s_chunk_data_almost_done, s_body_identity, s_body_identity_eof}"

definition marks_inv :: "'u frame \<Rightarrow> bool" where
  "marks_inv fr \<longleftrightarrow>
     (header_field_mark fr \<noteq> None \<longleftrightarrow> p_state fr = s_header_field) \<and>
     (header_value_mark fr \<noteq> None \<longleftrightarrow> p_state fr = s_header_value) \<and>
     (url_mark fr \<noteq> None \<longleftrightarrow> url_state (p_state fr)) \<and>
     (status_mark fr \<noteq> None \<longleftrightarrow> p_state fr = s_res_status) \<and>
     (body_mark fr \<noteq> None \<longrightarrow> body_state (p_state fr)) \<and>
     mark_le (header_field_mark fr) (pos fr) \<and> mark_le (header_value_mark fr) (pos fr) \<and>
     mark_le (url_mark fr) (pos fr) \<and> mark_le (status_mark fr) (pos fr) \<and>
     mark_le (body_mark fr) (pos fr)"

definition frame_inv :: "u32 \<Rightarrow> char list \<Rightarrow> 'u frame \<Rightarrow> bool" where
  "frame_inv n d fr \<longleftrightarrow> http_errno (parser fr) = HPE_OK \<and> core_inv n (p_state fr) (parser fr) \<and>
     marks_inv fr \<and> pos fr < length d"

text \<open>How often the switch can still be re-executed on the current byte.\<close>

definition reexec_rank :: "pstate \<Rightarrow> nat" where
  "reexec_rank s =
     (if s \<in> {s_header_value_lws, s_header_value_discard_lws} then 4
      else if s = s_header_field_start then 3
      else if s \<in> {s_headers_almost_done, s_body_identity, s_header_value, s_start_req_or_res} then 2
      else 1)"

text \<open>The four ways one pass may end.\<close>

definition pass_err :: "char list \<Rightarrow> 'u frame \<Rightarrow> bool" where
  "pass_err d fr \<longleftrightarrow> http_errno (parser fr) \<noteq> HPE_OK \<and> http_errno (parser fr) \<noteq> HPE_PAUSED \<and>
     pos fr \<le> length d"

definition pass_ret :: "char list \<Rightarrow> nat \<Rightarrow> 'u frame \<Rightarrow> bool" where
  "pass_ret d n fr \<longleftrightarrow> n \<le> length d \<and> parser_inv (parser fr) \<and>
     (http_errno (parser fr) = HPE_OK \<longrightarrow> upgrade (parser fr) \<or> n = length d)"


section \<open>Bits, digits, methods\<close>

lemma has_flag_bit:
  "has_flag hp F_CHUNKED = bit (flags hp) 0"
  "has_flag hp F_CONNECTION_KEEP_ALIVE = bit (flags hp) 1"
  "has_flag hp F_CONNECTION_CLOSE = bit (flags hp) 2"
  "has_flag hp F_CONNECTION_UPGRADE = bit (flags hp) 3"
  "has_flag hp F_TRAILING = bit (flags hp) 4"
  "has_flag hp F_UPGRADE = bit (flags hp) 5"
  "has_flag hp F_SKIPBODY = bit (flags hp) 6"
  "has_flag hp F_CONTENTLENGTH = bit (flags hp) 7"
  unfolding has_flag_def flag_defs by (subst and_power_nonzero; simp)+

lemma bit_push_one: "k < 8 \<Longrightarrow> bit (push_bit k (1::u8)) n \<longleftrightarrow> n = k"
  by (auto simp: bit_exp_iff)

lemma bit_flag:
  "bit F_CHUNKED n \<longleftrightarrow> n = 0" "bit F_CONNECTION_KEEP_ALIVE n \<longleftrightarrow> n = 1"
  "bit F_CONNECTION_CLOSE n \<longleftrightarrow> n = 2" "bit F_CONNECTION_UPGRADE n \<longleftrightarrow> n = 3"
  "bit F_TRAILING n \<longleftrightarrow> n = 4" "bit F_UPGRADE n \<longleftrightarrow> n = 5" "bit F_SKIPBODY n \<longleftrightarrow> n = 6"
  "bit F_CONTENTLENGTH n \<longleftrightarrow> n = 7"
  unfolding flag_defs by (subst bit_push_one; simp)+

lemma set_flag_bit [simp]: "bit (flags (set_flag F hp)) n \<longleftrightarrow> bit (flags hp) n \<or> bit F n"
  by (simp add: set_flag_def bit_simps)

lemma has_flag_set_flag [simp]: "has_flag (set_flag F_TRAILING hp) F_CHUNKED = has_flag hp F_CHUNKED"
  "has_flag (set_flag F_SKIPBODY hp) F_CHUNKED = has_flag hp F_CHUNKED"
  by (simp_all add: has_flag_bit bit_flag)

lemma set_flag_fields [simp]:
  "ptype (set_flag F hp) = ptype hp" "state (set_flag F hp) = state hp"
  "header_state (set_flag F hp) = header_state hp" "index (set_flag F hp) = index hp"
  "nread (set_flag F hp) = nread hp" "content_length (set_flag F hp) = content_length hp"
  "http_major (set_flag F hp) = http_major hp" "http_minor (set_flag F hp) = http_minor hp"
  "status_code (set_flag F hp) = status_code hp" "method_of (set_flag F hp) = method_of hp"
  "http_errno (set_flag F hp) = http_errno hp" "upgrade (set_flag F hp) = upgrade hp"
  "lenient_http_headers (set_flag F hp) = lenient_http_headers hp"
  by (simp_all add: set_flag_def)

lemma add_nread_fields [simp]:
  "ptype (add_nread v hp) = ptype hp" "state (add_nread v hp) = state hp"
  "header_state (add_nread v hp) = header_state hp" "index (add_nread v hp) = index hp"
  "nread (add_nread v hp) = nread hp + of_nat v" "content_length (add_nread v hp) = content_length hp"
  "http_major (add_nread v hp) = http_major hp" "http_minor (add_nread v hp) = http_minor hp"
  "status_code (add_nread v hp) = status_code hp" "method_of (add_nread v hp) = method_of hp"
  "http_errno (add_nread v hp) = http_errno hp" "upgrade (add_nread v hp) = upgrade hp"
  "flags (add_nread v hp) = flags hp" "lenient_http_headers (add_nread v hp) = lenient_http_headers hp"
  by (simp_all add: add_nread_def)

lemma digit_of_num:
  assumes "IS_NUM c" "(10::nat) \<le> 2 ^ LENGTH('a)"
  shows "unat (digit_of c :: 'a::len word) = uchar c - 48" "uchar c - 48 < 10"
proof -
  from assms(1) have b: "48 \<le> uchar c" "uchar c \<le> 57" by (simp_all add: IS_NUM_iff)
  have "schar c - schar CHR ''0'' = int (uchar c - 48)"
    using b by (simp add: schar_def uchar_def)
  then have "digit_of c = (of_nat (uchar c - 48) :: 'a word)"
    unfolding digit_of_def by simp
  moreover have "uchar c - 48 < 2 ^ LENGTH('a)" using b assms(2) by simp
  ultimately show "unat (digit_of c :: 'a word) = uchar c - 48"
    by (simp add: unat_of_nat)
  show "uchar c - 48 < 10" using b by simp
qed

lemma NEW_MESSAGE_cases: "NEW_MESSAGE hp = s_dead \<or> NEW_MESSAGE hp = s_start_req \<or> NEW_MESSAGE hp = s_start_res"
  by (simp add: NEW_MESSAGE_def start_state_def)

lemma state_inv_NEW_MESSAGE [simp]: "state_inv n (NEW_MESSAGE hp) hp'"
  using NEW_MESSAGE_cases [of hp] by (auto simp: state_inv_def)

lemma NEW_MESSAGE_not [simp]:
  "NEW_MESSAGE hp \<noteq> s_header_field" "NEW_MESSAGE hp \<noteq> s_header_value" "NEW_MESSAGE hp \<noteq> s_res_status"
  "\<not> url_state (NEW_MESSAGE hp)" "reexec_rank (NEW_MESSAGE hp) = 1"
  using NEW_MESSAGE_cases [of hp] by (auto simp: url_state_def reexec_rank_def)

definition dead_or_url :: "pstate \<Rightarrow> bool" where
  "dead_or_url s \<longleftrightarrow> s = s_dead \<or> url_state s"

lemma dead_or_url_if:
  "(c \<Longrightarrow> dead_or_url s) \<Longrightarrow> (\<not> c \<Longrightarrow> dead_or_url t) \<Longrightarrow> dead_or_url (if c then s else t)"
  by simp

lemma dead_or_url_parse: "dead_or_url (parse_url_char s c)"
  unfolding parse_url_char_def
  by (intro dead_or_url_if) (simp_all add: dead_or_url_def url_state_def)

lemma parse_url_char_state:
  "parse_url_char s c \<noteq> s_dead \<Longrightarrow> url_state (parse_url_char s c)"
  using dead_or_url_parse [of s c] by (simp add: dead_or_url_def)

lemma state_inv_url: "url_state s \<Longrightarrow> state_inv n s hp"
  by (auto simp: url_state_def state_inv_def)


section \<open>What callbacks may change\<close>

definition adj :: "'u frame \<Rightarrow> pstate \<Rightarrow> 'u \<Rightarrow> 'u frame" where
  "adj fr s u = fr\<lparr>parser := (parser fr)\<lparr>state := s\<rparr>, usr := u\<rparr>"

lemma adj_fields [simp]:
  "parser (adj fr s u) = (parser fr)\<lparr>state := s\<rparr>" "p_state (adj fr s u) = p_state fr"
  "pos (adj fr s u) = pos fr" "cur (adj fr s u) = cur fr" "usr (adj fr s u) = u"
  "header_field_mark (adj fr s u) = header_field_mark fr"
  "header_value_mark (adj fr s u) = header_value_mark fr"
  "url_mark (adj fr s u) = url_mark fr" "body_mark (adj fr s u) = body_mark fr"
  "status_mark (adj fr s u) = status_mark fr" "lenient (adj fr s u) = lenient fr"
  by (simp_all add: adj_def)

lemma adj_id: "adj fr (state (parser fr)) (usr fr) = fr"
  by (simp add: adj_def)

lemma core_inv_state [simp]: "core_inv n s (hp\<lparr>state := t\<rparr>) = core_inv n s hp"
  by (simp add: core_inv_def base_inv_def state_inv_def has_flag_def cong: pstate.case_cong)

lemma core_inv_errno [simp]: "core_inv n s (hp\<lparr>http_errno := e\<rparr>) = core_inv n s hp"
  by (simp add: core_inv_def base_inv_def state_inv_def has_flag_def cong: pstate.case_cong)

lemma marks_inv_adj [simp]: "marks_inv (adj fr s u) = marks_inv fr"
  by (simp add: marks_inv_def)

lemma frame_inv_adj [simp]: "frame_inv n d (adj fr s u) = frame_inv n d fr"
  by (simp add: frame_inv_def)

lemma set_mark_None: "mark_of k fr = None \<Longrightarrow> set_mark k None fr = fr"
  by (cases k) simp_all

text \<open>One pass of the switch, started at rank \<open>r\<close>, with the invariant \<open>I\<close> of the user state.\<close>

definition pass_ok :: "('u \<Rightarrow> bool) \<Rightarrow> char list \<Rightarrow> nat \<Rightarrow> 'u flow \<Rightarrow> bool" where
  "pass_ok I d r fl \<longleftrightarrow>
     flow_sat (\<lambda>fr. frame_inv 0 d fr \<and> I (usr fr))
       (\<lambda>fr. frame_inv 1 d fr \<and> I (usr fr) \<and> reexec_rank (p_state fr) < r)
       (\<lambda>fr. pass_err d fr \<and> I (usr fr)) (\<lambda>n fr. pass_ret d n fr \<and> I (usr fr)) fl"

lemma pass_ok_simps [simp]:
  "pass_ok I d r (Break fr) \<longleftrightarrow> frame_inv 0 d fr \<and> I (usr fr)"
  "pass_ok I d r (Reexecute fr) \<longleftrightarrow> frame_inv 1 d fr \<and> I (usr fr) \<and> reexec_rank (p_state fr) < r"
  "pass_ok I d r (GotoError fr) \<longleftrightarrow> pass_err d fr \<and> I (usr fr)"
  "pass_ok I d r (Return n fr) \<longleftrightarrow> pass_ret d n fr \<and> I (usr fr)"
  "\<not> pass_ok I d r Abort"
  "pass_ok I d r (assert_then b fl) \<longleftrightarrow> b \<and> pass_ok I d r fl"
  "pass_ok I d r (STRICT_CHECK c fr fl) \<longleftrightarrow>
     (if c then pass_err d (SET_ERRNO HPE_STRICT fr) \<and> I (usr fr) else pass_ok I d r fl)"
  "pass_ok I d r (RETURN n fr) \<longleftrightarrow>
     pass_ret d n (with_parser (\<lambda>hp. hp\<lparr>state := p_state fr\<rparr>) fr) \<and> I (usr fr)"
  by (simp_all add: pass_ok_def SET_ERRNO_def with_parser_def)

lemma pass_ok_fail [simp]:
  "pass_ok I d r (fail e fr) \<longleftrightarrow>
     e \<noteq> HPE_OK \<and> e \<noteq> HPE_PAUSED \<and> pos fr \<le> length d \<and> I (usr fr)"
  by (auto simp: pass_ok_def pass_err_def SET_ERRNO_def with_parser_def)

lemma pass_ok_COUNT [simp]:
  "pass_ok I d r (COUNT_HEADER_SIZE v fr k) \<longleftrightarrow>
     (if HTTP_MAX_HEADER_SIZE < unat (nread (parser fr) + of_nat v)
      then pos fr \<le> length d \<and> I (usr fr)
      else pass_ok I d r (k (with_parser (add_nread v) fr)))"
  by (auto simp: pass_ok_def pass_err_def SET_ERRNO_def with_parser_def)

lemma frame_upd_fields [simp]:
  "usr (UPDATE_STATE s fr) = usr fr" "p_state (UPDATE_STATE s fr) = s" "pos (UPDATE_STATE s fr) = pos fr"
  "cur (UPDATE_STATE s fr) = cur fr" "parser (UPDATE_STATE s fr) = parser fr"
  "usr (with_parser f fr) = usr fr" "p_state (with_parser f fr) = p_state fr"
  "pos (with_parser f fr) = pos fr" "cur (with_parser f fr) = cur fr"
  "parser (with_parser f fr) = f (parser fr)"
  "usr (SET_ERRNO e fr) = usr fr" "pos (SET_ERRNO e fr) = pos fr"
  "parser (SET_ERRNO e fr) = (parser fr)\<lparr>http_errno := e\<rparr>"
  by (simp_all add: UPDATE_STATE_def with_parser_def SET_ERRNO_def)

lemma with_parser_UPDATE_STATE [simp]:
  "with_parser f (UPDATE_STATE s fr) = UPDATE_STATE s (with_parser f fr)"
  by (simp add: UPDATE_STATE_def with_parser_def)

lemmas frame_upd_defs = with_parser_def UPDATE_STATE_def SET_ERRNO_def MARK_def


section \<open>Callbacks\<close>

lemma HPE_CB_notify_not_OK [simp]: "HPE_CB_notify f \<noteq> HPE_OK"
  by (cases f) simp_all

lemma HPE_CB_data_not_OK [simp]: "HPE_CB_data f \<noteq> HPE_OK"
  by (cases f) simp_all

lemma pass_ret_stop:
  "n \<le> length d \<Longrightarrow> http_errno (parser fr) \<noteq> HPE_OK \<Longrightarrow>
   core_inv 0 (state (parser fr)) (parser fr) \<Longrightarrow> pass_ret d n fr"
  by (simp add: pass_ret_def parser_inv_def)

locale http_buffer_callbacks =
  fixes S :: "'u http_parser_settings" and uinv :: "'u \<Rightarrow> bool" and d :: "char list"
  assumes notify_cb:
    "on_notify k S = Some cb \<Longrightarrow> http_errno hp = HPE_OK \<Longrightarrow> uinv u \<Longrightarrow> cb hp u = (r, hp', u') \<Longrightarrow>
     (hp' = hp \<or> hp' = hp\<lparr>http_errno := HPE_PAUSED\<rparr>) \<and> uinv u'"
  and headers_complete_cb:
    "on_headers_complete S = Some cb \<Longrightarrow> http_errno hp = HPE_OK \<Longrightarrow> uinv u \<Longrightarrow> cb hp u = (r, hp', u') \<Longrightarrow>
     (hp' = hp \<or> hp' = hp\<lparr>http_errno := HPE_PAUSED\<rparr>) \<and> uinv u'"
  and data_cb:
    "on_data f S = Some dcb \<Longrightarrow> http_errno hp = HPE_OK \<Longrightarrow> uinv u \<Longrightarrow> at + l \<le> length d \<Longrightarrow>
     dcb hp d at l u = (r, hp', u') \<Longrightarrow>
     (hp' = hp \<or> hp' = hp\<lparr>http_errno := HPE_PAUSED\<rparr>) \<and> uinv u'"
begin

lemma run_callback_ok:
  assumes cb: "\<And>r hp' u'. cb ((parser fr)\<lparr>state := p_state fr\<rparr>) (usr fr) = (r, hp', u') \<Longrightarrow>
      (hp' = (parser fr)\<lparr>state := p_state fr\<rparr> \<or>
       hp' = (parser fr)\<lparr>state := p_state fr, http_errno := HPE_PAUSED\<rparr>) \<and> uinv u'"
    and ok: "http_errno (parser fr) = HPE_OK" and e: "e \<noteq> HPE_OK"
    and er: "er \<le> length d" and inv: "core_inv 0 (p_state fr) (parser fr)"
    and k: "\<And>u. uinv u \<Longrightarrow> pass_ok uinv d rk (k (adj fr (p_state fr) u))"
  shows "pass_ok uinv d rk (run_callback e cb er fr k)"
proof -
  obtain r hp' u' where c: "cb ((parser fr)\<lparr>state := p_state fr\<rparr>) (usr fr) = (r, hp', u')"
    by (metis prod_cases3)
  from cb [OF c] have u': "uinv u'" and hp': "hp' = (parser fr)\<lparr>state := p_state fr\<rparr> \<or>
      hp' = (parser fr)\<lparr>state := p_state fr, http_errno := HPE_PAUSED\<rparr>" by auto
  show ?thesis
  proof (cases "r = 0 \<and> hp' = (parser fr)\<lparr>state := p_state fr\<rparr>")
    case True
    with k [OF u'] ok show ?thesis
      by (simp add: run_callback_def c adj_def)
  next
    case False
    define hp2 where "hp2 = (if r \<noteq> 0 then hp'\<lparr>http_errno := e\<rparr> else hp')"
    have err: "http_errno hp2 \<noteq> HPE_OK" and st: "state hp2 = p_state fr"
      using False hp' e by (auto simp: hp2_def)
    have "core_inv 0 (p_state fr) hp2" using inv hp' by (auto simp: hp2_def)
    with err st er u' show ?thesis
      unfolding run_callback_def c by (simp add: hp2_def [symmetric] pass_ret_stop)
  qed
qed

lemma NOTIFY_ok:
  assumes "http_errno (parser fr) = HPE_OK" "uinv (usr fr)" "core_inv 0 (p_state fr) (parser fr)"
    and "er \<le> length d"
    and k: "\<And>s u. uinv u \<Longrightarrow> s = state (parser fr) \<or> s = p_state fr \<Longrightarrow> pass_ok uinv d rk (k (adj fr s u))"
  shows "pass_ok uinv d rk (CALLBACK_NOTIFY_gen S f er fr k)"
proof (cases "on_notify f S")
  case None
  with assms k [OF assms(2), of "state (parser fr)"] show ?thesis
    by (simp add: CALLBACK_NOTIFY_gen_def adj_id)
next
  case (Some cb)
  have "pass_ok uinv d rk (run_callback (HPE_CB_notify f) cb er fr k)"
  proof (rule run_callback_ok)
    fix r hp' u' assume "cb ((parser fr)\<lparr>state := p_state fr\<rparr>) (usr fr) = (r, hp', u')"
    from notify_cb [OF Some _ assms(2) this] assms(1)
    show "(hp' = (parser fr)\<lparr>state := p_state fr\<rparr> \<or>
       hp' = (parser fr)\<lparr>state := p_state fr, http_errno := HPE_PAUSED\<rparr>) \<and> uinv u'" by simp
  qed (use assms in auto)
  with Some assms(1) show ?thesis by (simp add: CALLBACK_NOTIFY_gen_def)
qed

lemma DATA_ok:
  assumes "http_errno (parser fr) = HPE_OK" "uinv (usr fr)" "core_inv 0 (p_state fr) (parser fr)"
    and "er \<le> length d" and m: "\<And>m. mark_of f fr = Some m \<Longrightarrow> m + LEN m \<le> length d"
    and k: "\<And>s u. uinv u \<Longrightarrow> pass_ok uinv d rk (k (set_mark f None (adj fr s u)))"
  shows "pass_ok uinv d rk (CALLBACK_DATA_gen S d f LEN er fr k)"
proof (cases "mark_of f fr")
  case None
  with assms(1) k [OF assms(2), of "state (parser fr)"] show ?thesis
    by (simp add: CALLBACK_DATA_gen_def adj_id set_mark_None)
next
  case (Some i)
  show ?thesis
  proof (cases "on_data f S")
    case None
    with assms(1) Some k [OF assms(2), of "state (parser fr)"] show ?thesis
      by (simp add: CALLBACK_DATA_gen_def adj_id)
  next
    case S: (Some cb)
    have "pass_ok uinv d rk (run_callback (HPE_CB_data f) (\<lambda>hp. cb hp d i (LEN i)) er fr
        (\<lambda>fr'. k (set_mark f None fr')))"
    proof (rule run_callback_ok)
      fix r hp' u' assume "cb ((parser fr)\<lparr>state := p_state fr\<rparr>) d i (LEN i) (usr fr) = (r, hp', u')"
      from data_cb [OF S _ assms(2) m [OF Some] this] assms(1)
      show "(hp' = (parser fr)\<lparr>state := p_state fr\<rparr> \<or>
         hp' = (parser fr)\<lparr>state := p_state fr, http_errno := HPE_PAUSED\<rparr>) \<and> uinv u'" by simp
    qed (use assms in auto)
    with S Some assms(1) show ?thesis by (simp add: CALLBACK_DATA_gen_def)
  qed
qed

end

section \<open>The cases without callbacks\<close>

text \<open>A step between states that carry no mark.\<close>

definition plain_state :: "pstate \<Rightarrow> bool" where
  "plain_state s \<longleftrightarrow> s \<noteq> s_header_field \<and> s \<noteq> s_header_value \<and> s \<noteq> s_res_status \<and>
     \<not> url_state s \<and> \<not> body_state s"

lemmas state_classes = plain_state_def url_state_def body_state_def

lemma frame_move:
  assumes "frame_inv n d fr" "plain_state (p_state fr)" "plain_state s"
    and "base_inv (f (parser fr))" "http_errno (f (parser fr)) = HPE_OK" "state_inv m s (f (parser fr))"
  shows "frame_inv m d (UPDATE_STATE s (with_parser f fr))"
  using assms by (auto simp: frame_inv_def core_inv_def marks_inv_def plain_state_def frame_upd_defs)

lemma frame_goto:
  assumes "frame_inv n d fr" "plain_state (p_state fr)" "plain_state s" "state_inv m s (parser fr)"
  shows "frame_inv m d (UPDATE_STATE s fr)"
  using frame_move [OF assms(1-3), of id m] assms
  by (simp add: frame_inv_def core_inv_def with_parser_def)

lemma frame_stay:
  assumes "frame_inv n d fr" "plain_state (p_state fr)"
    and "base_inv (f (parser fr))" "http_errno (f (parser fr)) = HPE_OK"
    and "state_inv m (p_state fr) (f (parser fr))"
  shows "frame_inv m d (with_parser f fr)"
  using frame_move [OF assms(1) assms(2) assms(2), of f m] assms by (simp add: frame_upd_defs)

lemma frame_invD:
  assumes "frame_inv n d fr"
  shows "http_errno (parser fr) = HPE_OK" "base_inv (parser fr)" "state_inv n (p_state fr) (parser fr)"
    "pos fr < length d" "pos fr \<le> length d" "marks_inv fr" "core_inv n (p_state fr) (parser fr)"
  using assms by (auto simp: frame_inv_def core_inv_def)

lemma plain_frame_inv:
  "frame_inv n d fr \<Longrightarrow> p_state fr \<noteq> s_chunk_size_start \<Longrightarrow> frame_inv m d fr"
  by (simp add: frame_inv_def core_inv_def state_inv_def cong: pstate.case_cong split: pstate.splits)

lemma digit_le_999: "IS_NUM c \<Longrightarrow> (digit_of c :: u16) \<le> 999"
  using digit_of_num [where 'a = 16, of c] by (simp add: word_le_nat_alt)

lemmas simple_defs = case_dead_def case_res_or_resp_H_def case_res_H_def case_res_HT_def
  case_res_HTT_def case_res_HTTP_def case_res_first_http_major_def case_res_http_major_def
  case_res_first_http_minor_def case_res_http_minor_def case_res_first_status_code_def
  case_res_status_code_def case_res_line_almost_done_def case_req_http_start_def
  case_req_http_H_def case_req_http_HT_def case_req_http_HTT_def case_req_http_HTTP_def
  case_req_first_http_major_def case_req_http_major_def case_req_first_http_minor_def
  case_req_http_minor_def case_req_line_almost_done_def case_header_almost_done_def
  case_header_value_discard_ws_almost_done_def case_chunk_parameters_def

definition simple_state :: "pstate \<Rightarrow> bool" where
  "simple_state s \<longleftrightarrow> s \<in> {s_dead, s_res_or_resp_H, s_res_H, s_res_HT, s_res_HTT, s_res_HTTP,
     s_res_first_http_major, s_res_http_major, s_res_first_http_minor, s_res_http_minor,
     s_res_first_status_code, s_res_status_code, s_res_line_almost_done, s_req_http_start,
     s_req_http_H, s_req_http_HT, s_req_http_HTT, s_req_http_HTTP, s_req_first_http_major,
     s_req_http_major, s_req_first_http_minor, s_req_http_minor, s_req_line_almost_done,
     s_header_almost_done, s_header_value_discard_ws_almost_done, s_chunk_parameters,
     s_header_value_lws}"

lemma digit_char:
  assumes "\<not> (schar c < schar CHR ''0'' \<or> schar CHR ''9'' < schar c)"
  shows "IS_NUM c"
  using assms by (auto simp: IS_NUM_def)

lemma digit_char_1:
  assumes "\<not> (schar c < schar CHR ''1'' \<or> schar CHR ''9'' < schar c)"
  shows "IS_NUM c"
  using assms by (auto simp: IS_NUM_def schar_def uchar_def)

lemma header_flag_flag: "header_flag hp = hp \<or> (\<exists>F. header_flag hp = set_flag F hp)"
  by (cases "header_state hp") (auto simp: header_flag_def)

lemma header_flag_fields [simp]:
  "http_errno (header_flag hp) = http_errno hp" "http_major (header_flag hp) = http_major hp"
  "http_minor (header_flag hp) = http_minor hp" "status_code (header_flag hp) = status_code hp"
  "nread (header_flag hp) = nread hp" "index (header_flag hp) = index hp"
  "state (header_flag hp) = state hp"
  using header_flag_flag [of hp] by auto

lemma method_HEAD: "method_strings ! 2 = ''HEAD''"
  by (simp add: method_strings_def)

lemma simple_case_ok:
  assumes inv: "frame_inv 1 d fr" and s: "simple_state (p_state fr)" and u: "I (usr fr)"
  shows "pass_ok I d (reexec_rank (p_state fr)) (exec_switch S d fr)"
proof -
  note f = frame_invD [OF inv]
  have goto: "frame_inv m d (UPDATE_STATE t fr)" if "plain_state (p_state fr)" "plain_state t"
    "state_inv m t (parser fr)" for m t by (rule frame_goto [OF inv that])
  have move: "frame_inv m d (UPDATE_STATE t (with_parser g fr))" if "plain_state (p_state fr)"
    "plain_state t" "base_inv (g (parser fr))" "http_errno (g (parser fr)) = HPE_OK"
    "state_inv m t (g (parser fr))" for m t g using frame_move [OF inv, of t g m] that by blast
  have stay: "frame_inv m d (with_parser g fr)" if "plain_state (p_state fr)"
    "base_inv (g (parser fr))" "http_errno (g (parser fr)) = HPE_OK"
    "state_inv m (p_state fr) (g (parser fr))" for m g using frame_stay [OF inv, of g m] that by blast
  note b = f(2) [unfolded base_inv_def]
  show ?thesis
    using s u f(1-5) plain_frame_inv [OF inv, of 0] unfolding simple_state_def
    by (elim insertE emptyE)
       (simp_all add: exec_switch_def simple_defs case_header_value_lws_def pass_err_def goto move stay
         state_classes state_inv_def Let_def base_inv_def b not_less digit_le_999 digit_char digit_char_1
         method_HEAD reexec_rank_def)
qed


section \<open>Request method and URL\<close>

lemma method_length: "0 < length (method_strings ! method_num m)" "length (method_strings ! method_num m) \<le> 11"
  by (cases m; simp add: method_strings_def)+

lemma method_switch_length:
  "method_switch m i c = Some m' \<Longrightarrow> i + 1 \<le> length (method_strings ! method_num m')"
  by (auto simp: method_switch_def method_strings_def split: if_splits)

lemma unat_index_Suc: "unat (i :: 7 word) \<le> 17 \<Longrightarrow> unat (i + 1) = unat i + 1"
  by (simp add: unat_word_ariths)

lemma req_method_move:
  assumes inv: "frame_inv 1 d fr" and s: "p_state fr = s_req_method"
    and fr': "fr' = fr \<or> fr' = with_parser (\<lambda>hp. hp\<lparr>method_of := m\<rparr>) fr"
    and len: "unat (index (parser fr)) + 1 \<le> length (method_strings ! method_num (method_of (parser fr')))"
  shows "frame_inv 0 d (with_parser (\<lambda>hp. hp\<lparr>index := index hp + 1\<rparr>) fr')"
proof -
  from frame_invD [OF inv] s have b: "base_inv (parser fr)" "http_errno (parser fr) = HPE_OK"
    "0 < index (parser fr)" by (auto simp: state_inv_def)
  from b(1) have i: "unat (index (parser fr) + 1) = unat (index (parser fr)) + 1"
    by (simp add: base_inv_def unat_index_Suc)
  from len method_length(2) [of "method_of (parser fr')"] have l: "unat (index (parser fr)) + 1 \<le> 11" by linarith
  have pos: "0 < index (parser fr) + 1" using i by (simp add: word_less_nat_alt)
  from fr' show ?thesis
  proof
    assume fr': "fr' = fr"
    show ?thesis unfolding fr'
      by (rule frame_stay [OF inv])
         (use s b i l len pos fr' in \<open>simp_all add: state_classes base_inv_def state_inv_def\<close>)
  next
    assume fr': "fr' = with_parser (\<lambda>hp. hp\<lparr>method_of := m\<rparr>) fr"
    have "fr'\<lparr>parser := (parser fr')\<lparr>index := index (parser fr') + 1\<rparr>\<rparr> =
        with_parser (\<lambda>hp. hp\<lparr>method_of := m, index := index hp + 1\<rparr>) fr"
      by (simp add: fr' with_parser_def)
    moreover have "frame_inv 0 d (with_parser (\<lambda>hp. hp\<lparr>method_of := m, index := index hp + 1\<rparr>) fr)"
      by (rule frame_stay [OF inv])
         (use s b i l len pos fr' in \<open>simp_all add: state_classes base_inv_def state_inv_def\<close>)
    ultimately show ?thesis by (simp add: with_parser_def)
  qed
qed

lemma req_method_ok:
  assumes inv: "frame_inv 1 d fr" and s: "p_state fr = s_req_method" and u: "I (usr fr)"
  shows "pass_ok I d r (case_req_method fr)"
proof -
  note f = frame_invD [OF inv]
  from f s have b: "unat (index (parser fr)) \<le> length (method_strings ! method_num (method_of (parser fr)))"
    "base_inv (parser fr)" by (auto simp: state_inv_def)
  have i: "unat (index (parser fr) + 1) = unat (index (parser fr)) + 1" "unat (index (parser fr)) \<le> 11"
    using b(2) b(1) method_length(2) [of "method_of (parser fr)"] by (auto simp: base_inv_def unat_index_Suc)
  have space: "frame_inv 0 d (with_parser (\<lambda>hp. hp\<lparr>index := index hp + 1\<rparr>)
      (UPDATE_STATE s_req_spaces_before_url fr))"
    using frame_move [OF inv, of s_req_spaces_before_url "\<lambda>hp. hp\<lparr>index := index hp + 1\<rparr>" 0] f s i b(2)
    by (simp add: state_classes state_inv_def base_inv_def)
  have same: "frame_inv 0 d (with_parser (\<lambda>hp. hp\<lparr>index := index hp + 1\<rparr>) fr)"
    if "cur fr = cstr_at (method_strings ! method_num (method_of (parser fr))) (unat (index (parser fr)))"
      "cur fr \<noteq> NUL"
  proof (rule req_method_move [OF inv s])
    have "unat (index (parser fr)) < length (method_strings ! method_num (method_of (parser fr)))"
      using that by (auto simp: cstr_at_def split: if_splits)
    then show "unat (index (parser fr)) + 1 \<le> length (method_strings ! method_num (method_of (parser fr)))"
      by simp
  qed simp
  have switch: "frame_inv 0 d (with_parser (\<lambda>hp. hp\<lparr>index := index hp + 1\<rparr>)
      (with_parser (\<lambda>hp. hp\<lparr>method_of := m\<rparr>) fr))"
    if "method_switch (method_of (parser fr)) (unat (index (parser fr))) (cur fr) = Some m" for m
    by (rule req_method_move [OF inv s, where m = m]) (use method_switch_length [OF that] in auto)
  have msearch: "frame_inv 0 d (with_parser (\<lambda>hp. hp\<lparr>index := index hp + 1\<rparr>)
      (with_parser (\<lambda>hp. hp\<lparr>method_of := HTTP_MSEARCH\<rparr>) fr))" if "index (parser fr) = 1"
    by (rule req_method_move [OF inv s, where m = HTTP_MSEARCH])
       (use that in \<open>auto simp: method_strings_def\<close>)
  show ?thesis
    using u f(5) space same switch msearch
    by (auto simp: case_req_method_def Let_def split: option.splits)
qed

lemma url_state_classes:
  "url_state s \<Longrightarrow> s \<noteq> s_header_field \<and> s \<noteq> s_header_value \<and> s \<noteq> s_res_status \<and> \<not> body_state s"
  by (auto simp: state_classes)

lemma frame_url:
  assumes inv: "frame_inv 1 d fr" and m: "url_mark fr \<noteq> None" and t: "url_state t"
    and s: "url_state (p_state fr)"
  shows "frame_inv m d (UPDATE_STATE t fr)"
  using inv m url_state_classes [OF t] url_state_classes [OF s] t s
  by (auto simp: frame_inv_def core_inv_def state_inv_url marks_inv_def UPDATE_STATE_def)

lemma url_step_ok:
  assumes inv: "\<And>t. url_state t \<Longrightarrow> frame_inv 0 d (UPDATE_STATE t fr)" and u: "I (usr fr)"
    and p: "pos fr \<le> length d"
  shows "pass_ok I d r (url_step fr)"
proof (cases "parse_url_char (p_state fr) (cur fr) = s_dead")
  case True
  with u p show ?thesis by (simp add: url_step_def)
next
  case False
  with inv [OF parse_url_char_state [OF False]] u show ?thesis by (simp add: url_step_def)
qed

lemma req_schema_ok:
  assumes inv: "frame_inv 1 d fr" and s: "url_state (p_state fr)" and u: "I (usr fr)"
  shows "pass_ok I d r (case_req_schema fr)"
proof -
  have "url_mark fr \<noteq> None" using inv s by (simp add: frame_inv_def marks_inv_def)
  with frame_url [OF inv _ _ s] u frame_invD [OF inv] show ?thesis
    by (simp add: case_req_schema_def url_step_ok)
qed

lemma req_spaces_before_url_ok:
  assumes inv: "frame_inv 1 d fr" and s: "p_state fr = s_req_spaces_before_url" and u: "I (usr fr)"
  shows "pass_ok I d r (case_req_spaces_before_url fr)"
proof -
  have marks: "header_field_mark fr = None" "header_value_mark fr = None" "url_mark fr = None"
    "status_mark fr = None" "body_mark fr = None"
    using inv s by (auto simp: frame_inv_def marks_inv_def state_classes)
  have "frame_inv 0 d (UPDATE_STATE t (MARK FOR_url fr))" if "url_state t" for t
    using inv marks url_state_classes [OF that] that
    by (simp add: frame_inv_def core_inv_def state_inv_url marks_inv_def frame_upd_defs)
  moreover have "UPDATE_STATE t (UPDATE_STATE t' fr) = UPDATE_STATE t fr" for t t' and fr :: "'a frame"
    by (simp add: UPDATE_STATE_def)
  moreover have "usr (MARK FOR_url fr) = usr fr" "pos (MARK FOR_url fr) = pos fr" "cur (MARK FOR_url fr) = cur fr"
    by (simp_all add: MARK_def)
  ultimately show ?thesis
    using u frame_invD [OF inv] plain_frame_inv [OF inv, of 0] s
    by (simp add: case_req_spaces_before_url_def Let_def url_step_ok)
qed



section \<open>Body without callbacks\<close>

lemma frame_marks_plain:
  assumes "frame_inv n d fr" "plain_state (p_state fr)"
  shows "header_field_mark fr = None" "header_value_mark fr = None" "url_mark fr = None"
    "status_mark fr = None" "body_mark fr = None"
  using assms by (auto simp: frame_inv_def marks_inv_def plain_state_def)

lemma body_state_classes:
  "body_state s \<Longrightarrow> s \<noteq> s_header_field \<and> s \<noteq> s_header_value \<and> s \<noteq> s_res_status \<and> \<not> url_state s"
  by (auto simp: state_classes)

lemma frame_marks_body:
  assumes "frame_inv n d fr" "body_state (p_state fr)"
  shows "header_field_mark fr = None" "header_value_mark fr = None" "url_mark fr = None"
    "status_mark fr = None" "mark_le (body_mark fr) (pos fr)"
  using assms(1) body_state_classes [OF assms(2)] by (auto simp: frame_inv_def marks_inv_def)

text \<open>\<open>take_body\<close> consumes \<open>min(content_length, bytes left)\<close> bytes, at least one.\<close>

lemma take_body_facts:
  fixes fr :: "'u frame"
  defines "cl \<equiv> content_length (parser fr)"
  assumes "pos fr < length d" "cl \<noteq> 0" "cl \<noteq> ULLONG_MAX"
    and fr1: "fr1 = take_body (min (unat cl) (length d - pos fr)) fr"
  shows "pos fr \<le> pos fr1" "pos fr1 < length d"
    "content_length (parser fr1) \<noteq> 0 \<Longrightarrow> pos fr1 = length d - 1"
    "unat (content_length (parser fr1)) = unat cl - min (unat cl) (length d - pos fr)"
    "content_length (parser fr1) \<noteq> ULLONG_MAX"
    "parser fr1 = (parser fr)\<lparr>content_length := content_length (parser fr1)\<rparr>"
    "usr fr1 = usr fr" "p_state fr1 = p_state fr"
    "body_mark fr1 = (if body_mark fr = None then Some (pos fr) else body_mark fr)"
    "header_field_mark fr1 = header_field_mark fr" "header_value_mark fr1 = header_value_mark fr"
    "url_mark fr1 = url_mark fr" "status_mark fr1 = status_mark fr"
proof -
  define n where "n = min (unat cl) (length d - pos fr)"
  have n: "1 \<le> n" "n \<le> unat cl" "n \<le> length d - pos fr"
    using assms(2,3) by (auto simp: n_def Suc_le_eq unat_gt_0)
  have n64: "n < 2 ^ 64" using n(2) unsigned_less [of cl, where ?'a = nat] by simp
  have c: "content_length (parser fr1) = cl - of_nat n"
    by (simp add: fr1 take_body_def MARK_def Let_def with_parser_def n_def cl_def)
  have le: "(of_nat n :: u64) \<le> cl" using n(2) n64 by (simp add: word_le_nat_alt unat_of_nat)
  have u: "unat (content_length (parser fr1)) = unat cl - n"
    using n64 by (simp add: c unat_sub [OF le] unat_of_nat)
  have p: "pos fr1 = pos fr + n - 1"
    by (simp add: fr1 take_body_def MARK_def Let_def with_parser_def n_def cl_def)
  show "pos fr \<le> pos fr1" "pos fr1 < length d" using n p assms(2) by auto
  show "content_length (parser fr1) \<noteq> 0 \<Longrightarrow> pos fr1 = length d - 1"
  proof -
    assume "content_length (parser fr1) \<noteq> 0"
    then have "0 < unat (content_length (parser fr1))" by (simp add: unat_gt_0)
    then have "n = length d - pos fr" unfolding u by (auto simp: n_def min_def split: if_splits)
    with p assms(2) show ?thesis by simp
  qed
  show "unat (content_length (parser fr1)) = unat cl - min (unat cl) (length d - pos fr)"
    using u by (simp add: n_def)
  have "unat (content_length (parser fr1)) < unat cl" using u n by simp
  then show "content_length (parser fr1) \<noteq> ULLONG_MAX"
    using word_less_nat_alt [of "content_length (parser fr1)" cl] by (auto simp: ULLONG_MAX_def)
  show "parser fr1 = (parser fr)\<lparr>content_length := content_length (parser fr1)\<rparr>"
    "usr fr1 = usr fr" "p_state fr1 = p_state fr"
    "body_mark fr1 = (if body_mark fr = None then Some (pos fr) else body_mark fr)"
    "header_field_mark fr1 = header_field_mark fr" "header_value_mark fr1 = header_value_mark fr"
    "url_mark fr1 = url_mark fr" "status_mark fr1 = status_mark fr"
    by (simp_all add: fr1 take_body_def MARK_def Let_def with_parser_def)
qed

lemma has_flag_content_length [simp]: "has_flag (hp\<lparr>content_length := c\<rparr>) F = has_flag hp F"
  by (simp add: has_flag_def)

lemma frame_take_body:
  assumes inv: "frame_inv 1 d fr" and s: "body_state (p_state fr)" and t: "body_state t"
    and cl: "content_length (parser fr) \<noteq> 0" "content_length (parser fr) \<noteq> ULLONG_MAX"
    and fr1: "fr1 = take_body (min (unat (content_length (parser fr))) (length d - pos fr)) fr"
    and st: "state_inv 0 t (parser fr1)"
  shows "frame_inv 0 d (UPDATE_STATE t fr1)"
proof -
  note f = frame_invD [OF inv] and m = frame_marks_body [OF inv s]
  note tb = take_body_facts [OF f(4) cl fr1]
  have "base_inv (parser fr1)" "http_errno (parser fr1) = HPE_OK"
    using f(1,2) by (subst tb(6), simp add: base_inv_def)+
  moreover have "mark_le (body_mark fr1) (pos fr1)"
    using m(5) tb(1) by (auto simp: tb(9))
  moreover have "t \<noteq> s_header_field" "t \<noteq> s_header_value" "t \<noteq> s_res_status" "\<not> url_state t"
    using body_state_classes [OF t] by auto
  ultimately show ?thesis
    using st t tb m by (auto simp: frame_inv_def core_inv_def marks_inv_def UPDATE_STATE_def)
qed

lemma chunk_data_ok:
  assumes inv: "frame_inv 1 d fr" and s: "p_state fr = s_chunk_data" and u: "I (usr fr)"
  shows "pass_ok I d r (case_chunk_data d fr)"
proof -
  note f = frame_invD [OF inv]
  from f(3) s have i: "has_flag (parser fr) F_CHUNKED" "content_length (parser fr) \<noteq> 0"
    "content_length (parser fr) \<noteq> ULLONG_MAX" by (auto simp: state_inv_def)
  define fr1 where "fr1 = take_body (min (unat (content_length (parser fr))) (length d - pos fr)) fr"
  note tb = take_body_facts [OF f(4) i(2,3) fr1_def]
  have fl: "has_flag (parser fr1) F_CHUNKED" using i(1) by (subst tb(6)) simp
  have b: "body_state (p_state fr)" "body_state s_chunk_data_almost_done" "body_state s_chunk_data"
    using s by (simp_all add: body_state_def)
  have finished: "frame_inv 0 d (UPDATE_STATE s_chunk_data_almost_done fr1)"
    if "content_length (parser fr1) = 0"
    by (rule frame_take_body [OF inv b(1,2) i(2,3) fr1_def]) (simp add: state_inv_def that fl)
  have "frame_inv 0 d (UPDATE_STATE s_chunk_data fr1)" if "content_length (parser fr1) \<noteq> 0"
    by (rule frame_take_body [OF inv b(1,3) i(2,3) fr1_def]) (simp add: state_inv_def that fl tb(5))
  moreover have "UPDATE_STATE s_chunk_data fr1 = fr1" using s tb(8) by (simp add: UPDATE_STATE_def)
  ultimately show ?thesis
    using i finished u tb(7) by (simp add: case_chunk_data_def Let_def fr1_def [symmetric])
qed

lemma body_identity_eof_ok:
  assumes inv: "frame_inv 1 d fr" and s: "p_state fr = s_body_identity_eof" and u: "I (usr fr)"
  shows "pass_ok I d r (case_body_identity_eof d fr)"
  using assms frame_marks_body [OF inv]
  by (auto simp: case_body_identity_eof_def frame_inv_def core_inv_def base_inv_def state_inv_def
      marks_inv_def MARK_def state_classes elim!: mark_le_trans)

lemma unat_digit_u64: "IS_NUM c \<Longrightarrow> unat (digit_of c :: u64) = uchar c - 48"
  by (rule digit_of_num) simp_all

lemma unat_ULLONG_MAX: "unat ULLONG_MAX = 2 ^ 64 - 1"
proof -
  have m: "ULLONG_MAX = 18446744073709551615" by (simp add: ULLONG_MAX_def)
  show ?thesis unfolding m by (simp add: unat_numeral)
qed

text \<open>The overflow test keeps a chunk size away from \<open>ULLONG_MAX\<close>, and exact.\<close>

lemma chunk_size_no_wrap:
  assumes "\<not> (ULLONG_MAX - 16) div 16 < cl" "0 \<le> v" "v < 16"
  shows "unat (cl * 16 + of_int v) = unat cl * 16 + nat v" "cl * 16 + of_int v \<noteq> ULLONG_MAX"
proof -
  have m: "unat ((ULLONG_MAX - 16) div 16) = 2 ^ 60 - 2" by (simp add: ULLONG_MAX_def)
  from assms(1) have "unat cl \<le> 2 ^ 60 - 2"
    unfolding not_less word_le_nat_alt m .
  then have b: "unat cl * 16 + nat v < 2 ^ 64 - 1" using assms(2,3) by simp
  have "(of_int v :: u64) = of_nat (nat v)" using assms(2) by simp
  then have e: "cl * 16 + of_int v = of_nat (unat cl * 16 + nat v)" by simp
  show u: "unat (cl * 16 + of_int v) = unat cl * 16 + nat v"
    unfolding e unat_of_nat using b by simp
  show "cl * 16 + of_int v \<noteq> ULLONG_MAX"
  proof
    assume "cl * 16 + of_int v = ULLONG_MAX"
    then have "unat cl * 16 + nat v = unat ULLONG_MAX" using u by simp
    with b show False by (simp add: unat_ULLONG_MAX)
  qed
qed

lemma unhex_range: "unhex_at c \<noteq> -1 \<Longrightarrow> 0 \<le> unhex_at c \<and> unhex_at c < 16"
  by (auto simp: unhex_at_eq split: if_splits)

lemma chunk_size_ok:
  assumes inv: "frame_inv 1 d fr" and s: "p_state fr = s_chunk_size" and u: "I (usr fr)"
  shows "pass_ok I d r (case_chunk_size fr)"
proof -
  note f = frame_invD [OF inv]
  have p: "plain_state (p_state fr)" using s by (simp add: state_classes)
  have i: "has_flag (parser fr) F_CHUNKED" "content_length (parser fr) \<noteq> ULLONG_MAX"
    using f(3) s by (auto simp: state_inv_def)
  have "frame_inv 0 d (with_parser (\<lambda>hp. hp\<lparr>content_length := content_length hp * 16 + of_int v\<rparr>) fr)"
    if "\<not> (ULLONG_MAX - 16) div 16 < content_length (parser fr)" "0 \<le> v" "v < 16" for v
    by (rule frame_stay [OF inv p])
       (use f s i chunk_size_no_wrap [OF that] in \<open>simp_all add: base_inv_def state_inv_def\<close>)
  then show ?thesis
    using u f i s p frame_goto [OF inv p] unhex_range [of "cur fr"]
    by (simp add: case_chunk_size_def Let_def state_classes state_inv_def with_parser_def)
qed

lemma chunk_size_start_ok:
  assumes inv: "frame_inv 1 d fr" and s: "p_state fr = s_chunk_size_start" and u: "I (usr fr)"
  shows "pass_ok I d r (case_chunk_size_start fr)"
proof -
  note f = frame_invD [OF inv]
  have p: "plain_state (p_state fr)" "plain_state s_chunk_size" using s by (simp_all add: state_classes)
  have i: "has_flag (parser fr) F_CHUNKED" "nread (parser fr) = 1"
    using f(3) s by (auto simp: state_inv_def)
  have "frame_inv 0 d (UPDATE_STATE s_chunk_size (with_parser (\<lambda>hp. hp\<lparr>content_length := of_int v\<rparr>) fr))"
    if "0 \<le> v" "v < 16" for v
  proof (rule frame_move [OF inv p])
    have "(of_int v :: u64) \<noteq> ULLONG_MAX"
      using chunk_size_no_wrap(2) [of 0 v] that by (simp add: ULLONG_MAX_def)
    then show "state_inv 0 s_chunk_size ((parser fr)\<lparr>content_length := of_int v\<rparr>)"
      using i by (simp add: state_inv_def)
  qed (use f in \<open>simp_all add: base_inv_def\<close>)
  with unhex_range [of "cur fr"] show ?thesis
    using u f i by (simp add: case_chunk_size_start_def Let_def)
qed

end
