(* ===== verification/Http_Progress.thy ===== *)
theory Http_Progress
  imports Http_Safety
begin

text \<open>
  The remaining cases of the switch (status, header fields and values, everything with a
  callback) keep the invariant, the \<open>reexecute\<close> loop and the loop over the bytes end, and what
  \<open>http_parser_execute\<close> returns follows: inside the locale \<open>http_buffer_callbacks\<close>, for any well-behaved
  set of callbacks.
\<close>

section \<open>Frames with one mark\<close>

lemma frame_plainI:
  assumes "http_errno (parser fr) = HPE_OK" "base_inv (parser fr)" "state_inv n (p_state fr) (parser fr)"
    "plain_state (p_state fr)" "pos fr < length d" "\<And>g. mark_of g fr = None"
  shows "frame_inv n d fr"
  using assms(1-5) assms(6) [of FOR_header_field] assms(6) [of FOR_header_value] assms(6) [of FOR_url]
    assms(6) [of FOR_body] assms(6) [of FOR_status]
  by (simp add: frame_inv_def core_inv_def marks_inv_def plain_state_def)

lemma mark_of_set_mark [simp]: "mark_of g (set_mark f m fr) = (if g = f then m else mark_of g fr)"
  by (cases f; cases g; simp)

lemma set_mark_fields [simp]:
  "parser (set_mark f m fr) = parser fr" "p_state (set_mark f m fr) = p_state fr"
  "pos (set_mark f m fr) = pos fr" "cur (set_mark f m fr) = cur fr" "usr (set_mark f m fr) = usr fr"
  "lenient (set_mark f m fr) = lenient fr"
  by (cases f; simp)+

lemma mark_of_frame_upd [simp]:
  "mark_of g (adj fr s u) = mark_of g fr" "mark_of g (with_parser k fr) = mark_of g fr"
  "mark_of g (UPDATE_STATE t fr) = mark_of g fr"
  by (cases g; simp add: frame_upd_defs)+

lemma lenient_frame_upd [simp]:
  "lenient (with_parser k fr) = lenient fr" "lenient (UPDATE_STATE t fr) = lenient fr"
  by (simp_all add: frame_upd_defs)

lemma state_inv_state [simp]: "state_inv n s (hp\<lparr>state := t\<rparr>) = state_inv n s hp"
  by (simp add: state_inv_def has_flag_def cong: pstate.case_cong)

lemma base_inv_state [simp]: "base_inv (hp\<lparr>state := t\<rparr>) = base_inv hp"
  by (simp add: base_inv_def)

lemma frame_unmarkI:
  assumes "\<And>g. g \<noteq> f \<Longrightarrow> mark_of g fr = None" "plain_state (p_state fr)"
    and "http_errno (parser fr) = HPE_OK" "base_inv (parser fr)" "state_inv n (p_state fr) (parser fr)"
    and "pos fr < length d"
  shows "frame_inv n d (set_mark f None (adj fr s u))"
  by (rule frame_plainI) (use assms in \<open>auto simp: plain_state_def\<close>)

declare set_mark.simps [simp del]

text \<open>The class of a state: which mark it carries.\<close>

definition state_class :: "pstate \<Rightarrow> data_for option" where
  "state_class s =
     (if s = s_header_field then Some FOR_header_field
      else if s = s_header_value then Some FOR_header_value
      else if s = s_res_status then Some FOR_status
      else if url_state s then Some FOR_url
      else if body_state s then Some FOR_body else None)"

lemma frame_mark_class:
  assumes "frame_inv n d fr" "state_class (p_state fr) \<noteq> Some g"
  shows "mark_of g fr = None"
  using assms
  by (cases g) (auto simp: frame_inv_def marks_inv_def state_class_def state_classes split: if_splits)

lemma frame_mark_le:
  assumes "frame_inv n d fr" "mark_of g fr = Some m"
  shows "m \<le> pos fr"
  using assms by (cases g) (auto simp: frame_inv_def marks_inv_def)


section \<open>Header fields\<close>

lemma match_next_inv:
  assumes "index_inv h i" "match_length h = length str" "length str \<le> 17"
    and "h \<notin> {h_C, h_CO, h_CON, h_matching_connection_token_start}"
    and "match_length miss = 18" "match_length hit = 18"
    and "miss \<notin> {h_C, h_CO, h_CON, h_matching_connection_token_start}"
    and "hit \<notin> {h_C, h_CO, h_CON, h_matching_connection_token_start}"
  shows "index_inv (match_next str miss hit h (i + 1) c) (i + 1)" "unat (i + 1) \<le> 16"
    "match_next str miss hit h (i + 1) c \<in> {miss, hit, h}"
proof -
  have idx: "index_inv g j \<longleftrightarrow> unat j + 2 \<le> match_length g"
    if "g \<notin> {h_C, h_CO, h_CON, h_matching_connection_token_start}" for g j
    using that by (cases g) (auto simp: index_inv_def)
  have i: "unat i + 2 \<le> length str" using assms(1,2) idx [OF assms(4)] by simp
  then have u: "unat (i + 1) = unat i + 1" using assms(3) by (simp add: unat_index_Suc)
  show "unat (i + 1) \<le> 16" using u i assms(3) by simp
  show "match_next str miss hit h (i + 1) c \<in> {miss, hit, h}" by (simp add: match_next_def)
  show "index_inv (match_next str miss hit h (i + 1) c) (i + 1)"
    using u i assms(2,3,5,6) idx [OF assms(4)] idx [OF assms(7)] idx [OF assms(8)]
    by (auto simp: match_next_def)
qed

definition field_inv :: "http_parser \<Rightarrow> bool" where
  "field_inv hp \<longleftrightarrow> field_header_state (header_state hp) \<and> index_inv (header_state hp) (index hp) \<and>
     unat (index hp) \<le> 16"

definition same_but_match :: "http_parser \<Rightarrow> http_parser \<Rightarrow> bool" where
  "same_but_match hp hp' \<longleftrightarrow> (\<exists>i h. hp' = hp\<lparr>index := i, header_state := h\<rparr>)"

lemma same_but_match_refl: "same_but_match hp hp"
  unfolding same_but_match_def
  by (rule exI [of _ "index hp"], rule exI [of _ "header_state hp"]) simp

lemma same_but_match_trans: "same_but_match a b \<Longrightarrow> same_but_match b c \<Longrightarrow> same_but_match a c"
proof -
  assume "same_but_match a b" "same_but_match b c"
  then obtain i h j k where "b = a\<lparr>index := i, header_state := h\<rparr>" "c = b\<lparr>index := j, header_state := k\<rparr>"
    unfolding same_but_match_def by blast
  then have "c = a\<lparr>index := j, header_state := k\<rparr>" by simp
  then show ?thesis unfolding same_but_match_def by blast
qed

lemma same_but_match_intro [simp]:
  "same_but_match hp (hp\<lparr>index := i, header_state := h\<rparr>)" "same_but_match hp (hp\<lparr>header_state := h\<rparr>)"
  unfolding same_but_match_def by blast (rule exI [of _ "index hp"], rule exI [of _ h], simp)

lemma same_but_match_base:
  "same_but_match hp hp' \<Longrightarrow> unat (index hp') \<le> 16 \<Longrightarrow> base_inv hp \<Longrightarrow>
   base_inv hp' \<and> http_errno hp' = http_errno hp \<and> nread hp' = nread hp"
  by (auto simp: same_but_match_def base_inv_def)

lemma match_field_inv:
  assumes "index_inv (header_state hp) (index hp)" "match_length (header_state hp) = length str"
    and "length str \<le> 17" "header_state hp \<notin> {h_C, h_CO, h_CON, h_matching_connection_token_start}"
    and "field_header_state (header_state hp)" "hit \<in> {h_connection, h_content_length, h_transfer_encoding, h_upgrade}"
  shows "field_inv (match_field str hit c hp)" "same_but_match hp (match_field str hit c hp)"
proof -
  note m = match_next_inv [OF assms(1-4), where miss = h_general and hit = hit]
  have h: "match_length h_general = 18" "match_length hit = 18"
    "h_general \<notin> {h_C, h_CO, h_CON, h_matching_connection_token_start}"
    "hit \<notin> {h_C, h_CO, h_CON, h_matching_connection_token_start}" "field_header_state hit"
    "field_header_state h_general"
    using assms(6) by (auto simp: match_length_def field_header_state_def)
  have "field_header_state (match_next str h_general hit (header_state hp) (index hp + 1) c)"
    using m(3) [OF h(1-4), of c] h(5,6) assms(5) by (auto simp del: insert_iff dest: sym)
  with m(1,2) [OF h(1-4)] show "field_inv (match_field str hit c hp)"
    by (simp add: field_inv_def match_field_def Let_def)
  show "same_but_match hp (match_field str hit c hp)"
    by (simp add: match_field_def Let_def)
qed

lemma header_field_step_inv:
  assumes "field_inv hp"
  shows "\<exists>hp'. header_field_step c hp = Some hp' \<and> field_inv hp' \<and> same_but_match hp hp'"
proof -
  from assms have f: "field_header_state (header_state hp)" "index_inv (header_state hp) (index hp)"
    "unat (index hp) \<le> 16" by (auto simp: field_inv_def)
  note m = match_field_inv [OF f(2) _ _ _ f(1)]
  show ?thesis
  proof (cases "header_state hp \<in> {h_matching_connection, h_matching_proxy_connection,
      h_matching_content_length, h_matching_transfer_encoding, h_matching_upgrade}")
    case True
    then show ?thesis
      by (elim insertE emptyE) (simp_all add: header_field_step_def Let_def m match_length_def)
  next
    case False
    have s: "unat (1 + 1 :: 7 word) = 2" "unat (2 + 1 :: 7 word) = 3" by simp_all
    from f False show ?thesis unfolding field_header_state_def
      by (elim insertE emptyE)
         (simp_all add: header_field_step_def Let_def field_inv_def same_but_match_refl index_inv_def
           match_length_def field_header_state_def)
  qed
qed

lemma header_field_loop_inv:
  assumes "field_inv hp"
  shows "\<exists>hp' p' c'. header_field_loop cs p c hp = Some (hp', p', c') \<and> field_inv hp' \<and>
    same_but_match hp hp' \<and> p \<le> p' \<and> p' \<le> p + length cs"
  using assms
proof (induction cs arbitrary: p c hp)
  case Nil
  then show ?case by (simp add: same_but_match_refl)
next
  case (Cons x cs)
  show ?case
  proof (cases "TOKEN x = NUL")
    case True
    with Cons.prems show ?thesis by (simp add: same_but_match_refl)
  next
    case False
    obtain hp1 where h: "header_field_step x hp = Some hp1" "field_inv hp1" "same_but_match hp hp1"
      using header_field_step_inv [OF Cons.prems] by blast
    from Cons.IH [OF h(2), of "p + 1" x] obtain hp' p' c' where
      "header_field_loop cs (p + 1) x hp1 = Some (hp', p', c')" "field_inv hp'"
      "same_but_match hp1 hp'" "p + 1 \<le> p'" "p' \<le> p + 1 + length cs" by blast
    moreover have "same_but_match hp hp'"
      using h(3) \<open>same_but_match hp1 hp'\<close> by (rule same_but_match_trans)
    ultimately show ?thesis using False h(1) by auto
  qed
qed


section \<open>Header values\<close>

text \<open>The frame inside the loop of \<open>s_header_value\<close>; \<open>h\<close> is the local header state.\<close>

definition value_frame :: "char list \<Rightarrow> header_states \<Rightarrow> 'u frame \<Rightarrow> bool" where
  "value_frame d h fr \<longleftrightarrow> http_errno (parser fr) = HPE_OK \<and> base_inv (parser fr) \<and>
     p_state fr = s_header_value \<and> (\<forall>g. g \<noteq> FOR_header_value \<longrightarrow> mark_of g fr = None) \<and>
     (\<exists>m. header_value_mark fr = Some m \<and> m \<le> pos fr) \<and> pos fr \<le> length d \<and>
     value_header_state h \<and> index_inv h (index (parser fr))"

lemma value_frame_simps [simp]:
  "value_frame d h (fr\<lparr>cur := c\<rparr>) = value_frame d h fr"
proof -
  have "mark_of g (fr\<lparr>cur := c\<rparr>) = mark_of g fr" for g by (cases g) simp_all
  then show ?thesis by (simp add: value_frame_def)
qed

lemma value_frame_parser:
  assumes "value_frame d h fr" "base_inv (f (parser fr))" "http_errno (f (parser fr)) = HPE_OK"
    and "value_header_state h'" "index_inv h' (index (f (parser fr)))"
  shows "value_frame d h' (with_parser f fr)"
proof -
  have "header_value_mark (with_parser f fr) = header_value_mark fr" by (simp add: with_parser_def)
  with assms show ?thesis by (simp add: value_frame_def)
qed

lemma value_frame_pos:
  assumes "value_frame d h fr" "pos fr \<le> q" "q \<le> length d"
  shows "value_frame d h (fr\<lparr>pos := q\<rparr>)"
proof -
  have "mark_of g (fr\<lparr>pos := q\<rparr>) = mark_of g fr" for g by (cases g) simp_all
  with assms show ?thesis by (auto simp: value_frame_def)
qed

lemma value_frame_D:
  assumes "value_frame d h fr"
  shows "http_errno (parser fr) = HPE_OK" "base_inv (parser fr)" "value_header_state h"
    "index_inv h (index (parser fr))" "pos fr \<le> length d"
  using assms by (auto simp: value_frame_def)

lemma value_frame_h:
  assumes "value_frame d h fr" "value_header_state h'" "index_inv h' (index (parser fr))"
  shows "value_frame d h' fr"
  using assms by (auto simp: value_frame_def)

lemma index_inv_general:
  "h \<in> {h_general, h_content_length, h_matching_connection_token, h_transfer_encoding_chunked,
        h_connection_keep_alive, h_connection_close, h_connection_upgrade} \<Longrightarrow>
   index_inv h i \<longleftrightarrow> unat i \<le> 16"
  by (auto simp: index_inv_def match_length_def)

lemma match_value_frame:
  assumes v: "value_frame d h fr" and str: "match_length h = length str" "length str \<le> 17"
    and h: "h \<notin> {h_C, h_CO, h_CON, h_matching_connection_token_start}"
    and ends: "miss \<in> {h_general, h_matching_connection_token}"
      "hit \<in> {h_transfer_encoding_chunked, h_connection_keep_alive, h_connection_close, h_connection_upgrade}"
    and eq: "match_value str miss hit h c fr = Value_next fr1 h1"
  shows "value_frame d h1 fr1 \<and> pos fr1 = pos fr"
proof -
  note f = value_frame_D [OF v]
  have e: "match_length miss = 18" "match_length hit = 18"
    "miss \<notin> {h_C, h_CO, h_CON, h_matching_connection_token_start}"
    "hit \<notin> {h_C, h_CO, h_CON, h_matching_connection_token_start}"
    "value_header_state miss" "value_header_state hit"
    using ends by (auto simp: match_length_def value_header_state_def)
  note m = match_next_inv [OF f(4) str h e(1,2,3,4)]
  from eq have h1: "h1 = match_next str miss hit h (index (parser fr) + 1) c"
    and fr1: "fr1 = with_parser (\<lambda>hp. hp\<lparr>index := index (parser fr) + 1\<rparr>) fr"
    by (auto simp: match_value_def Let_def)
  have "value_header_state h1" using m(3) [of c] e(5,6) f(3) unfolding h1 [symmetric] by auto
  then show ?thesis unfolding fr1
    using m(1,2) f by (simp add: value_frame_parser [OF v] h1 base_inv_def)
qed

lemma value_frame_set_flag:
  assumes "value_frame d h fr" "value_header_state h'" "index_inv h' 0"
  shows "value_frame d h' (with_parser (\<lambda>hp. hp\<lparr>index := 0\<rparr>) (with_parser (set_flag F) fr))"
  by (rule value_frame_parser) (use value_frame_parser [OF assms(1), of "set_flag F" h]
    value_frame_D [OF assms(1)] assms in \<open>auto simp: base_inv_def\<close>)

lemma connection_token_end_frame:
  assumes v: "value_frame d h fr" and eq: "connection_token_end h F fr = Value_next fr1 h1"
    and h: "h \<in> {h_connection_keep_alive, h_connection_close, h_connection_upgrade}"
  shows "value_frame d h1 fr1 \<and> pos fr1 = pos fr"
proof -
  have i: "unat (index (parser fr)) \<le> 16"
    using value_frame_D(4) [OF v] index_inv_general [of h] h by auto
  have "value_frame d h_matching_connection_token fr"
    by (rule value_frame_h [OF v])
       (use i in \<open>simp_all add: value_header_state_def index_inv_def match_length_def\<close>)
  moreover have "value_frame d h_matching_connection_token_start
      (with_parser (\<lambda>hp. hp\<lparr>index := 0\<rparr>) (with_parser (set_flag F) fr))"
    by (rule value_frame_set_flag [OF v]) (simp_all add: value_header_state_def index_inv_def)
  ultimately show ?thesis using eq v by (auto simp: connection_token_end_def split: if_splits)
qed

lemma content_length_step_frame:
  assumes v: "value_frame d h_content_length fr"
    and eq: "content_length_step h_content_length fr = Value_next fr1 h1"
  shows "value_frame d h1 fr1 \<and> pos fr1 = pos fr"
proof -
  note f = value_frame_D [OF v]
  have "value_frame d h_content_length
      (with_parser (\<lambda>hp. hp\<lparr>content_length := content_length (parser fr) * 10 + digit_of (cur fr)\<rparr>) fr)"
    by (rule value_frame_parser [OF v]) (use f in \<open>simp_all add: base_inv_def\<close>)
  then show ?thesis using eq v by (auto simp: content_length_step_def Let_def split: if_splits)
qed

lemma token_start_frame:
  assumes v: "value_frame d h_matching_connection_token_start fr"
    and h1: "h1 \<in> {h_matching_connection_keep_alive, h_matching_connection_close,
      h_matching_connection_upgrade, h_matching_connection_token, h_matching_connection_token_start, h_general}"
  shows "value_frame d h1 fr"
proof -
  have "index (parser fr) = 0" using value_frame_D(4) [OF v] by (simp add: index_inv_def)
  then show ?thesis using h1
    by (intro value_frame_h [OF v])
       (auto simp: value_header_state_def index_inv_def match_length_def)
qed

text \<open>One character of a value keeps the frame; only a bad \<open>Content-Length\<close> leaves the loop.\<close>

lemma header_value_switch_frame:
  assumes v: "value_frame d h fr" and p: "pos fr < length d" and c: "cur fr = d ! pos fr"
    "cur fr \<noteq> CR" "cur fr \<noteq> LF"
  shows "(\<exists>fr1 h1. header_value_switch d h fr = Value_next fr1 h1 \<and> value_frame d h1 fr1 \<and>
            pos fr \<le> pos fr1 \<and> pos fr1 < length d \<and> usr fr1 = usr fr) \<or>
         (\<exists>fr1. header_value_switch d h fr = Value_exit (fail HPE_INVALID_CONTENT_LENGTH fr1) \<and>
            pos fr1 = pos fr \<and> usr fr1 = usr fr)"
proof -
  have i16: "unat (index (parser fr)) \<le> 16" if "h \<in> {h_general, h_content_length,
      h_matching_connection_token, h_transfer_encoding_chunked}"
    using value_frame_D(4) [OF v] index_inv_general [of h] that by auto
  have next_ok: ?thesis if "header_value_switch d h fr = Value_next fr1 h1"
    "value_frame d h1 fr1 \<and> pos fr1 = pos fr" "usr fr1 = usr fr" for fr1 h1
    using that p by auto
  have usr: "usr fr1 = usr fr" if "match_value s m h' h cc fr = Value_next fr1 h1" for s m h' cc fr1 h1
    using that by (auto simp: match_value_def Let_def)
  have matching: ?thesis if "header_value_switch d h fr = match_value s m hit h cc fr"
    "match_length h = length s" "length s \<le> 17" "h \<notin> {h_C, h_CO, h_CON, h_matching_connection_token_start}"
    "m \<in> {h_general, h_matching_connection_token}"
    "hit \<in> {h_transfer_encoding_chunked, h_connection_keep_alive, h_connection_close, h_connection_upgrade}"
    for s m hit cc
  proof -
    obtain fr1 h1 where e: "match_value s m hit h cc fr = Value_next fr1 h1"
      by (simp add: match_value_def Let_def)
    show ?thesis
      by (rule next_ok [OF trans [OF that(1) e] match_value_frame [OF v that(2-6) e] usr [OF e]])
  qed
  have token_end: ?thesis if "header_value_switch d h fr = connection_token_end h F fr"
    "h \<in> {h_connection_keep_alive, h_connection_close, h_connection_upgrade}" for F
  proof -
    obtain fr1 h1 where e: "connection_token_end h F fr = Value_next fr1 h1"
      by (cases "connection_token_end h F fr") (auto simp: connection_token_end_def split: if_splits)
    then have "usr fr1 = usr fr" by (auto simp: connection_token_end_def split: if_splits)
    from next_ok [OF trans [OF that(1) e] connection_token_end_frame [OF v e that(2)] this]
    show ?thesis .
  qed
  have "value_header_state h" using value_frame_D [OF v] by simp
  then consider "h = h_general" | "h = h_content_length" | "h = h_matching_connection_token_start"
    | "h = h_matching_connection_token" | "h = h_transfer_encoding_chunked"
    | "h \<in> {h_connection_keep_alive, h_connection_close, h_connection_upgrade}"
    | "h \<in> {h_matching_transfer_encoding_chunked, h_matching_connection_keep_alive,
        h_matching_connection_close, h_matching_connection_upgrade}"
    unfolding value_header_state_def by blast
  then show ?thesis
  proof cases
    case 1
    have b: "pos fr \<le> skip_value d (pos fr)" "skip_value d (pos fr) < length d"
      using skip_value_bounds [OF p] c by auto
    have "value_frame d h (fr\<lparr>pos := skip_value d (pos fr)\<rparr>)"
      by (rule value_frame_pos [OF v]) (use b in auto)
    with b 1 show ?thesis by (simp add: header_value_switch_def)
  next
    case 2
    have "pos fr1 = pos fr \<and> usr fr1 = usr fr"
      if "content_length_step h_content_length fr = Value_next fr1 h1" for fr1 h1
      using that by (auto simp: content_length_step_def Let_def split: if_splits)
    moreover have "(\<exists>fr1 h1. content_length_step h_content_length fr = Value_next fr1 h1) \<or>
        (\<exists>fr1. content_length_step h_content_length fr = Value_exit (fail HPE_INVALID_CONTENT_LENGTH fr1) \<and>
            pos fr1 = pos fr \<and> usr fr1 = usr fr)"
      unfolding content_length_step_def Let_def
      by (auto intro!: exI [of _ "with_parser (\<lambda>hp. hp\<lparr>header_state := h_content_length\<rparr>) fr"])
    ultimately show ?thesis
      using content_length_step_frame [OF v [unfolded 2]] p 2 by (auto simp: header_value_switch_def)
  next
    case 3
    define h1 where "h1 = (let c = LOWER (cur fr) in if c = CHR ''k'' then h_matching_connection_keep_alive
             else if c = CHR ''c'' then h_matching_connection_close
             else if c = CHR ''u'' then h_matching_connection_upgrade
             else if STRICT_TOKEN c \<noteq> NUL then h_matching_connection_token
             else if c = CHR '' '' \<or> c = CHR 0x09 then h_matching_connection_token_start
             else h_general)"
    have "value_frame d h1 fr" by (rule token_start_frame [OF v [unfolded 3]]) (simp add: h1_def Let_def)
    moreover have "header_value_switch d h fr = Value_next fr h1"
      by (simp add: 3 header_value_switch_def h1_def Let_def)
    ultimately show ?thesis using next_ok by blast
  next
    case 4
    have "value_frame d h_matching_connection_token_start (with_parser (\<lambda>hp. hp\<lparr>index := 0\<rparr>) fr)"
      by (rule value_frame_parser [OF v])
         (use value_frame_D [OF v] in \<open>simp_all add: base_inv_def value_header_state_def index_inv_def\<close>)
    with 4 v p show ?thesis by (auto simp: header_value_switch_def)
  next
    case 5
    have "value_frame d h_general fr"
      by (rule value_frame_h [OF v]) (use i16 5 in \<open>simp_all add: value_header_state_def index_inv_def match_length_def\<close>)
    with 5 v p show ?thesis by (auto simp: header_value_switch_def)
  next
    case 6
    then have "\<exists>F. header_value_switch d h fr = connection_token_end h F fr"
      by (auto simp: header_value_switch_def)
    with token_end 6 show ?thesis by blast
  next
    case 7
    define cc where "cc = LOWER (cur fr)"
    from 7 show ?thesis
      using matching [of "''chunked''" h_general h_transfer_encoding_chunked cc]
        matching [of "''keep-alive''" h_matching_connection_token h_connection_keep_alive cc]
        matching [of "''close''" h_matching_connection_token h_connection_close cc]
        matching [of "''upgrade''" h_matching_connection_token h_connection_upgrade cc]
      by (elim insertE emptyE)
         (simp_all only: header_value_switch_def Let_def header_states.case match_length_def cc_def, simp_all)
  qed
qed


section \<open>The cases with callbacks\<close>

lemma nread_add:
  "\<not> HTTP_MAX_HEADER_SIZE < unat (nread hp + of_nat v) \<Longrightarrow> base_inv hp \<Longrightarrow> base_inv (add_nread v hp)"
  by (simp add: base_inv_def)

lemma plain_states:
  "plain_state s_header_almost_done" "plain_state s_header_field_start" "plain_state s_header_value_discard_ws"
  "plain_state s_res_line_almost_done" "plain_state s_req_http_start" "plain_state s_req_line_almost_done"
  "plain_state s_message_done" "plain_state s_chunk_data_done" "plain_state s_headers_done"
  "plain_state s_chunk_size_start" "plain_state s_res_H" "plain_state s_res_or_resp_H" "plain_state s_start_req"
  "plain_state s_req_method" "plain_state s_start_res" "plain_state s_start_req_or_res"
  "plain_state s_headers_almost_done" "plain_state s_chunk_size_almost_done" "plain_state s_dead"
  "plain_state s_header_value_start" "plain_state s_header_value_discard_lws" "plain_state s_res_status_start"
  by (simp_all add: state_classes)

lemma plain_NEW_MESSAGE [simp]: "plain_state (NEW_MESSAGE hp)"
  using NEW_MESSAGE_cases [of hp] by (auto simp: state_classes)

lemma core_invI: "base_inv hp \<Longrightarrow> state_inv n s hp \<Longrightarrow> core_inv n s hp"
  by (simp add: core_inv_def)

context http_buffer_callbacks
begin

lemma header_value_done_ok:
  assumes "http_errno (parser fr) = HPE_OK" "base_inv (parser fr)" "uinv (usr fr)" "0 < length d"
    and "pos fr \<le> length d"
    and end_of_data: "pos fr = length d \<Longrightarrow> value_frame d h fr"
    and inside: "pos fr < length d \<Longrightarrow> p_state fr = s_header_almost_done \<and> (\<forall>g. mark_of g fr = None)"
    and start: "pos fr = length d \<Longrightarrow> the (header_value_mark fr) < length d"
  shows "pass_ok uinv d r (header_value_done d start h fr)"
proof (cases "HTTP_MAX_HEADER_SIZE < unat (nread (parser fr) + of_nat (pos fr - start))")
  case True
  with assms show ?thesis by (simp add: header_value_done_def)
next
  case False
  define fr1 where "fr1 = with_parser (add_nread (pos fr - start)) (with_parser (\<lambda>hp. hp\<lparr>header_state := h\<rparr>) fr)"
  have p1: "parser fr1 = add_nread (pos fr - start) ((parser fr)\<lparr>header_state := h\<rparr>)" by (simp add: fr1_def)
  have b: "base_inv (parser fr1)" "http_errno (parser fr1) = HPE_OK"
    using False assms(1,2) by (simp_all add: p1 base_inv_def)
  have "frame_inv 0 d fr1" if lt: "pos fr < length d"
    by (rule frame_plainI) (use b inside [OF lt] lt in \<open>simp_all add: fr1_def plain_states state_inv_def\<close>)
  moreover have "frame_inv 0 d (fr1\<lparr>pos := pos fr1 - 1\<rparr>)" if eq: "pos fr = length d"
  proof -
    from end_of_data [OF eq] have v: "p_state fr = s_header_value" "value_header_state h"
      "index_inv h (index (parser fr))" "\<forall>g. g \<noteq> FOR_header_value \<longrightarrow> mark_of g fr = None"
      "\<exists>m. header_value_mark fr = Some m" by (auto simp: value_frame_def)
    from v(4) have n: "header_field_mark fr = None" "url_mark fr = None" "body_mark fr = None" "status_mark fr = None"
      using spec [OF v(4), of FOR_header_field] spec [OF v(4), of FOR_url]
        spec [OF v(4), of FOR_body] spec [OF v(4), of FOR_status] by simp_all
    from v(5) start [OF eq] obtain m where m: "header_value_mark fr = Some m" "m < length d" by auto
    have fields: "header_field_mark fr1 = None" "url_mark fr1 = None" "body_mark fr1 = None" "status_mark fr1 = None"
      "header_value_mark fr1 = Some m" using n m by (simp_all add: fr1_def with_parser_def)
    show ?thesis
      unfolding frame_inv_def core_inv_def marks_inv_def
      using b v m eq assms(4) fields
      by (simp add: fr1_def state_inv_def state_classes base_inv_def)
  qed
  ultimately show ?thesis
    using False assms(3,5) by (simp add: header_value_done_def fr1_def)
qed

lemma header_value_CR_ok:
  assumes v: "value_frame d h fr" and u: "uinv (usr fr)" and p: "pos fr < length d"
  shows "pass_ok uinv d r (CALLBACK_DATA S d FOR_header_value
      (with_parser (\<lambda>hp. hp\<lparr>header_state := h\<rparr>) (UPDATE_STATE s_header_almost_done fr))
      (header_value_done d start h))"
  unfolding CALLBACK_DATA_def
proof (rule DATA_ok, goal_cases)
  case (6 s u)
  show ?case
    by (rule header_value_done_ok) (use v 6 p in \<open>auto simp: value_frame_def base_inv_def\<close>)
qed (use v u p in \<open>auto simp: value_frame_def base_inv_def state_inv_def core_inv_def frame_upd_defs\<close>)

lemma header_value_LF_ok:
  assumes v: "value_frame d h fr" and u: "uinv (usr fr)" and p: "pos fr < length d"
  shows "pass_ok uinv d 2 (COUNT_HEADER_SIZE (pos fr - start) (UPDATE_STATE s_header_almost_done fr)
      (\<lambda>fr1. CALLBACK_DATA_NOADVANCE S d FOR_header_value
         (with_parser (\<lambda>hp. hp\<lparr>header_state := h\<rparr>) fr1) Reexecute))"
proof (cases "HTTP_MAX_HEADER_SIZE < unat (nread (parser fr) + of_nat (pos fr - start))")
  case True
  with u p show ?thesis by simp
next
  case False
  define fr1 where "fr1 = with_parser (\<lambda>hp. hp\<lparr>header_state := h\<rparr>)
      (with_parser (add_nread (pos fr - start)) (UPDATE_STATE s_header_almost_done fr))"
  have b: "base_inv (parser fr1)" "http_errno (parser fr1) = HPE_OK" "p_state fr1 = s_header_almost_done"
    "pos fr1 = pos fr" "usr fr1 = usr fr" "\<And>g. mark_of g fr1 = mark_of g fr"
    using False value_frame_D [OF v] by (simp_all add: fr1_def base_inv_def)
  have "pass_ok uinv d 2 (CALLBACK_DATA_NOADVANCE S d FOR_header_value fr1 Reexecute)"
    unfolding CALLBACK_DATA_NOADVANCE_def
  proof (rule DATA_ok, goal_cases)
    case (6 s u)
    have "frame_inv 1 d (set_mark FOR_header_value None (adj fr1 s u))"
      by (rule frame_unmarkI) (use v b p in \<open>auto simp: value_frame_def plain_states state_inv_def\<close>)
    with 6 b show ?case by (simp add: reexec_rank_def)
  next
    case (5 m)
    with v b p show ?case by (auto simp: value_frame_def)
  qed (use u b p in \<open>auto simp: state_inv_def core_inv_def\<close>)
  with False show ?thesis by (simp add: fr1_def)
qed

lemma header_value_loop_ok:
  assumes "value_frame d h fr" "uinv (usr fr)" "the (header_value_mark fr) < length d"
  shows "pass_ok uinv d 2 (header_value_loop S d start h fr)"
  using assms
proof (induction "length d - pos fr" arbitrary: h fr rule: less_induct)
  case less
  show ?case
  proof (cases "pos fr < length d")
    case False
    with value_frame_D [OF less.prems(1)] have "pos fr = length d" by simp
    have "pass_ok uinv d 2 (header_value_done d start h fr)"
      by (rule header_value_done_ok)
         (use \<open>pos fr = length d\<close> less.prems value_frame_D [OF less.prems(1)] in auto)
    with False show ?thesis
      unfolding header_value_loop.simps [of S d start h fr] by simp
  next
    case True
    define fr0 where "fr0 = fr\<lparr>cur := d ! pos fr\<rparr>"
    have v0: "value_frame d h fr0" and f0: "usr fr0 = usr fr" "pos fr0 = pos fr" "cur fr0 = d ! pos fr0"
      "header_value_mark fr0 = header_value_mark fr"
      using less.prems(1) by (simp_all add: fr0_def)
    have step: "pass_ok uinv d 2 (case header_value_switch d h fr0 of Value_exit fl \<Rightarrow> fl
        | Value_next fr1 h1 \<Rightarrow> header_value_loop S d start h1 (fr1\<lparr>pos := pos fr1 + 1\<rparr>))"
      if "cur fr0 \<noteq> CR" "cur fr0 \<noteq> LF"
    proof -
      from header_value_switch_frame [OF v0 _ f0(3) that] True f0
      consider fr1 h1 where "header_value_switch d h fr0 = Value_next fr1 h1" "value_frame d h1 fr1"
            "pos fr \<le> pos fr1" "pos fr1 < length d" "usr fr1 = usr fr"
        | fr1 where "header_value_switch d h fr0 = Value_exit (fail HPE_INVALID_CONTENT_LENGTH fr1)"
            "pos fr1 = pos fr" "usr fr1 = usr fr" by auto
      then show ?thesis
      proof cases
        case (1 fr1 h1)
        have "header_value_mark fr1 = header_value_mark fr"
          using 1(1) f0(4) by (cases h) (auto simp: value_step_defs frame_upd_defs Let_def split: if_splits)
        with less.hyps [of "fr1\<lparr>pos := pos fr1 + 1\<rparr>" h1] 1 True less.prems
          value_frame_pos [OF 1(2), of "pos fr1 + 1"]
        show ?thesis by simp
      next
        case 2
        with True less.prems show ?thesis by simp
      qed
    qed
    show ?thesis
      unfolding header_value_loop.simps [of S d start h fr] fr0_def [symmetric] Let_def
      using True step header_value_CR_ok [OF v0] header_value_LF_ok [OF v0] less.prems f0
      by (simp del: pass_ok_COUNT with_parser_UPDATE_STATE)
  qed
qed

lemma header_value_ok:
  assumes inv: "frame_inv 1 d fr" and s: "p_state fr = s_header_value" and u: "uinv (usr fr)"
  shows "pass_ok uinv d 2 (case_header_value S d fr)"
proof -
  note f = frame_invD [OF inv]
  have "mark_of g fr = None" if "g \<noteq> FOR_header_value" for g
    by (rule frame_mark_class [OF inv]) (use s that in \<open>auto simp: state_class_def\<close>)
  moreover obtain m where m: "header_value_mark fr = Some m"
    using f(6) s by (auto simp: marks_inv_def)
  moreover have "m \<le> pos fr" using frame_mark_le [OF inv, of FOR_header_value] m by simp
  ultimately have "value_frame d (header_state (parser fr)) fr"
    using f s by (auto simp: value_frame_def state_inv_def)
  with u m \<open>m \<le> pos fr\<close> f(4) show ?thesis by (simp add: case_header_value_def header_value_loop_ok)
qed

end

end
