(* ===== verification/Http_Returns.thy ===== *)
theory Http_Returns
  imports Http_Progress
begin

text \<open>
  The cases of the switch that run a callback and leave it, all cases put together, and the
  loops: under the locale \<open>http_buffer_callbacks\<close> the \<open>reexecute\<close> loop ends because the rank of the state
  falls, the loop over the bytes ends because the position grows, and \<open>http_parser_execute\<close>
  returns with the invariant of the parser.
\<close>

section \<open>Invariants under the updates of the cases\<close>

lemma base_inv_upd [simp]:
  "base_inv (set_flag F hp) = base_inv hp" "base_inv (header_flag hp) = base_inv hp"
  "base_inv (hp\<lparr>upgrade := b\<rparr>) = base_inv hp" "base_inv (hp\<lparr>content_length := c\<rparr>) = base_inv hp"
  "base_inv (hp\<lparr>flags := g\<rparr>) = base_inv hp" "base_inv (hp\<lparr>ptype := t\<rparr>) = base_inv hp"
  "base_inv (hp\<lparr>method_of := m\<rparr>) = base_inv hp" "base_inv (hp\<lparr>header_state := h\<rparr>) = base_inv hp"
  "base_inv (hp\<lparr>http_errno := e\<rparr>) = base_inv hp"
  by (simp_all add: base_inv_def)

lemma base_inv_nread: "base_inv hp \<Longrightarrow> base_inv (hp\<lparr>nread := 0\<rparr>)"
  by (simp add: base_inv_def)

lemma base_inv_index: "base_inv hp \<Longrightarrow> unat i \<le> 17 \<Longrightarrow> base_inv (hp\<lparr>index := i\<rparr>)"
  by (simp add: base_inv_def)

lemma has_flag_upd [simp]:
  "has_flag (hp\<lparr>nread := v\<rparr>) F = has_flag hp F" "has_flag (hp\<lparr>state := s\<rparr>) F = has_flag hp F"
  "has_flag (hp\<lparr>upgrade := b\<rparr>) F = has_flag hp F"
  by (simp_all add: has_flag_def)

lemma index_inv_le: "index_inv h i \<Longrightarrow> unat i \<le> 16"
  by (cases h) (auto simp: index_inv_def match_length_def)

lemma start_req_method_length:
  "1 \<le> length (method_strings ! method_num m)"
  using method_length(1) [of m] by linarith

text \<open>A frame of a marked state: what the callbacks of its field rely on.\<close>

lemma frame_other_marks:
  assumes "frame_inv n d fr" "state_class (p_state fr) = Some f" "g \<noteq> f"
  shows "mark_of g fr = None"
  by (rule frame_mark_class [OF assms(1)]) (use assms in simp)

lemma frame_no_marks:
  assumes "frame_inv n d fr" "plain_state (p_state fr)"
  shows "mark_of g fr = None"
  by (rule frame_mark_class [OF assms(1)]) (use assms(2) in \<open>simp add: state_class_def plain_state_def\<close>)

lemma mark_of_MARK [simp]:
  "mark_of g (MARK f fr) = (if g = f \<and> mark_of f fr = None then Some (pos fr) else mark_of g fr)"
  by (simp add: MARK_def)

lemma MARK_fields [simp]:
  "parser (MARK f fr) = parser fr" "p_state (MARK f fr) = p_state fr" "pos (MARK f fr) = pos fr"
  "cur (MARK f fr) = cur fr" "usr (MARK f fr) = usr fr"
  by (simp_all add: MARK_def)

lemma mark_of_record [simp]:
  "mark_of g (fr\<lparr>parser := a\<rparr>) = mark_of g fr" "mark_of g (fr\<lparr>pos := b\<rparr>) = mark_of g fr"
  "mark_of g (fr\<lparr>cur := c\<rparr>) = mark_of g fr" "mark_of g (fr\<lparr>p_state := s\<rparr>) = mark_of g fr"
  "mark_of g (fr\<lparr>usr := u\<rparr>) = mark_of g fr"
  by (cases g; simp)+

text \<open>A frame with the one mark its state calls for.\<close>

lemma frame_markI:
  assumes "http_errno (parser fr) = HPE_OK" "base_inv (parser fr)" "state_inv n (p_state fr) (parser fr)"
    and "state_class (p_state fr) = Some f" "pos fr < length d"
    and "mark_of f fr = Some m" "m \<le> pos fr" "\<And>g. g \<noteq> f \<Longrightarrow> mark_of g fr = None"
  shows "frame_inv n d fr"
proof -
  have "marks_inv fr"
    using assms(4,6,7) assms(8) [of FOR_header_field] assms(8) [of FOR_header_value] assms(8) [of FOR_url]
      assms(8) [of FOR_body] assms(8) [of FOR_status]
    by (cases f) (auto simp: marks_inv_def state_class_def state_classes split: if_splits)
  with assms(1-3,5) show ?thesis by (simp add: frame_inv_def core_inv_def)
qed


section \<open>Cases that set a mark\<close>

lemma frame_new_mark:
  assumes inv: "frame_inv 1 d fr" and p: "plain_state (p_state fr)" and c: "state_class t = Some f"
    and g: "base_inv (g (parser fr))" "http_errno (g (parser fr)) = HPE_OK" "state_inv 0 t (g (parser fr))"
  shows "frame_inv 0 d (UPDATE_STATE t (with_parser g (MARK f fr)))"
  by (rule frame_markI [where f = f and m = "pos fr"])
     (use g c frame_invD [OF inv] frame_no_marks [OF inv p] in \<open>simp_all\<close>)

lemma res_status_start_ok:
  assumes inv: "frame_inv 1 d fr" and s: "p_state fr = s_res_status_start" and u: "I (usr fr)"
  shows "pass_ok I d r (case_res_status_start fr)"
proof -
  have p: "plain_state (p_state fr)" using s by (simp add: plain_states)
  have "frame_inv 0 d (UPDATE_STATE s_res_status (with_parser (\<lambda>hp. hp\<lparr>index := 0\<rparr>) (MARK FOR_status fr)))"
    by (rule frame_new_mark [OF inv p])
       (use frame_invD [OF inv] in \<open>simp_all add: state_class_def base_inv_index state_inv_def\<close>)
  then show ?thesis
    using frame_goto [OF inv p] u by (simp add: case_res_status_start_def plain_states state_inv_def)
qed

lemma header_field_start_ok:
  assumes inv: "frame_inv 1 d fr" and s: "p_state fr = s_header_field_start" and u: "I (usr fr)"
  shows "pass_ok I d 3 (case_header_field_start fr)"
proof -
  have p: "plain_state (p_state fr)" using s by (simp add: plain_states)
  have "frame_inv 0 d (UPDATE_STATE s_header_field
      (with_parser (\<lambda>hp. hp\<lparr>index := 0, header_state := h\<rparr>) (MARK FOR_header_field fr)))"
    if "h \<in> {h_C, h_matching_proxy_connection, h_matching_transfer_encoding, h_matching_upgrade, h_general}" for h
    by (rule frame_new_mark [OF inv p])
       (use frame_invD [OF inv] that in
         \<open>auto simp: state_class_def base_inv_index state_inv_def field_header_state_def index_inv_def match_length_def\<close>)
  then show ?thesis
    using frame_goto [OF inv p] u frame_invD [OF inv]
    by (simp add: case_header_field_start_def Let_def plain_states state_inv_def reexec_rank_def)
qed

lemma header_value_start_ok:
  assumes inv: "frame_inv 1 d fr" and p: "plain_state (p_state fr)" and u: "I (usr fr)"
  shows "pass_ok I d r (case_header_value_start fr)"
proof -
  note f = frame_invD [OF inv]
  have start: "frame_inv 0 d (UPDATE_STATE s_header_value (with_parser g (MARK FOR_header_value fr)))"
    if "base_inv (g (parser fr))" "http_errno (g (parser fr)) = HPE_OK"
      "value_header_state (header_state (g (parser fr)))" "index (g (parser fr)) = 0" for g
    by (rule frame_new_mark [OF inv p])
       (use that in \<open>auto simp: state_class_def state_inv_def index_inv_def match_length_def value_header_state_def\<close>)
  have comp: "with_parser k (with_parser j fr') = with_parser (\<lambda>hp. k (j hp)) fr'" for k j and fr' :: "'a frame"
    by (simp add: with_parser_def)
  show ?thesis
    unfolding case_header_value_start_def
    by (cases "header_state (parser fr)")
       (use f u in \<open>simp_all add: Let_def comp start base_inv_index value_header_state_def\<close>)
qed

lemma header_value_discard_ws_ok:
  assumes inv: "frame_inv 1 d fr" and s: "p_state fr = s_header_value_discard_ws" and u: "I (usr fr)"
  shows "pass_ok I d r (case_header_value_discard_ws fr)"
proof -
  have p: "plain_state (p_state fr)" using s by (simp add: plain_states)
  have "plain_state s_header_value_discard_ws_almost_done" by (simp add: state_classes)
  then show ?thesis
    using frame_goto [OF inv p] u header_value_start_ok [where I = I, OF inv p u] s plain_frame_inv [OF inv, of 0]
    by (simp add: case_header_value_discard_ws_def plain_states state_inv_def)
qed


section \<open>Cases with a callback\<close>

context http_buffer_callbacks
begin

lemma notify_break:
  assumes "frame_inv 0 d fr" "uinv (usr fr)"
  shows "pass_ok uinv d r (CALLBACK_NOTIFY S f fr Break)"
  unfolding CALLBACK_NOTIFY_def
  by (rule NOTIFY_ok) (use assms frame_invD [OF assms(1)] in auto)

lemma data_break:
  assumes "\<And>g. g \<noteq> f \<Longrightarrow> mark_of g fr = None" "\<And>m. mark_of f fr = Some m \<Longrightarrow> m \<le> pos fr"
    and "plain_state (p_state fr)" "http_errno (parser fr) = HPE_OK" "base_inv (parser fr)"
    and "state_inv 0 (p_state fr) (parser fr)" "pos fr < length d" "uinv (usr fr)"
  shows "pass_ok uinv d r (CALLBACK_DATA S d f fr Break)"
  unfolding CALLBACK_DATA_def
proof (rule DATA_ok, goal_cases)
  case (6 s u)
  with frame_unmarkI [of f fr 0 d s u] assms show ?case by simp
next
  case (5 m)
  with assms show ?case by force
qed (use assms in \<open>auto simp: core_inv_def\<close>)

lemma start_req_or_res_ok:
  assumes inv: "frame_inv 1 d fr" and s: "p_state fr = s_start_req_or_res" and u: "uinv (usr fr)"
  shows "pass_ok uinv d 2 (case_start_req_or_res S fr)"
proof -
  note f = frame_invD [OF inv]
  have move: "frame_inv 0 d (UPDATE_STATE t (with_parser g fr))" "frame_inv 1 d (UPDATE_STATE t (with_parser g fr))"
    if "plain_state t" "base_inv (g (parser fr))" "http_errno (g (parser fr)) = HPE_OK"
      "\<And>n. state_inv n t (g (parser fr))" for t g
    using frame_move [OF inv] that s by (auto simp: plain_states)
  have comp: "with_parser g (with_parser h fr) = with_parser (g \<circ> h) fr" for g h
    by (simp add: with_parser_def)
  show ?thesis
    using s u f plain_frame_inv [OF inv, of 0]
    by (auto simp: case_start_req_or_res_def Let_def comp state_inv_def reexec_rank_def plain_states
        intro!: notify_break move)
qed

lemma start_res_ok:
  assumes inv: "frame_inv 1 d fr" and s: "p_state fr = s_start_res" and u: "uinv (usr fr)"
  shows "pass_ok uinv d r (case_start_res S fr)"
proof -
  note f = frame_invD [OF inv]
  have p: "plain_state (p_state fr)" using s by (simp add: plain_states)
  have "frame_inv 0 d (with_parser (\<lambda>hp. hp\<lparr>flags := 0, content_length := ULLONG_MAX\<rparr>) fr)"
    by (rule frame_stay [OF inv p]) (use f s in \<open>simp_all add: state_inv_def\<close>)
  moreover have "frame_inv 0 d (UPDATE_STATE s_res_H (with_parser (\<lambda>hp. hp\<lparr>flags := 0, content_length := ULLONG_MAX\<rparr>) fr))"
    by (rule frame_move [OF inv p]) (use f in \<open>simp_all add: state_inv_def plain_states\<close>)
  ultimately show ?thesis
    using u f by (simp add: case_start_res_def Let_def notify_break)
qed

lemma start_req_ok:
  assumes inv: "frame_inv 1 d fr" and s: "p_state fr = s_start_req" and u: "uinv (usr fr)"
  shows "pass_ok uinv d r (case_start_req S fr)"
proof -
  note f = frame_invD [OF inv]
  have p: "plain_state (p_state fr)" using s by (simp add: plain_states)
  have "frame_inv 0 d (UPDATE_STATE s_req_method (with_parser
      (\<lambda>hp. hp\<lparr>flags := 0, content_length := ULLONG_MAX, method_of := m, index := 1\<rparr>) fr))" for m
    by (rule frame_move [OF inv p])
       (use f start_req_method_length [of m] in \<open>simp_all add: state_inv_def plain_states base_inv_index\<close>)
  moreover have "with_parser (\<lambda>hp. hp\<lparr>method_of := m\<rparr>) (with_parser (\<lambda>hp. hp\<lparr>method_of := HTTP_DELETE, index := 1\<rparr>)
      (with_parser (\<lambda>hp. hp\<lparr>flags := 0, content_length := ULLONG_MAX\<rparr>) fr)) =
      with_parser (\<lambda>hp. hp\<lparr>flags := 0, content_length := ULLONG_MAX, method_of := m, index := 1\<rparr>) fr" for m
    by (simp add: with_parser_def)
  ultimately show ?thesis
    using u f plain_frame_inv [OF inv, of 0] s
    by (auto simp: case_start_req_def Let_def notify_break split: option.split)
qed

lemma res_status_ok:
  assumes inv: "frame_inv 1 d fr" and s: "p_state fr = s_res_status" and u: "uinv (usr fr)"
  shows "pass_ok uinv d r (case_res_status S d fr)"
proof -
  note f = frame_invD [OF inv]
  have c: "state_class (p_state fr) = Some FOR_status" using s by (simp add: state_class_def)
  have "pass_ok uinv d r (CALLBACK_DATA S d FOR_status (UPDATE_STATE t fr) Break)"
    if "t = s_res_line_almost_done \<or> t = s_header_field_start" for t
    by (rule data_break)
       (use that f u frame_other_marks [OF inv c] frame_mark_le [OF inv, of FOR_status] in
         \<open>auto simp: plain_states state_inv_def\<close>)
  then show ?thesis
    using u plain_frame_inv [OF inv, of 0] s by (simp add: case_res_status_def)
qed

lemma req_url_ok:
  assumes inv: "frame_inv 1 d fr" and s: "url_state (p_state fr)" and u: "uinv (usr fr)"
  shows "pass_ok uinv d r (case_req_url S d fr)"
proof -
  note f = frame_invD [OF inv]
  have c: "state_class (p_state fr) = Some FOR_url"
    using s by (auto simp: state_class_def url_state_def)
  have "pass_ok uinv d r (CALLBACK_DATA S d FOR_url (UPDATE_STATE t (with_parser g fr)) Break)"
    if "t = s_req_http_start \<or> t = s_req_line_almost_done \<or> t = s_header_field_start"
      "base_inv (g (parser fr))" "http_errno (g (parser fr)) = HPE_OK" for t g
    by (rule data_break)
       (use that f u frame_other_marks [OF inv c] frame_mark_le [OF inv, of FOR_url] in
         \<open>auto simp: plain_states state_inv_def\<close>)
  note data = this this [where g = "\<lambda>hp. hp", unfolded with_parser_def, simplified]
  have m: "url_mark fr \<noteq> None" using f(6) s by (simp add: marks_inv_def)
  have "base_inv ((parser fr)\<lparr>http_major := 0, http_minor := 9\<rparr>)"
    using f(2) by (simp add: base_inv_def)
  then show ?thesis
    using data u f frame_url [OF inv m _ s] by (simp add: case_req_url_def url_step_ok)
qed

lemma header_field_ok:
  assumes inv: "frame_inv 1 d fr" and s: "p_state fr = s_header_field" and u: "uinv (usr fr)"
  shows "pass_ok uinv d r (case_header_field S d fr)"
proof -
  note f = frame_invD [OF inv]
  have c: "state_class (p_state fr) = Some FOR_header_field" using s by (simp add: state_class_def)
  obtain m where m: "header_field_mark fr = Some m" "m \<le> pos fr"
    using f(6) s by (auto simp: marks_inv_def)
  have "field_inv (parser fr)" using f(3) s by (auto simp: field_inv_def state_inv_def index_inv_le)
  from header_field_loop_inv [OF this, of "drop (pos fr) d" "pos fr" "cur fr"] f(5)
  obtain hp p c where l: "header_field_loop (drop (pos fr) d) (pos fr) (cur fr) (parser fr) = Some (hp, p, c)"
    "field_inv hp" "same_but_match (parser fr) hp" "pos fr \<le> p" "p \<le> length d" by auto
  define fr1 where "fr1 = with_parser (add_nread (p - pos fr)) (fr\<lparr>parser := hp, pos := p, cur := c\<rparr>)"
  have hp: "base_inv hp" "http_errno hp = HPE_OK"
    using same_but_match_base [OF l(3)] l(2) f(1,2) by (auto simp: field_inv_def)
  have "pass_ok uinv d r (if pos fr1 = length d then Break (fr1\<lparr>pos := pos fr1 - 1\<rparr>)
      else if cur fr1 = CHR '':'' then
        CALLBACK_DATA S d FOR_header_field (UPDATE_STATE s_header_value_discard_ws fr1) Break
      else fail HPE_INVALID_HEADER_TOKEN fr1)"
    if n: "\<not> HTTP_MAX_HEADER_SIZE < unat (nread hp + of_nat (p - pos fr))"
  proof -
    have b: "base_inv (parser fr1)" "http_errno (parser fr1) = HPE_OK" "pos fr1 = p" "usr fr1 = usr fr"
      "\<And>g. mark_of g fr1 = mark_of g fr" "p_state fr1 = s_header_field" "field_inv (parser fr1)"
      using nread_add [OF n hp(1)] hp l(2) s by (simp_all add: fr1_def field_inv_def)
    have "frame_inv 0 d (fr1\<lparr>pos := p - 1\<rparr>)" if "p = length d"
      by (rule frame_markI [where f = FOR_header_field and m = m])
         (use b m f(4) that frame_other_marks [OF inv \<open>state_class (p_state fr) = _\<close>] in
           \<open>auto simp: state_class_def state_inv_def field_inv_def simp del: mark_of.simps(2-5)\<close>)
    moreover have "pass_ok uinv d r (CALLBACK_DATA S d FOR_header_field (UPDATE_STATE s_header_value_discard_ws fr1) Break)"
      if "p \<noteq> length d"
      by (rule data_break)
         (use b m that l u frame_other_marks [OF inv \<open>state_class (p_state fr) = _\<close>] in
           \<open>auto simp: plain_states state_inv_def simp del: mark_of.simps(2-5)\<close>)
    ultimately show ?thesis using b u l by simp
  qed
  with l u show ?thesis
    by (cases "HTTP_MAX_HEADER_SIZE < unat (nread hp + of_nat (p - pos fr))")
       (simp_all add: case_header_field_def fr1_def [symmetric] del: of_nat_diff split: if_splits)
qed

lemma chunk_size_almost_done_ok:
  assumes inv: "frame_inv 1 d fr" and s: "p_state fr = s_chunk_size_almost_done" and u: "uinv (usr fr)"
  shows "pass_ok uinv d r (case_chunk_size_almost_done S fr)"
proof -
  note f = frame_invD [OF inv]
  have p: "plain_state (p_state fr)" using s by (simp add: plain_states)
  have i: "has_flag (parser fr) F_CHUNKED" "content_length (parser fr) \<noteq> ULLONG_MAX"
    using f(3) s by (auto simp: state_inv_def)
  have "frame_inv 0 d (UPDATE_STATE s_header_field_start (with_parser (set_flag F_TRAILING)
      (with_parser (\<lambda>hp. hp\<lparr>nread := 0\<rparr>) fr)))"
    by (rule frame_plainI) (use f frame_no_marks [OF inv p] in \<open>simp_all add: base_inv_nread plain_states state_inv_def\<close>)
  moreover have "frame_inv 0 d (UPDATE_STATE s_chunk_data (with_parser (\<lambda>hp. hp\<lparr>nread := 0\<rparr>) fr))"
    if "content_length (parser fr) \<noteq> 0"
  proof -
    have "marks_inv (UPDATE_STATE s_chunk_data (with_parser (\<lambda>hp. hp\<lparr>nread := 0\<rparr>) fr))"
      using frame_marks_plain [OF inv p] by (simp add: marks_inv_def frame_upd_defs state_classes)
    with f i that show ?thesis by (simp add: frame_inv_def core_inv_def base_inv_nread state_inv_def)
  qed
  ultimately show ?thesis
    using u f i by (simp add: case_chunk_size_almost_done_def Let_def notify_break pass_err_def)
qed

lemma chunk_data_almost_done_ok:
  assumes inv: "frame_inv 1 d fr" and s: "p_state fr = s_chunk_data_almost_done" and u: "uinv (usr fr)"
  shows "pass_ok uinv d r (case_chunk_data_almost_done S d fr)"
proof -
  note f = frame_invD [OF inv]
  have c: "state_class (p_state fr) = Some FOR_body" using s by (simp add: state_class_def state_classes)
  have i: "has_flag (parser fr) F_CHUNKED" "content_length (parser fr) = 0"
    using f(3) s by (auto simp: state_inv_def)
  have "pass_ok uinv d r (CALLBACK_DATA S d FOR_body (UPDATE_STATE s_chunk_data_done fr) Break)"
    by (rule data_break)
       (use f u i frame_other_marks [OF inv c] frame_mark_le [OF inv, of FOR_body] in
         \<open>auto simp: plain_states state_inv_def\<close>)
  then show ?thesis
    using u f i by (simp add: case_chunk_data_almost_done_def pass_err_def)
qed

lemma chunk_data_done_ok:
  assumes inv: "frame_inv 1 d fr" and s: "p_state fr = s_chunk_data_done" and u: "uinv (usr fr)"
  shows "pass_ok uinv d r (case_chunk_data_done S fr)"
proof -
  note f = frame_invD [OF inv]
  have i: "has_flag (parser fr) F_CHUNKED" using f(3) s by (auto simp: state_inv_def)
  have "frame_inv 0 d (UPDATE_STATE s_chunk_size_start (with_parser (\<lambda>hp. hp\<lparr>nread := 0\<rparr>) fr))"
    by (rule frame_move [OF inv]) (use f i s in \<open>simp_all add: base_inv_nread plain_states state_inv_def\<close>)
  then show ?thesis
    using u f i by (simp add: case_chunk_data_done_def notify_break pass_err_def)
qed

lemma header_value_discard_lws_ok:
  assumes inv: "frame_inv 1 d fr" and s: "p_state fr = s_header_value_discard_lws" and u: "uinv (usr fr)"
  shows "pass_ok uinv d 4 (case_header_value_discard_lws S d fr)"
proof -
  note f = frame_invD [OF inv]
  have p: "plain_state (p_state fr)" using s by (simp add: plain_states)
  define fr1 where "fr1 = UPDATE_STATE s_header_field_start (MARK FOR_header_value (with_parser header_flag fr))"
  have b: "http_errno (parser fr1) = HPE_OK" "base_inv (parser fr1)" "p_state fr1 = s_header_field_start"
    "pos fr1 = pos fr" "usr fr1 = usr fr" "mark_of FOR_header_value fr1 = Some (pos fr)"
    "\<And>g. g \<noteq> FOR_header_value \<Longrightarrow> mark_of g fr1 = None"
    using f frame_no_marks [OF inv p] by (simp_all add: fr1_def del: mark_of.simps)
  have "pass_ok uinv d 4 (CALLBACK_DATA_NOADVANCE S d FOR_header_value fr1 Reexecute)"
    unfolding CALLBACK_DATA_NOADVANCE_def
  proof (rule DATA_ok, goal_cases)
    case (6 s u)
    have "frame_inv 1 d (set_mark FOR_header_value None (adj fr1 s u))"
      by (rule frame_unmarkI) (use b f in \<open>simp_all add: plain_states state_inv_def\<close>)
    with 6 b show ?case by (simp add: reexec_rank_def)
  qed (use b u f in \<open>auto simp: core_inv_def state_inv_def simp del: mark_of.simps\<close>)
  moreover have "frame_inv 0 d (UPDATE_STATE s_header_value_discard_ws fr)"
    by (rule frame_goto [OF inv p]) (simp_all add: plain_states state_inv_def)
  ultimately show ?thesis using u by (simp add: case_header_value_discard_lws_def fr1_def)
qed

text \<open>\<open>on_headers_complete\<close> may also ask to skip the body or to upgrade.\<close>

lemma run_headers_complete_ok:
  assumes "http_errno (parser fr) = HPE_OK" "uinv (usr fr)" "pos fr \<le> length d"
    and k: "\<And>hp u. base_inv hp = base_inv (parser fr) \<Longrightarrow> uinv u \<Longrightarrow>
      http_errno hp \<in> {HPE_OK, HPE_PAUSED} \<Longrightarrow> pass_ok uinv d r (k (fr\<lparr>parser := hp, usr := u\<rparr>))"
  shows "pass_ok uinv d r (run_headers_complete S fr k)"
proof (cases "on_headers_complete S")
  case None
  with k [of "parser fr" "usr fr"] assms show ?thesis by (simp add: run_headers_complete_def)
next
  case (Some cb)
  obtain r' hp u where c: "cb (parser fr) (usr fr) = (r', hp, u)" by (metis prod_cases3)
  from headers_complete_cb [OF Some assms(1,2) c] have u: "uinv u"
    and "hp = parser fr \<or> hp = (parser fr)\<lparr>http_errno := HPE_PAUSED\<rparr>" by auto
  then have hp: "base_inv hp = base_inv (parser fr)" "http_errno hp \<in> {HPE_OK, HPE_PAUSED}"
    using assms(1) by auto
  have "pass_ok uinv d r (k (with_parser g (fr\<lparr>parser := hp, usr := u\<rparr>)))"
    if "base_inv (g hp) = base_inv hp" "http_errno (g hp) = http_errno hp" for g
  proof -
    have "with_parser g (fr\<lparr>parser := hp, usr := u\<rparr>) = fr\<lparr>parser := g hp, usr := u\<rparr>"
      by (simp add: with_parser_def)
    with k [of "g hp" u] u hp that show ?thesis by simp
  qed
  note kg = this [of "\<lambda>hp. hp"] this [of "\<lambda>hp. set_flag F_SKIPBODY (hp\<lparr>upgrade := True\<rparr>)"]
    this [of "set_flag F_SKIPBODY"]
  have "with_parser (set_flag F_SKIPBODY) (with_parser (\<lambda>hp. hp\<lparr>upgrade := True\<rparr>) (fr\<lparr>parser := hp, usr := u\<rparr>)) =
      with_parser (\<lambda>hp. set_flag F_SKIPBODY (hp\<lparr>upgrade := True\<rparr>)) (fr\<lparr>parser := hp, usr := u\<rparr>)"
    "with_parser (\<lambda>hp. hp) (fr\<lparr>parser := hp, usr := u\<rparr>) = fr\<lparr>parser := hp, usr := u\<rparr>"
    by (simp_all add: with_parser_def)
  then show ?thesis
    using Some c kg u assms(3)
    by (simp add: run_headers_complete_def Let_def pass_ret_def parser_inv_def)
qed

lemma headers_almost_done_ok:
  assumes inv: "frame_inv 1 d fr" and s: "p_state fr = s_headers_almost_done" and u: "uinv (usr fr)"
  shows "pass_ok uinv d 2 (case_headers_almost_done S fr)"
proof -
  note f = frame_invD [OF inv]
  have p: "plain_state (p_state fr)" using s by (simp add: plain_states)
  have trailing: "pass_ok uinv d 2
      (CALLBACK_NOTIFY_NOADVANCE S FOR_chunk_complete (UPDATE_STATE s_message_done fr) Reexecute)"
    unfolding CALLBACK_NOTIFY_NOADVANCE_def
    by (rule NOTIFY_ok)
       (use f u frame_goto [OF inv p, of s_message_done 1] in
         \<open>simp_all add: core_inv_def state_inv_def plain_states reexec_rank_def\<close>)
  have rest: "pass_ok uinv d 2 (run_headers_complete S (UPDATE_STATE s_headers_done (with_parser g fr))
      (\<lambda>fr2. if http_errno (parser fr2) \<noteq> HPE_OK then RETURN (pos fr2) fr2 else Reexecute fr2))"
    if g: "base_inv (g (parser fr))" "http_errno (g (parser fr)) = HPE_OK" for g
  proof (rule run_headers_complete_ok, goal_cases)
    case (4 hp v)
    define fr2 where "fr2 = (UPDATE_STATE s_headers_done (with_parser g fr))\<lparr>parser := hp, usr := v\<rparr>"
    have "base_inv hp" using 4(1) g by simp
    then have "frame_inv 1 d fr2" if "http_errno hp = HPE_OK"
      by (intro frame_plainI)
         (use f that frame_no_marks [OF inv p] in \<open>simp_all add: fr2_def plain_states state_inv_def\<close>)
    moreover have "parser_inv (hp\<lparr>state := s_headers_done\<rparr>)"
      using \<open>base_inv hp\<close> by (simp add: parser_inv_def core_inv_def state_inv_def)
    ultimately show ?case
      unfolding fr2_def [symmetric] using 4 f(5)
      by (simp add: fr2_def pass_ret_def reexec_rank_def)
  qed (use g u f in simp_all)
  show ?thesis
    using trailing rest u f by (simp add: case_headers_almost_done_def Let_def pass_err_def)
qed

lemma complete_ok:
  assumes "http_errno (parser fr) = HPE_OK" "base_inv (parser fr)" "uinv (usr fr)" "pos fr < length d"
    and "\<And>g. mark_of g fr = None"
    and k: "\<And>fr'. frame_inv 0 d fr' \<Longrightarrow> uinv (usr fr') \<Longrightarrow> upgrade (parser fr') = upgrade (parser fr) \<Longrightarrow>
      pass_ok uinv d r (k fr')"
  shows "pass_ok uinv d r (CALLBACK_NOTIFY S FOR_message_complete (UPDATE_STATE (NEW_MESSAGE (parser fr)) fr) k)"
proof -
  have "frame_inv 0 d (UPDATE_STATE (NEW_MESSAGE (parser fr)) fr)"
    by (rule frame_plainI) (use assms in simp_all)
  then show ?thesis
    unfolding CALLBACK_NOTIFY_def by (intro NOTIFY_ok k) (use assms in \<open>auto simp: core_inv_def\<close>)
qed

lemma upgrade_return:
  assumes "frame_inv 0 d fr" "uinv (usr fr)" "upgrade (parser fr)"
  shows "pass_ok uinv d r (RETURN (pos fr + 1) fr)"
  using assms frame_invD [OF assms(1)] by (simp add: pass_ret_def parser_inv_def)

lemma message_done_ok:
  assumes inv: "frame_inv 1 d fr" and s: "p_state fr = s_message_done" and u: "uinv (usr fr)"
  shows "pass_ok uinv d r (case_message_done S fr)"
  unfolding case_message_done_def
proof (rule complete_ok)
  show "mark_of g fr = None" for g using frame_no_marks [OF inv] s by (simp add: plain_states)
qed (use frame_invD [OF inv] u upgrade_return in auto)

lemma headers_done_ok:
  assumes inv: "frame_inv 1 d fr" and s: "p_state fr = s_headers_done" and u: "uinv (usr fr)"
  shows "pass_ok uinv d r (case_headers_done S fr)"
proof -
  note f = frame_invD [OF inv]
  have p: "plain_state (p_state fr)" using s by (simp add: plain_states)
  define fr1 where "fr1 = with_parser (\<lambda>hp. hp\<lparr>nread := 0\<rparr>) fr"
  have b: "http_errno (parser fr1) = HPE_OK" "base_inv (parser fr1)" "uinv (usr fr1)" "pos fr1 < length d"
    "\<And>g. mark_of g fr1 = None" "nread (parser fr1) = 0"
    using f u frame_no_marks [OF inv p] by (simp_all add: fr1_def base_inv_nread)
  have complete: "pass_ok uinv d r (CALLBACK_NOTIFY S FOR_message_complete
      (UPDATE_STATE (NEW_MESSAGE (parser fr1)) fr1) Break)"
    by (rule complete_ok) (use b in auto)
  have upgraded: "pass_ok uinv d r (CALLBACK_NOTIFY S FOR_message_complete
      (UPDATE_STATE (NEW_MESSAGE (parser fr1)) fr1) (\<lambda>fr2. RETURN (pos fr2 + 1) fr2))"
    if "upgrade (parser fr1)"
    by (rule complete_ok) (use b that upgrade_return in auto)
  have chunked: "frame_inv 0 d (UPDATE_STATE s_chunk_size_start fr1)" if "has_flag (parser fr1) F_CHUNKED"
    by (rule frame_plainI) (use b that in \<open>simp_all add: plain_states state_inv_def\<close>)
  have body: "frame_inv 0 d (UPDATE_STATE t fr1)" if "body_state t" "state_inv 0 t (parser fr1)" for t
  proof -
    have "marks_inv (UPDATE_STATE t fr1)"
      using b(5) [of FOR_header_field] b(5) [of FOR_header_value] b(5) [of FOR_url] b(5) [of FOR_body]
        b(5) [of FOR_status] body_state_classes [OF that(1)] by (simp add: marks_inv_def UPDATE_STATE_def)
    with b that show ?thesis by (simp add: frame_inv_def core_inv_def)
  qed
  show ?thesis
    using complete upgraded chunked body b(3) f(5) u
    by (simp add: case_headers_done_def Let_def fr1_def [symmetric] pass_err_def state_inv_def body_state_def)
qed

lemma body_identity_ok:
  assumes inv: "frame_inv 1 d fr" and s: "p_state fr = s_body_identity" and u: "uinv (usr fr)"
  shows "pass_ok uinv d 2 (case_body_identity S d fr)"
proof -
  note f = frame_invD [OF inv]
  from f(3) s have i: "content_length (parser fr) \<noteq> 0" "content_length (parser fr) \<noteq> ULLONG_MAX"
    by (auto simp: state_inv_def)
  define fr1 where "fr1 = take_body (min (unat (content_length (parser fr))) (length d - pos fr)) fr"
  note tb = take_body_facts [OF f(4) i fr1_def]
  have b: "body_state (p_state fr)" using s by (simp add: body_state_def)
  have c: "http_errno (parser fr1) = HPE_OK" "base_inv (parser fr1)"
    using f(1,2) by (subst tb(6), simp)+
  have frame: "frame_inv 0 d (UPDATE_STATE (p_state fr1) fr1)" if "content_length (parser fr1) \<noteq> 0"
    using frame_take_body [OF inv b b i fr1_def] that tb(5,8) s by (simp add: state_inv_def)
  have m: "mark_of FOR_body fr1 = Some m \<Longrightarrow> m \<le> pos fr1" for m
    using tb(1,9) frame_mark_le [OF inv, of FOR_body] by (auto split: if_splits)
  have o: "g \<noteq> FOR_body \<Longrightarrow> mark_of g fr1 = None" for g
    using frame_marks_body [OF inv b] tb(10-13) by (cases g) simp_all
  have "pass_ok uinv d 2 (CALLBACK_DATA_gen S d FOR_body (\<lambda>m. pos fr1 - m + 1) (pos fr1)
      (UPDATE_STATE s_message_done fr1) Reexecute)"
  proof (rule DATA_ok, goal_cases)
    case (6 s v)
    have "frame_inv 1 d (set_mark FOR_body None (adj (UPDATE_STATE s_message_done fr1) s v))"
      by (rule frame_unmarkI) (use c o tb in \<open>simp_all add: plain_states state_inv_def\<close>)
    with 6 show ?case by (simp add: reexec_rank_def)
  next
    case (5 n)
    then have "n \<le> pos fr1" using m by simp
    with tb(2) show ?case by simp
  qed (use c u tb in \<open>auto simp: core_inv_def state_inv_def\<close>)
  moreover have "UPDATE_STATE (p_state fr1) fr1 = fr1" by (simp add: UPDATE_STATE_def)
  ultimately show ?thesis
    using i frame u tb(7) by (simp add: case_body_identity_def Let_def fr1_def [symmetric])
qed

lemma exec_switch_ok:
  assumes inv: "frame_inv 1 d fr" and u: "uinv (usr fr)"
  shows "pass_ok uinv d (reexec_rank (p_state fr)) (exec_switch S d fr)"
proof (cases "simple_state (p_state fr)")
  case True
  with inv u show ?thesis by (intro simple_case_ok)
next
  case False
  have url: "url_state (p_state fr) \<Longrightarrow> reexec_rank (p_state fr) = 1"
    by (auto simp: url_state_def reexec_rank_def)
  show ?thesis
  proof (cases "url_state (p_state fr)")
    case True
    have "pass_ok uinv d (reexec_rank (p_state fr)) (case_req_url S d fr)"
      "pass_ok uinv d (reexec_rank (p_state fr)) (case_req_schema fr)"
      by (rule req_url_ok [OF inv True u], rule req_schema_ok [where I = uinv, OF inv True u])
    with True show ?thesis by (auto simp: url_state_def exec_switch_def)
  next
    case no_url: False
    show ?thesis
      using False no_url
      by (cases "p_state fr")
         (simp_all add: simple_state_def url_state_def exec_switch_def reexec_rank_def
           start_req_or_res_ok start_res_ok start_req_ok res_status_start_ok res_status_ok
           req_method_ok req_spaces_before_url_ok header_field_start_ok header_field_ok
           header_value_discard_ws_ok header_value_discard_lws_ok header_value_start_ok header_value_ok
           chunk_size_start_ok chunk_size_ok chunk_size_almost_done_ok headers_almost_done_ok
           headers_done_ok chunk_data_ok chunk_data_almost_done_ok chunk_data_done_ok
           body_identity_ok body_identity_eof_ok message_done_ok plain_states inv u)
  qed
qed

end

end
