(* ===== verification/Http_Loop.thy ===== *)
theory Http_Loop
  imports Http_Returns
begin

text \<open>
  The two loops of \<open>http_parser_execute\<close>. The position never moves back (whatever the callbacks
  do), so with the rank of the states both loops end; what the function returns is the
  theorem \<open>execute_ok\<close> of the locale \<open>http_buffer_callbacks\<close>.
\<close>

section \<open>The position never moves back\<close>

primrec moves :: "nat \<Rightarrow> 'u flow \<Rightarrow> bool" where
  "moves p (Break fr) = (p \<le> pos fr)"
| "moves p (Reexecute fr) = (p \<le> pos fr)"
| "moves p (GotoError fr) = True"
| "moves p (Return n fr) = True"
| "moves p Abort = True"

lemma moves_simps [simp]:
  "moves p (fail e fr)" "moves p (RETURN n fr)"
  "moves p (assert_then b fl) = (b \<longrightarrow> moves p fl)"
  "moves p (STRICT_CHECK c fr fl) = (\<not> c \<longrightarrow> moves p fl)"
  by (simp_all add: fail_def RETURN_def assert_then_def STRICT_CHECK_def)

lemma moves_COUNT: "moves p (k (with_parser (add_nread v) fr)) \<Longrightarrow> moves p (COUNT_HEADER_SIZE v fr k)"
  by (simp add: COUNT_HEADER_SIZE_def Let_def with_parser_def add_nread_def)

lemma moves_callback: "(\<And>fr'. pos fr' = pos fr \<Longrightarrow> moves p (k fr')) \<Longrightarrow> moves p (run_callback e cb er fr k)"
  by (auto simp: run_callback_def Let_def split: prod.split)

lemma moves_NOTIFY_gen:
  "(\<And>fr'. pos fr' = pos fr \<Longrightarrow> moves p (k fr')) \<Longrightarrow> moves p (CALLBACK_NOTIFY_gen S f er fr k)"
  by (auto simp: CALLBACK_NOTIFY_gen_def moves_callback split: option.split)

lemma moves_DATA_gen:
  "(\<And>fr'. pos fr' = pos fr \<Longrightarrow> moves p (k fr')) \<Longrightarrow> moves p (CALLBACK_DATA_gen S d f l er fr k)"
  by (auto simp: CALLBACK_DATA_gen_def intro!: moves_callback split: option.split)

lemma moves_callbacks:
  assumes "\<And>fr'. pos fr' = pos fr \<Longrightarrow> moves p (k fr')"
  shows "moves p (CALLBACK_NOTIFY S f fr k)" "moves p (CALLBACK_NOTIFY_NOADVANCE S f fr k)"
    "moves p (CALLBACK_DATA S d g fr k)" "moves p (CALLBACK_DATA_NOADVANCE S d g fr k)"
  using assms
  by (auto simp: CALLBACK_NOTIFY_def CALLBACK_NOTIFY_NOADVANCE_def CALLBACK_DATA_def CALLBACK_DATA_NOADVANCE_def
      intro!: moves_NOTIFY_gen moves_DATA_gen)

lemma moves_headers_complete:
  "(\<And>fr'. pos fr' = pos fr \<Longrightarrow> moves p (k fr')) \<Longrightarrow> moves p (run_headers_complete S fr k)"
  by (auto simp: run_headers_complete_def Let_def split: option.split prod.split)

lemma moves_take_body:
  "pos fr < length d \<Longrightarrow> c \<noteq> 0 \<Longrightarrow> pos fr \<le> pos (take_body (min (unat c) (length d - pos fr)) fr)"
  using unat_gt_0 [of c] by (auto simp: take_body_def Let_def min_def)

lemma moves_url_step: "p \<le> pos fr \<Longrightarrow> moves p (url_step fr)"
  by (simp add: url_step_def Let_def)

lemma moves_value_done:
  "p \<le> pos fr \<Longrightarrow> p < length d \<Longrightarrow> moves p (header_value_done d start h fr)"
  unfolding header_value_done_def by (rule moves_COUNT) auto

lemma moves_value_exit: "header_value_switch d h fr = Value_exit fl \<Longrightarrow> moves p fl"
  by (cases h) (auto simp: value_step_defs Let_def split: if_splits)

lemma moves_value_loop:
  "p \<le> pos fr \<Longrightarrow> p < length d \<Longrightarrow> moves p (header_value_loop S d start h fr)"
proof (induction S d start h fr rule: header_value_loop.induct)
  case (1 S d start h fr)
  show ?case
  proof (cases "pos fr < length d")
    case False
    with 1 show ?thesis
      unfolding header_value_loop.simps [of S d start h fr] by (simp add: moves_value_done)
  next
    case True
    define fr0 where "fr0 = fr\<lparr>cur := d ! pos fr\<rparr>"
    have "moves p (case header_value_switch d h fr0 of Value_exit fl \<Rightarrow> fl
        | Value_next fr1 h1 \<Rightarrow> header_value_loop S d start h1 (fr1\<lparr>pos := pos fr1 + 1\<rparr>))"
      if c: "cur fr0 \<noteq> CR" "cur fr0 \<noteq> LF" "\<not> (\<not> lenient fr0 \<and> \<not> IS_HEADER_CHAR (cur fr0))"
    proof (cases "header_value_switch d h fr0")
      case (Value_next fr1 h1)
      have "pos fr \<le> pos fr1"
        using header_value_switch_pos [OF Value_next] skip_value_bounds [OF True] c
        by (auto simp: fr0_def split: if_splits)
      with 1(1) [OF _ fr0_def c Value_next] True 1(2,3) Value_next show ?thesis by simp
    qed (simp add: moves_value_exit)
    with True 1(2,3) show ?thesis
      unfolding header_value_loop.simps [of S d start h fr] Let_def fr0_def [symmetric]
      by (auto simp: fr0_def moves_value_done intro!: moves_callbacks moves_COUNT)
  qed
qed

lemma header_field_loop_pos:
  "header_field_loop cs p c hp = Some (hp', p', c') \<Longrightarrow> p \<le> p' \<and> p' \<le> p + length cs"
proof (induction cs arbitrary: p c hp)
  case (Cons x cs)
  from Cons.prems show ?case
    by (auto split: if_splits option.splits dest!: Cons.IH)
qed simp

lemma moves_header_field: "pos fr < length d \<Longrightarrow> moves (pos fr) (case_header_field S d fr)"
  by (auto simp: case_header_field_def moves_callbacks split: option.split
      intro!: moves_COUNT dest!: header_field_loop_pos)

lemmas moving_cases = case_start_req_or_res_def case_start_res_def case_start_req_def
  case_res_status_start_def case_res_status_def case_req_method_def case_req_spaces_before_url_def
  case_req_schema_def case_req_url_def case_header_field_start_def case_header_value_discard_ws_def
  case_header_value_discard_lws_def case_header_value_lws_def case_header_value_def
  case_chunk_size_start_def case_chunk_size_def case_chunk_size_almost_done_def
  case_headers_almost_done_def case_headers_done_def case_chunk_data_def
  case_chunk_data_almost_done_def case_chunk_data_done_def case_body_identity_def
  case_body_identity_eof_def case_message_done_def

lemma moves_value_start: "moves (pos fr) (case_header_value_start fr)"
  by (cases "header_state (parser fr)") (auto simp: case_header_value_start_def Let_def)

lemma exec_switch_moves: "pos fr < length d \<Longrightarrow> moves (pos fr) (exec_switch S d fr)"
  by (cases "p_state fr")
     (auto simp: exec_switch_def simple_defs moving_cases Let_def moves_url_step moves_value_start
       moves_header_field moves_value_loop moves_take_body
       intro!: moves_callbacks moves_headers_complete moves_DATA_gen split: option.split)


section \<open>Between two bytes\<close>

definition loop_inv :: "char list \<Rightarrow> 'u frame \<Rightarrow> bool" where
  "loop_inv d fr \<longleftrightarrow> http_errno (parser fr) = HPE_OK \<and> core_inv 0 (p_state fr) (parser fr) \<and>
     marks_inv fr \<and> pos fr \<le> length d"

lemma marks_inv_pos: "marks_inv fr \<Longrightarrow> pos fr \<le> q \<Longrightarrow> marks_inv (fr\<lparr>pos := q\<rparr>)"
  by (auto simp: marks_inv_def elim: mark_le_trans)

lemma loop_inv_next: "frame_inv 0 d fr \<Longrightarrow> loop_inv d (fr\<lparr>pos := pos fr + 1\<rparr>)"
  by (auto simp: loop_inv_def frame_inv_def marks_inv_pos)

lemma loop_inv_init:
  "parser_inv hp \<Longrightarrow> http_errno hp = HPE_OK \<Longrightarrow> loop_inv d (init_frame hp u)"
  by (auto simp: loop_inv_def parser_inv_def init_frame_def marks_inv_def)

lemma state_inv_nread: "s \<noteq> s_chunk_size_start \<Longrightarrow> state_inv n s (add_nread v hp) = state_inv m s hp"
  by (simp add: state_inv_def has_flag_def cong: pstate.case_cong split: pstate.split)

text \<open>Counting a byte turns the invariant between two bytes into the one of the switch.\<close>

lemma count_byte_ok:
  assumes inv: "loop_inv d fr" and p: "pos fr < length d"
  obtains (go) fr1 where "count_byte (fr\<lparr>cur := c\<rparr>) = Break fr1" "frame_inv 1 d fr1"
      "pos fr1 = pos fr" "usr fr1 = usr fr"
    | (stop) fr1 where "count_byte (fr\<lparr>cur := c\<rparr>) = GotoError fr1" "pass_err d fr1" "usr fr1 = usr fr"
proof -
  define fr0 where "fr0 = fr\<lparr>cur := c\<rparr>"
  have m: "marks_inv (with_parser f fr0)" "marks_inv fr0" for f
    using inv by (simp_all add: loop_inv_def marks_inv_def fr0_def with_parser_def)
  from inv have b: "http_errno (parser fr) = HPE_OK" "base_inv (parser fr)" "state_inv 0 (p_state fr) (parser fr)"
    by (simp_all add: loop_inv_def core_inv_def)
  show thesis
  proof (cases "PARSING_HEADER (p_state fr)")
    case False
    then have "p_state fr \<noteq> s_chunk_size_start" by (auto simp: PARSING_HEADER_def less_eq_pstate_def)
    with b m p False have "frame_inv 1 d fr0"
      using state_inv_nread [of "p_state fr" 1 0 "parser fr" 0]
      by (simp add: frame_inv_def core_inv_def fr0_def add_nread_def)
    with False go [of fr0] show thesis by (simp add: count_byte_def fr0_def)
  next
    case True
    show thesis
    proof (cases "HTTP_MAX_HEADER_SIZE < unat (nread (parser fr) + 1)")
      case over: True
      with True stop p show thesis
        by (auto simp: count_byte_def COUNT_HEADER_SIZE_def Let_def fail_def pass_err_def)
    next
      case False
      have "state_inv 1 (p_state fr) (add_nread 1 (parser fr))"
        using b(3) state_inv_nread [of "p_state fr" 1 1 "parser fr" 0]
        by (cases "p_state fr = s_chunk_size_start") (auto simp: state_inv_def has_flag_def)
      moreover have "base_inv (add_nread 1 (parser fr))"
        by (rule nread_add) (use False b in simp_all)
      ultimately have "frame_inv 1 d (with_parser (add_nread 1) fr0)"
        using b m p by (simp add: frame_inv_def core_inv_def fr0_def)
      with True False go [of "with_parser (add_nread 1) fr0"] show thesis
        by (simp add: count_byte_def COUNT_HEADER_SIZE_def Let_def fr0_def add_nread_def with_parser_def)
    qed
  qed
qed

text \<open>At most one mark is set, so the assertion before the last callbacks holds.\<close>

lemma marks_inv_class: "marks_inv fr \<Longrightarrow> state_class (p_state fr) \<noteq> Some g \<Longrightarrow> mark_of g fr = None"
  by (cases g) (auto simp: marks_inv_def state_class_def state_classes split: if_splits)

lemma marks_inv_one:
  assumes "marks_inv fr"
  shows "marks_set fr \<le> 1"
proof -
  note m = marks_inv_class [OF assms, of FOR_header_field] marks_inv_class [OF assms, of FOR_header_value]
    marks_inv_class [OF assms, of FOR_url] marks_inv_class [OF assms, of FOR_body]
    marks_inv_class [OF assms, of FOR_status]
  show ?thesis
  proof (cases "state_class (p_state fr)")
    case (Some g)
    with m show ?thesis by (cases g) (simp_all add: marks_set_def)
  qed (use m in \<open>simp add: marks_set_def\<close>)
qed


section \<open>Results\<close>

definition outcome_ok :: "('u \<Rightarrow> bool) \<Rightarrow> char list \<Rightarrow> 'u outcome \<Rightarrow> bool" where
  "outcome_ok I d out \<longleftrightarrow>
     (case out of
        Aborted \<Rightarrow> False
      | Returned n hp u \<Rightarrow> n \<le> length d \<and> parser_inv hp \<and> I u \<and>
          (http_errno hp = HPE_OK \<longrightarrow> upgrade hp \<or> n = length d))"

text \<open>After the last byte: the callbacks for the marks that are left.\<close>

definition tail_inv :: "('u \<Rightarrow> bool) \<Rightarrow> char list \<Rightarrow> 'u frame \<Rightarrow> bool" where
  "tail_inv I d fr \<longleftrightarrow> http_errno (parser fr) = HPE_OK \<and> core_inv 0 (p_state fr) (parser fr) \<and>
     I (usr fr) \<and> pos fr = length d \<and> (\<forall>g m. mark_of g fr = Some m \<longrightarrow> m \<le> length d)"

primrec ends :: "'u flow \<Rightarrow> bool" where
  "ends (Break fr) = False"
| "ends (Reexecute fr) = False"
| "ends (GotoError fr) = True"
| "ends (Return n fr) = True"
| "ends Abort = True"

lemma ends_callback: "(\<And>fr'. ends (k fr')) \<Longrightarrow> ends (run_callback e cb er fr k)"
  by (auto simp: run_callback_def Let_def split: prod.split)

lemma ends_NOTIFY: "(\<And>fr'. ends (k fr')) \<Longrightarrow> ends (CALLBACK_NOTIFY_gen S f er fr k)"
  by (auto simp: CALLBACK_NOTIFY_gen_def assert_then_def intro!: ends_callback split: option.split)

lemma ends_DATA: "(\<And>fr'. ends (k fr')) \<Longrightarrow> ends (CALLBACK_DATA_gen S d f l er fr k)"
  by (auto simp: CALLBACK_DATA_gen_def assert_then_def intro!: ends_callback split: option.split)

lemma exec_tail_ends: "ends (exec_tail S d fr)"
  unfolding exec_tail_def assert_then_def CALLBACK_DATA_NOADVANCE_def
  by (auto intro!: ends_DATA simp: RETURN_def)

text \<open>\<open>Break\<close> and \<open>Reexecute\<close> never reach \<open>finish\<close>.\<close>

lemma finish_ok: "pass_ok I d r fl \<Longrightarrow> ends fl \<Longrightarrow> outcome_ok I d (finish fl)"
  by (cases fl) (auto simp: outcome_ok_def pass_err_def pass_ret_def parser_inv_def Let_def)

context http_buffer_callbacks
begin

lemma exec_reexec_ok:
  assumes "frame_inv 1 d fr" "uinv (usr fr)"
  shows "\<exists>fl. exec_reexec S d fr = Some fl \<and> pass_ok uinv d 0 fl \<and> moves (pos fr) fl"
  using assms
proof (induction "reexec_rank (p_state fr)" arbitrary: fr rule: less_induct)
  case less
  note ok = exec_switch_ok [OF less.prems]
  have m: "moves (pos fr) (exec_switch S d fr)"
    using exec_switch_moves frame_invD [OF less.prems(1)] by blast
  show ?case
  proof (cases "exec_switch S d fr")
    case (Reexecute fr1)
    with ok m have r: "reexec_rank (p_state fr1) < reexec_rank (p_state fr)" "frame_inv 1 d fr1" "uinv (usr fr1)"
      "pos fr \<le> pos fr1" by auto
    from less.hyps [OF r(1-3)] obtain fl where "exec_reexec S d fr1 = Some fl" "pass_ok uinv d 0 fl"
      "moves (pos fr1) fl" by blast
    moreover from this(3) r(4) have "moves (pos fr) fl" by (cases fl) auto
    ultimately show ?thesis
      unfolding exec_reexec.simps [of S d fr] using Reexecute by simp
  qed (use ok m in \<open>simp_all add: exec_reexec.simps [of S d fr]\<close>)
qed

lemma tail_step:
  assumes "tail_inv uinv d fr" and k: "\<And>fr'. tail_inv uinv d fr' \<Longrightarrow> pass_ok uinv d r (k fr')"
  shows "pass_ok uinv d r (CALLBACK_DATA_NOADVANCE S d f fr k)"
  unfolding CALLBACK_DATA_NOADVANCE_def
proof (rule DATA_ok, goal_cases)
  case (6 s u)
  with assms(1) show ?case
    by (intro k) (auto simp: tail_inv_def split: if_splits)
qed (use assms(1) in \<open>auto simp: tail_inv_def\<close>)

lemma exec_tail_ok:
  assumes "loop_inv d fr" "pos fr = length d" "uinv (usr fr)"
  shows "pass_ok uinv d r (exec_tail S d fr)"
proof -
  have "m \<le> pos fr" if "mark_of g fr = Some m" for g m
    using assms(1) that by (cases g) (auto simp: loop_inv_def marks_inv_def)
  then have "tail_inv uinv d fr" using assms by (auto simp: tail_inv_def loop_inv_def)
  moreover have "pass_ok uinv d r (RETURN (length d) fr')" if "tail_inv uinv d fr'" for fr'
    using that by (simp add: tail_inv_def pass_ret_def parser_inv_def)
  moreover have "marks_set fr \<le> 1" using assms(1) by (auto simp: loop_inv_def dest: marks_inv_one)
  ultimately show ?thesis unfolding exec_tail_def by (auto intro!: tail_step)
qed

text \<open>The loop over the bytes ends: every pass leaves the position in place or moves it on.\<close>

lemma exec_loop_ok:
  assumes "loop_inv d fr" "uinv (usr fr)"
  shows "\<exists>out. exec_loop S d fr = Some out \<and> outcome_ok uinv d out"
  using assms
proof (induction "length d - pos fr" arbitrary: fr rule: less_induct)
  case less
  show ?case
  proof (cases "pos fr = length d")
    case True
    then show ?thesis
      using finish_ok [OF exec_tail_ok [OF less.prems(1) True less.prems(2)] exec_tail_ends]
      by (simp add: exec_loop.simps [of S d fr])
  next
    case False
    with less.prems(1) have p: "pos fr < length d" by (simp add: loop_inv_def)
    from less.prems(1) p show ?thesis
    proof (cases rule: count_byte_ok [where c = "d ! pos fr"])
      case (stop fr1)
      then have "outcome_ok uinv d (finish (GotoError fr1))"
        using less.prems(2) by (intro finish_ok [where r = 0]) auto
      with stop False show ?thesis by (simp add: exec_loop.simps [of S d fr] del: finish.simps)
    next
      case (go fr1)
      then obtain fl where fl: "exec_reexec S d fr1 = Some fl" "pass_ok uinv d 0 fl" "moves (pos fr) fl"
        using exec_reexec_ok [of fr1] less.prems(2) by auto
      show ?thesis
      proof (cases fl)
        case (Break fr2)
        with fl have b: "loop_inv d (fr2\<lparr>pos := pos fr2 + 1\<rparr>)" "uinv (usr fr2)" "pos fr \<le> pos fr2"
          using loop_inv_next [of d fr2] by auto
        with less.hyps [OF _ b(1)] p go fl(1) Break False show ?thesis
          by (simp add: exec_loop.simps [of S d fr])
      qed (use finish_ok [OF fl(2)] fl False go in \<open>auto simp: exec_loop.simps [of S d fr] simp del: finish.simps\<close>)
    qed
  qed
qed

text \<open>What \<open>http_parser_execute\<close> guarantees to its caller.\<close>

theorem execute_ok:
  assumes "parser_inv hp" "uinv u"
  shows "\<exists>n hp' u'. http_parser_execute S hp u d = Some (Returned n hp' u') \<and> parser_inv hp' \<and> uinv u' \<and>
    (d \<noteq> [] \<longrightarrow> n \<le> length d) \<and>
    (d \<noteq> [] \<longrightarrow> http_errno hp = HPE_OK \<longrightarrow> http_errno hp' = HPE_OK \<longrightarrow> n = length d \<or> upgrade hp')"
proof (cases "http_errno hp = HPE_OK \<and> d \<noteq> []")
  case True
  then obtain out where out: "exec_loop S d (init_frame hp u) = Some out" "outcome_ok uinv d out"
    using exec_loop_ok [OF loop_inv_init [OF assms(1)], of u] assms(2) by (auto simp: init_frame_def)
  with True show ?thesis
    by (cases out) (auto simp: http_parser_execute_def outcome_ok_def)
next
  case False
  show ?thesis
  proof (cases "http_errno hp = HPE_OK")
    case True
    then have inv: "core_inv 0 (state hp) hp" and empty: "d = []" using assms(1) False by (auto simp: parser_inv_def)
    have "pass_ok uinv d 0 (CALLBACK_NOTIFY_gen S FOR_message_complete 0 (init_frame hp u) (Return 0))"
      by (rule NOTIFY_ok)
         (use True inv assms empty in \<open>auto simp: init_frame_def pass_ret_def parser_inv_def\<close>)
    moreover have "ends (CALLBACK_NOTIFY_gen S FOR_message_complete 0 (init_frame hp u) (Return 0))"
      by (rule ends_NOTIFY) simp
    ultimately have "outcome_ok uinv d (finish (CALLBACK_NOTIFY_gen S FOR_message_complete 0 (init_frame hp u) (Return 0)))"
      by (rule finish_ok)
    with True empty inv assms show ?thesis
      by (cases "finish (CALLBACK_NOTIFY_gen S FOR_message_complete 0 (init_frame hp u) (Return 0))")
         (auto simp: http_parser_execute_def exec_eof_def CALLBACK_NOTIFY_NOADVANCE_def outcome_ok_def
           parser_inv_def init_frame_def)
  qed (use assms in \<open>simp add: http_parser_execute_def\<close>)
qed

end

end
