(* ===== verification/Http_Session.thy ===== *)
theory Http_Session
  imports Http_Loop
begin

text \<open>
  A parser over its life: \<open>http_parser_init\<close>, any number of calls of \<open>http_parser_execute\<close>,
  \<open>http_parser_pause\<close> in between. The calls are a step relation; the invariant of the parser
  holds in every state reached, for every set of callbacks that is well-behaved on every buffer
  (the locale \<open>http_callbacks\<close>). The small queries of
  the API (keep-alive, end of message, pausing, sticky errors) are characterised here too.
\<close>

section \<open>Sessions\<close>

inductive session_step ::
  "'u http_parser_settings \<Rightarrow> http_parser \<times> 'u \<Rightarrow> http_parser \<times> 'u \<Rightarrow> bool"
  for S :: "'u http_parser_settings" where
  step_execute: "http_parser_execute S hp u d = Some (Returned n hp' u') \<Longrightarrow>
     session_step S (hp, u) (hp', u')"
| step_pause: "http_parser_pause hp b = Some hp' \<Longrightarrow> session_step S (hp, u) (hp', u)"
| step_init: "session_step S (hp, u) (http_parser_init t, u)"

inductive_cases session_stepE: "session_step S (hp, u) (hp', u')"

inductive session :: "'u http_parser_settings \<Rightarrow> http_parser \<times> 'u \<Rightarrow> http_parser \<times> 'u \<Rightarrow> bool"
  for S :: "'u http_parser_settings" where
  session_refl: "session S s s"
| session_step: "session S s t \<Longrightarrow> session_step S t t' \<Longrightarrow> session S s t'"

lemma parser_inv_init [simp]: "parser_inv (http_parser_init t)"
  by (cases t) (simp_all add: parser_inv_def core_inv_def base_inv_def state_inv_def http_parser_init_def
      HTTP_MAX_HEADER_SIZE_def)

lemma parser_inv_pause: "parser_inv hp \<Longrightarrow> http_parser_pause hp b = Some hp' \<Longrightarrow> parser_inv hp'"
  by (auto simp: parser_inv_def http_parser_pause_def split: if_splits)

locale http_callbacks =
  fixes S :: "'u http_parser_settings" and uinv :: "'u \<Rightarrow> bool"
  assumes well_behaved: "http_buffer_callbacks S uinv d"
begin

lemmas execute_ok = http_buffer_callbacks.execute_ok [OF well_behaved]

lemma session_inv:
  assumes "session S s t" "parser_inv (fst s)" "uinv (snd s)"
  shows "parser_inv (fst t) \<and> uinv (snd t)"
  using assms
proof (induction rule: session.induct)
  case (session_step s t t')
  then have t: "parser_inv (fst t)" "uinv (snd t)" by auto
  from session_step(2) show ?case
  proof cases
    case (step_execute hp u d n hp' u')
    from execute_ok [of hp u d] t step_execute show ?thesis by auto
  next
    case (step_pause hp b hp' u)
    with t parser_inv_pause show ?thesis by auto
  qed (use t in simp)
qed simp

lemma execute_progress:
  assumes "parser_inv hp" "uinv u" "http_parser_execute S hp u d = Some out"
  shows "\<exists>n hp' u'. out = Returned n hp' u'"
  using execute_ok [OF assms(1,2), of d] assms(3) by auto

end

text \<open>The callbacks that \<open>http_parser_settings_init\<close> leaves: none.\<close>

lemma settings_init_callbacks [simp]:
  "on_notify k http_parser_settings_init = None" "on_data f http_parser_settings_init = None"
  "on_headers_complete http_parser_settings_init = None"
  by (cases k; simp add: http_parser_settings_init_def) (cases f; simp add: http_parser_settings_init_def)+

interpretation no_callbacks: http_callbacks http_parser_settings_init "\<lambda>_. True"
  by unfold_locales simp_all


section \<open>Bounds of the parser state\<close>

lemma parser_inv_bounds:
  assumes "parser_inv hp" "http_errno hp = HPE_OK \<or> http_errno hp = HPE_PAUSED"
  shows "http_major hp \<le> 999" "http_minor hp \<le> 999" "status_code hp \<le> 999"
    "unat (nread hp) \<le> HTTP_MAX_HEADER_SIZE" "unat (index hp) \<le> 17"
  using assms by (auto simp: parser_inv_def core_inv_def base_inv_def)


section \<open>Queries\<close>

lemma errno_sticky:
  "http_errno hp \<noteq> HPE_OK \<Longrightarrow> http_parser_execute S hp u d = Some (Returned 0 hp u)"
  by (simp add: http_parser_execute_def)

lemma needs_eof_iff:
  "http_message_needs_eof hp \<longleftrightarrow>
     ptype hp \<noteq> HTTP_REQUEST \<and>
     \<not> (100 \<le> unat (status_code hp) \<and> unat (status_code hp) < 200 \<or> status_code hp = 204 \<or> status_code hp = 304) \<and>
     \<not> has_flag hp F_SKIPBODY \<and> \<not> has_flag hp F_CHUNKED \<and> content_length hp = ULLONG_MAX"
proof -
  have "status_code hp div 100 = 1 \<longleftrightarrow> unat (status_code hp div 100) = unat (1 :: u16)"
    by (simp only: word_unat_eq_iff)
  also have "\<dots> \<longleftrightarrow> unat (status_code hp) div 100 = 1" by (simp add: unat_div)
  also have "\<dots> \<longleftrightarrow> 100 \<le> unat (status_code hp) \<and> unat (status_code hp) < 200" by auto
  finally show ?thesis by (auto simp: http_message_needs_eof_def)
qed


lemma keep_alive_iff:
  "http_should_keep_alive hp \<longleftrightarrow> \<not> http_message_needs_eof hp \<and>
     (if 0 < http_major hp \<and> 0 < http_minor hp then \<not> has_flag hp F_CONNECTION_CLOSE
      else has_flag hp F_CONNECTION_KEEP_ALIVE)"
  by (auto simp: http_should_keep_alive_def)

text \<open>An empty buffer is the end of the stream.\<close>

lemma execute_eof:
  "http_errno hp = HPE_OK \<Longrightarrow> state hp \<noteq> s_body_identity_eof \<Longrightarrow>
   http_parser_execute S hp u [] = Some
     (if state hp \<in> {s_dead, s_start_req_or_res, s_start_res, s_start_req} then Returned 0 hp u
      else Returned 1 (hp\<lparr>http_errno := HPE_INVALID_EOF_STATE\<rparr>) u)"
  by (simp add: http_parser_execute_def exec_eof_def)


section \<open>Running the parser on concrete bytes\<close>

lemmas exec_eval = simple_defs moving_cases http_parser_execute_def http_parser_init_def init_frame_def
  exec_loop.simps count_byte_def PARSING_HEADER_def less_eq_pstate_def exec_reexec.simps exec_switch_def
  COUNT_HEADER_SIZE_def Let_def with_parser_def HTTP_MAX_HEADER_SIZE_def url_state_def CR_def LF_def
  IS_ALPHA_iff IS_NUM_iff uchar_LOWER uchar_def start_req_method_def CALLBACK_NOTIFY_def
  CALLBACK_NOTIFY_gen_def assert_then_def UPDATE_STATE_def method_strings_def cstr_at_def NUL_def
  marks_set_def exec_tail_def CALLBACK_DATA_def CALLBACK_DATA_NOADVANCE_def CALLBACK_DATA_gen_def
  RETURN_def MARK_def url_step_def parse_url_char_def STRICT_CHECK_def fail_def SET_ERRNO_def
  digit_of_def schar_def set_mark.simps IS_URL_CHAR_iff TOKEN_def tokens_def case_header_field_def
  header_field_step_def header_value_loop.simps header_value_done_def header_value_switch_def
  skip_value_def value_end_def memchr_def index_of.simps IS_HEADER_CHAR_def case_header_value_start_def
  header_flag_def has_flag_def flag_defs run_headers_complete_def has_body_def ULLONG_MAX_def
  NEW_MESSAGE_def start_state_def http_should_keep_alive_def http_message_needs_eof_def

text \<open>A complete request: the parser is ready for the next message of the connection.\<close>

lemma execute_get_request:
  "http_parser_execute http_parser_settings_init (http_parser_init HTTP_REQUEST) ()
     (''GET / HTTP/1.1'' @ [CR, LF] @ ''A:b'' @ [CR, LF, CR, LF]) =
   Some (Returned 23 ((http_parser_init HTTP_REQUEST)\<lparr>content_length := ULLONG_MAX, http_major := 1,
     http_minor := 1, method_of := HTTP_GET\<rparr>) ())"
  by (simp add: exec_eval)


section \<open>Properties\<close>

text \<open>
  C1: \<open>http_parser_execute\<close> returns. For every buffer, every parser that satisfies the invariant
  and every set of callbacks that keeps to its contract (change only the user state, or pause
  the parser), both loops of the function end, no \<open>assert\<close> of the code fails, and the
  function never claims to have consumed more bytes than the buffer holds.
\<close>

theorem http_execute_returns:
  assumes "http_buffer_callbacks S I d" "parser_inv hp" "I u"
  shows "\<exists>n hp' u'. http_parser_execute S hp u d = Some (Returned n hp' u') \<and>
    parser_inv hp' \<and> I u' \<and> (d \<noteq> [] \<longrightarrow> n \<le> length d)"
  using http_buffer_callbacks.execute_ok [OF assms] by blast

theorem http_execute_returns_witness:
  "\<exists>n hp' u'. http_parser_execute http_parser_settings_init (http_parser_init HTTP_REQUEST) ()
      ''GET / HTTP/1.1'' = Some (Returned n hp' u') \<and> parser_inv hp' \<and> n \<le> 14"
  using http_execute_returns [OF no_callbacks.well_behaved parser_inv_init TrueI,
      of HTTP_REQUEST "()" "''GET / HTTP/1.1''"] by auto

text \<open>
  C2: the invariant of the parser holds in every state a session reaches, that is after
  \<open>http_parser_init\<close> and any sequence of calls of \<open>http_parser_execute\<close> on any bytes,
  of \<open>http_parser_pause\<close> and of \<open>http_parser_init\<close> again.
\<close>

theorem http_session_invariant:
  assumes "http_callbacks S I" "I u" "session S (http_parser_init t, u) (hp, u')"
  shows "parser_inv hp \<and> I u'"
  using http_callbacks.session_inv [OF assms(1) assms(3)] assms(2) by auto

theorem http_session_invariant_witness:
  "session http_parser_settings_init (http_parser_init HTTP_REQUEST, ())
     ((http_parser_init HTTP_REQUEST)\<lparr>http_errno := HPE_PAUSED\<rparr>, ()) \<and>
   parser_inv ((http_parser_init HTTP_REQUEST)\<lparr>http_errno := HPE_PAUSED\<rparr>)"
proof -
  have "session_step http_parser_settings_init (http_parser_init HTTP_REQUEST, ())
     ((http_parser_init HTTP_REQUEST)\<lparr>http_errno := HPE_PAUSED\<rparr>, ())"
    by (rule step_pause [where b = True]) (simp add: http_parser_pause_def http_parser_init_def)
  then have "session http_parser_settings_init (http_parser_init HTTP_REQUEST, ())
     ((http_parser_init HTTP_REQUEST)\<lparr>http_errno := HPE_PAUSED\<rparr>, ())"
    by (rule session_step [OF session_refl])
  with http_session_invariant [OF no_callbacks.http_callbacks_axioms TrueI this] show ?thesis
    by blast
qed



text \<open>
  Version numbers and status code of a parser that is not in error never exceed 999, the
  header counter never exceeds \<open>HTTP_MAX_HEADER_SIZE\<close> and the 7-bit \<open>index\<close> never
  exceeds 17, so the multiplications by ten, the counter and the index never wrap around.
\<close>

theorem http_session_bounds:
  assumes "http_callbacks S I" "I u" "session S (http_parser_init t, u) (hp, u')"
    and "http_errno hp = HPE_OK \<or> http_errno hp = HPE_PAUSED"
  shows "http_major hp \<le> 999 \<and> http_minor hp \<le> 999 \<and> status_code hp \<le> 999 \<and>
    unat (nread hp) \<le> HTTP_MAX_HEADER_SIZE \<and> unat (index hp) \<le> 17"
proof -
  have "parser_inv hp" using http_callbacks.session_inv [OF assms(1) assms(3)] assms(2) by auto
  from parser_inv_bounds [OF this assms(4)] show ?thesis by blast
qed

theorem http_session_bounds_witness:
  "http_major (http_parser_init HTTP_BOTH) \<le> 999 \<and> unat (index (http_parser_init HTTP_BOTH)) \<le> 17"
  using http_session_bounds [OF no_callbacks.http_callbacks_axioms TrueI session_refl, of HTTP_BOTH]
  by (simp add: http_parser_init_def)

end
