(* ===== verification/Http_Semantics.thy ===== *)
theory Http_Semantics
  imports Http_Session
begin

text \<open>
  What the calls of \<open>http_parser_execute\<close> mean for the client, with callbacks that write a log: the
  body of a message reaches \<open>on_body\<close> complete and in order however it is cut into buffers, every
  method name is recognised, sizes are computed without wrap-around, and nothing is accepted on a
  connection that the last message closed.
\<close>

section \<open>Callbacks that keep a log\<close>

datatype event =
    Ev_message_begin | Ev_url string | Ev_status string | Ev_header_field string | Ev_header_value string
  | Ev_headers_complete | Ev_body string | Ev_message_complete | Ev_chunk_header | Ev_chunk_complete

type_synonym log = "event list"

definition log_notify :: "event \<Rightarrow> log http_cb" where
  "log_notify ev = (\<lambda>hp u. (0, hp, u @ [ev]))"

definition log_data :: "(string \<Rightarrow> event) \<Rightarrow> log http_data_cb" where
  "log_data ev = (\<lambda>hp d m len u. (0, hp, u @ [ev (take len (drop m d))]))"

definition log_settings :: "log http_parser_settings" where
  "log_settings =
     \<lparr>on_message_begin = Some (log_notify Ev_message_begin), on_url = Some (log_data Ev_url),
      on_status = Some (log_data Ev_status), on_header_field = Some (log_data Ev_header_field),
      on_header_value = Some (log_data Ev_header_value),
      on_headers_complete = Some (log_notify Ev_headers_complete), on_body = Some (log_data Ev_body),
      on_message_complete = Some (log_notify Ev_message_complete),
      on_chunk_header = Some (log_notify Ev_chunk_header),
      on_chunk_complete = Some (log_notify Ev_chunk_complete)\<rparr>"

lemma log_callbacks:
  "\<exists>ev. on_notify k log_settings = Some (log_notify ev)"
  "\<exists>ev. on_data f log_settings = Some (log_data ev)"
  by (cases k; simp add: log_settings_def; blast) (cases f; simp add: log_settings_def; blast)

interpretation logging: http_callbacks log_settings "\<lambda>_. True"
proof unfold_locales
  fix k cb and hp hp' :: http_parser and u u' :: log and r
  assume "on_notify k log_settings = Some cb" "cb hp u = (r, hp', u')"
  then show "(hp' = hp \<or> hp' = hp\<lparr>http_errno := HPE_PAUSED\<rparr>) \<and> True"
    using log_callbacks(1) [of k] by (auto simp: log_notify_def)
next
  fix f dcb and hp hp' :: http_parser and u u' :: log and r at l d
  assume "on_data f log_settings = Some dcb" "dcb hp d at l u = (r, hp', u')"
  then show "(hp' = hp \<or> hp' = hp\<lparr>http_errno := HPE_PAUSED\<rparr>) \<and> True"
    using log_callbacks(2) [of f] by (auto simp: log_data_def)
qed (auto simp: log_settings_def log_notify_def)

text \<open>Buffers fed one after the other; \<open>None\<close> unless each call consumes its buffer.\<close>

fun http_feed :: "'u http_parser_settings \<Rightarrow> http_parser \<Rightarrow> 'u \<Rightarrow> string list \<Rightarrow> (http_parser \<times> 'u) option" where
  "http_feed S hp u [] = Some (hp, u)"
| "http_feed S hp u (d # ds) =
     (case http_parser_execute S hp u d of
        Some (Returned n hp' u') \<Rightarrow> if n = length d then http_feed S hp' u' ds else None
      | _ \<Rightarrow> None)"


section \<open>A body of known length\<close>

lemmas body_defs = http_parser_execute_def init_frame_def exec_loop.simps count_byte_def PARSING_HEADER_def
  less_eq_pstate_def exec_reexec.simps exec_switch_def case_body_identity_def case_message_done_def take_body_def
  MARK_def with_parser_def assert_then_def UPDATE_STATE_def CALLBACK_DATA_gen_def CALLBACK_NOTIFY_def
  CALLBACK_NOTIFY_gen_def CALLBACK_DATA_NOADVANCE_def run_callback_def log_settings_def log_notify_def log_data_def
  exec_tail_def marks_set_def RETURN_def Let_def url_state_def set_mark.simps

lemma sub_of_nat_eq_0:
  assumes "k \<le> unat (w :: u64)"
  shows "w - of_nat k = 0 \<longleftrightarrow> unat w = k" "unat (w - of_nat k) = unat w - k"
proof -
  have "unat w < 2 ^ 64" using unsigned_less [of w] by simp
  with assms have k: "unat (of_nat k :: u64) = k" by (simp add: unat_of_nat)
  then have "of_nat k \<le> w" using assms by (simp add: word_le_nat_alt)
  then show u: "unat (w - of_nat k) = unat w - k" using k by (simp add: unat_sub)
  have "w - of_nat k = 0 \<longleftrightarrow> unat (w - of_nat k) = 0" by (simp add: unat_eq_0)
  with u assms show "w - of_nat k = 0 \<longleftrightarrow> unat w = k" by auto
qed

text \<open>A buffer that ends before the body does.\<close>

lemma execute_body_part:
  assumes "state hp = s_body_identity" "http_errno hp = HPE_OK" "content_length hp \<noteq> ULLONG_MAX"
    and "d \<noteq> []" "length d < unat (content_length hp)"
  shows "http_parser_execute log_settings hp u d =
    Some (Returned (length d) (hp\<lparr>content_length := content_length hp - of_nat (length d)\<rparr>) (u @ [Ev_body d]))"
proof -
  have "content_length hp \<noteq> 0" using assms(5) by auto
  moreover have "min (unat (content_length hp)) (length d) = length d" using assms(5) by simp
  moreover have "content_length hp - of_nat (length d) \<noteq> 0"
    using sub_of_nat_eq_0(1) [of "length d" "content_length hp"] assms(5) by simp
  moreover have "Suc (length d - Suc 0) = length d" using assms(4) by simp
  moreover have "hp\<lparr>content_length := c, state := s_body_identity\<rparr> = hp\<lparr>content_length := c\<rparr>" for c
    using assms(1) by (cases hp) simp
  ultimately show ?thesis using assms by (simp add: body_defs)
qed

text \<open>The buffer that ends with the body.\<close>

lemma execute_body_end:
  assumes "state hp = s_body_identity" "http_errno hp = HPE_OK" "content_length hp \<noteq> ULLONG_MAX"
    and "d \<noteq> []" "length d = unat (content_length hp)" "\<not> upgrade hp"
  shows "http_parser_execute log_settings hp u d =
    Some (Returned (length d) (hp\<lparr>content_length := 0, state := NEW_MESSAGE (hp\<lparr>content_length := 0\<rparr>)\<rparr>)
      (u @ [Ev_body d, Ev_message_complete]))"
proof -
  have "content_length hp \<noteq> 0" using assms(4,5) by auto
  moreover have "content_length hp - of_nat (length d) = 0" unfolding assms(5) by simp
  moreover have "Suc (length d - Suc 0) = length d" using assms(4) by simp
  moreover have "NEW_MESSAGE (hp'\<lparr>state := s\<rparr>) = NEW_MESSAGE hp'" for hp' s
    by (simp add: NEW_MESSAGE_def http_should_keep_alive_def http_message_needs_eof_def has_flag_def start_state_def)
  ultimately show ?thesis using assms by (simp add: body_defs)
qed

lemma unat_le_ULLONG_MAX: "unat (w :: u64) \<le> unat ULLONG_MAX"
  by (simp add: ULLONG_MAX_def flip: word_le_nat_alt)

lemma feed_body:
  assumes "state hp = s_body_identity" "http_errno hp = HPE_OK" "content_length hp \<noteq> ULLONG_MAX" "\<not> upgrade hp"
    and "ds \<noteq> []" "\<forall>d \<in> set ds. d \<noteq> []" "length (concat ds) = unat (content_length hp)"
  shows "http_feed log_settings hp u ds =
    Some (hp\<lparr>content_length := 0, state := NEW_MESSAGE (hp\<lparr>content_length := 0\<rparr>)\<rparr>,
      u @ map Ev_body ds @ [Ev_message_complete])"
  using assms
proof (induction ds arbitrary: hp u)
  case (Cons d ds)
  show ?case
  proof (cases "ds = []")
    case True
    with Cons.prems execute_body_end [of hp d u] show ?thesis by simp
  next
    case False
    then obtain d2 ds2 where "ds = d2 # ds2" by (cases ds) auto
    with Cons.prems(6,7) have "0 < length d2" "length d + length d2 \<le> unat (content_length hp)" by auto
    then have less: "length d < unat (content_length hp)" by linarith
    let ?hp = "hp\<lparr>content_length := content_length hp - of_nat (length d)\<rparr>"
    have cl: "unat (content_length ?hp) = unat (content_length hp) - length d"
      using sub_of_nat_eq_0(2) [of "length d" "content_length hp"] less by simp
    have "0 < length d" using Cons.prems(6) by simp
    then have "unat (content_length ?hp) < unat (content_length hp)" using cl less by simp
    also have "unat (content_length hp) \<le> unat ULLONG_MAX" by (rule unat_le_ULLONG_MAX)
    finally have "unat (content_length ?hp) < unat ULLONG_MAX" .
    then have "content_length ?hp \<noteq> ULLONG_MAX" by auto
    with Cons.IH [of ?hp "u @ [Ev_body d]"] Cons.prems False cl
      execute_body_part [of hp d u, OF _ _ _ _ less] show ?thesis by simp
  qed
qed simp


section \<open>Sizes\<close>

lemma scaled_unat:
  assumes "unat (w :: u64) * k + n < 2 ^ 64"
  shows "unat (w * of_nat k + of_nat n) = unat w * k + n"
proof -
  have "w * of_nat k + of_nat n = of_nat (unat w * k + n)" by simp
  then have "unat (w * of_nat k + of_nat n) = unat (of_nat (unat w * k + n) :: u64)" by (rule arg_cong)
  also have "\<dots> = unat w * k + n" unfolding unat_of_nat using assms by simp
  finally show ?thesis .
qed

lemma ULLONG_limits:
  "(ULLONG_MAX - 10) div 10 < w \<longleftrightarrow> 1844674407370955160 < unat w"
  "(ULLONG_MAX - 16) div 16 < w \<longleftrightarrow> 1152921504606846974 < unat w"
  by (simp_all add: ULLONG_MAX_def word_less_nat_alt)

lemma digit_of_value: "IS_NUM c \<Longrightarrow> digit_of c = of_nat (uchar c - 48)"
proof -
  assume "IS_NUM c"
  moreover have "schar CHR ''0'' = 48" by (simp add: schar_def uchar_def)
  ultimately show ?thesis by (simp add: digit_of_def IS_NUM_iff schar_def of_nat_diff)
qed

lemma content_length_exact:
  assumes "IS_NUM (cur fr)"
  shows "case content_length_step h fr of
      Value_next fr' h' \<Rightarrow>
        unat (content_length (parser fr')) = unat (content_length (parser fr)) * 10 + (uchar (cur fr) - 48)
    | Value_exit fl \<Rightarrow> 2 ^ 64 - 10 < unat (content_length (parser fr)) * 10 + 10"
proof -
  define k where "k = uchar (cur fr) - 48"
  have k: "k < 10" "digit_of (cur fr) = (of_nat k :: u64)"
    using assms digit_of_value [OF assms] by (auto simp: k_def IS_NUM_iff)
  have "cur fr \<noteq> CHR '' ''" using assms by (auto simp: IS_NUM_iff uchar_def)
  moreover have "unat (content_length (parser fr) * 10 + of_nat k) = unat (content_length (parser fr)) * 10 + k"
    if "\<not> 1844674407370955160 < unat (content_length (parser fr))"
    using that k scaled_unat [of "content_length (parser fr)" 10 k] by simp
  ultimately show ?thesis
    using assms k(2) unfolding k_def [symmetric]
    by (simp add: content_length_step_def Let_def ULLONG_limits with_parser_def)
qed

lemma chunk_size_exact:
  assumes "has_flag (parser fr) F_CHUNKED" "cur fr \<noteq> CR" "0 \<le> unhex_at (cur fr)"
  shows "case case_chunk_size fr of
      Break fr' \<Rightarrow>
        int (unat (content_length (parser fr'))) = int (unat (content_length (parser fr))) * 16 + unhex_at (cur fr)
    | GotoError fr' \<Rightarrow> http_errno (parser fr') = HPE_INVALID_CONTENT_LENGTH \<and>
        2 ^ 64 - 32 < unat (content_length (parser fr)) * 16 + 16
    | _ \<Rightarrow> False"
proof -
  obtain n where n: "unhex_at (cur fr) = int n" using assms(3) nonneg_int_cases by blast
  have "n < 16" using n by (auto simp: unhex_at_eq split: if_splits)
  then have "unat (content_length (parser fr) * 16 + of_nat n) = unat (content_length (parser fr)) * 16 + n"
    if "\<not> 1152921504606846974 < unat (content_length (parser fr))"
    using that scaled_unat [of "content_length (parser fr)" 16 n] by simp
  then show ?thesis
    using assms by (simp add: case_chunk_size_def Let_def ULLONG_limits with_parser_def assert_then_def n fail_def SET_ERRNO_def)
qed


section \<open>A closed connection\<close>

lemma dead_step:
  assumes "drop (pos fr) d = c # rest" "p_state fr = s_dead" "unat (nread (parser fr)) < HTTP_MAX_HEADER_SIZE"
  defines "hp \<equiv> (parser fr)\<lparr>nread := nread (parser fr) + 1\<rparr>"
  shows "exec_loop S d fr =
    (if c = CR \<or> c = LF then exec_loop S d (fr\<lparr>cur := c, parser := hp, pos := pos fr + 1\<rparr>)
     else Some (Returned (pos fr) (hp\<lparr>http_errno := HPE_CLOSED_CONNECTION, state := s_dead\<rparr>) (usr fr)))"
    and "unat (nread hp) = unat (nread (parser fr)) + 1"
proof -
  have n: "unat (nread (parser fr) + 1) = unat (nread (parser fr)) + 1"
    using assms(3) by (simp add: HTTP_MAX_HEADER_SIZE_def unat_word_ariths)
  then show "unat (nread hp) = unat (nread (parser fr)) + 1" by (simp add: hp_def)
  have p: "pos fr \<noteq> length d" "d ! pos fr = c" using drop_Cons_nth [OF assms(1)] by auto
  have c: "count_byte (fr\<lparr>cur := c\<rparr>) = Break (fr\<lparr>cur := c, parser := hp\<rparr>)"
    using assms(2,3) n by (simp add: count_byte_def PARSING_HEADER_def less_eq_pstate_def COUNT_HEADER_SIZE_def
        with_parser_def hp_def)
  have "exec_switch S d (fr\<lparr>cur := c, parser := hp\<rparr>) =
      (if c = CR \<or> c = LF then Break (fr\<lparr>cur := c, parser := hp\<rparr>)
       else fail HPE_CLOSED_CONNECTION (fr\<lparr>cur := c, parser := hp\<rparr>))"
    using assms(2) by (simp add: exec_switch_def case_dead_def)
  then have "exec_reexec S d (fr\<lparr>cur := c, parser := hp\<rparr>) =
      Some (if c = CR \<or> c = LF then Break (fr\<lparr>cur := c, parser := hp\<rparr>)
       else fail HPE_CLOSED_CONNECTION (fr\<lparr>cur := c, parser := hp\<rparr>))"
    by (subst exec_reexec.simps) (simp add: fail_def)
  with p c assms(2) show "exec_loop S d fr =
    (if c = CR \<or> c = LF then exec_loop S d (fr\<lparr>cur := c, parser := hp, pos := pos fr + 1\<rparr>)
     else Some (Returned (pos fr) (hp\<lparr>http_errno := HPE_CLOSED_CONNECTION, state := s_dead\<rparr>) (usr fr)))"
    by (subst exec_loop.simps) (simp add: fail_def SET_ERRNO_def with_parser_def)
qed

lemma dead_loop:
  assumes "drop (pos fr) d = bs @ c # rest" "\<forall>b \<in> set bs. b = CR \<or> b = LF" "c \<noteq> CR" "c \<noteq> LF"
    and "p_state fr = s_dead" "unat (nread (parser fr)) + length bs < HTTP_MAX_HEADER_SIZE"
  shows "\<exists>n. exec_loop S d fr = Some (Returned (pos fr + length bs)
    ((parser fr)\<lparr>nread := n, http_errno := HPE_CLOSED_CONNECTION, state := s_dead\<rparr>) (usr fr))"
  using assms
proof (induction bs arbitrary: fr)
  case Nil
  with dead_step(1) [of fr d c rest S] show ?case by auto
next
  case (Cons b bs)
  let ?hp = "(parser fr)\<lparr>nread := nread (parser fr) + 1\<rparr>"
  have b: "drop (pos fr) d = b # (bs @ c # rest)" using Cons.prems(1) by simp
  have less: "unat (nread (parser fr)) < HTTP_MAX_HEADER_SIZE" using Cons.prems(6) by simp
  have d: "drop (pos fr + 1) d = bs @ c # rest" using drop_Cons_nth(3) [OF b] .
  have "exec_loop S d fr = exec_loop S d (fr\<lparr>cur := b, parser := ?hp, pos := pos fr + 1\<rparr>)"
    using dead_step(1) [OF b Cons.prems(5) less, of S] Cons.prems(2) by auto
  moreover from Cons.IH [of "fr\<lparr>cur := b, parser := ?hp, pos := pos fr + 1\<rparr>"] Cons.prems d
    dead_step(2) [OF b Cons.prems(5) less]
  obtain n where "exec_loop S d (fr\<lparr>cur := b, parser := ?hp, pos := pos fr + 1\<rparr>) =
    Some (Returned (pos fr + 1 + length bs)
      ((parser fr)\<lparr>nread := n, http_errno := HPE_CLOSED_CONNECTION, state := s_dead\<rparr>) (usr fr))" by auto
  ultimately show ?case by auto
qed


lemma execute_dead:
  assumes "state hp = s_dead" "http_errno hp = HPE_OK" "\<forall>b \<in> set bs. b = CR \<or> b = LF" "c \<noteq> CR" "c \<noteq> LF"
    and "unat (nread hp) + length bs < HTTP_MAX_HEADER_SIZE"
  shows "\<exists>n. http_parser_execute S hp u (bs @ c # rest) = Some (Returned (length bs)
    (hp\<lparr>nread := n, http_errno := HPE_CLOSED_CONNECTION, state := s_dead\<rparr>) u)"
  using assms dead_loop [of "init_frame hp u" "bs @ c # rest" bs c rest S]
  by (auto simp: http_parser_execute_def init_frame_def url_state_def)


section \<open>Properties\<close>



text \<open>
  C5: every method is recognised. A new request parser that reads the text of a method, as
  \<open>http_method_str\<close> gives it, and a blank accepts all of it, records exactly this method and
  goes on to the URL; in particular the switch on the pairs of characters at which method names
  part never confuses two of the methods.
\<close>

theorem http_method_recognised:
  "\<exists>hp. http_parser_execute http_parser_settings_init (http_parser_init HTTP_REQUEST) ()
       (http_method_str (method_num m) @ '' '') =
     Some (Returned (length (http_method_str (method_num m)) + 1) hp ()) \<and>
     method_of hp = m \<and> state hp = s_req_spaces_before_url \<and> http_errno hp = HPE_OK"
  by (cases m) (simp_all add: exec_eval http_method_str_def method_switch_def)

text \<open>
  C6: sizes do not wrap around. A digit of a \<open>Content-Length\<close> value multiplies the 64-bit
  length by ten and adds the digit as in the natural numbers, a digit of a chunk size by sixteen; the
  digits that could overflow are refused, and only when the length is within reach of \<open>2^64\<close>.
\<close>

theorem http_sizes_exact:
  "(IS_NUM (cur fr) \<longrightarrow> (case content_length_step h fr of
      Value_next fr' h' \<Rightarrow>
        unat (content_length (parser fr')) = unat (content_length (parser fr)) * 10 + (uchar (cur fr) - 48)
    | Value_exit fl \<Rightarrow> 2 ^ 64 - 10 < unat (content_length (parser fr)) * 10 + 10)) \<and>
   (has_flag (parser fr) F_CHUNKED \<and> cur fr \<noteq> CR \<and> 0 \<le> unhex_at (cur fr) \<longrightarrow> (case case_chunk_size fr of
      Break fr' \<Rightarrow>
        int (unat (content_length (parser fr'))) = int (unat (content_length (parser fr))) * 16 + unhex_at (cur fr)
    | GotoError fr' \<Rightarrow> http_errno (parser fr') = HPE_INVALID_CONTENT_LENGTH \<and>
        2 ^ 64 - 32 < unat (content_length (parser fr)) * 16 + 16
    | _ \<Rightarrow> False))"
  using content_length_exact chunk_size_exact by blast

theorem http_sizes_exact_witness:
  "let fr = (init_frame ((http_parser_init HTTP_REQUEST)\<lparr>content_length := 4, flags := F_CHUNKED\<rparr>) ())\<lparr>cur := CHR ''2''\<rparr>
   in (case content_length_step h_content_length fr of
         Value_next fr' h' \<Rightarrow> unat (content_length (parser fr')) = 42 | Value_exit fl \<Rightarrow> False) \<and>
      (case case_chunk_size fr of
         Break fr' \<Rightarrow> unat (content_length (parser fr')) = 66 | _ \<Rightarrow> False)"
  using http_sizes_exact [of "(init_frame ((http_parser_init HTTP_REQUEST)\<lparr>content_length := 4, flags := F_CHUNKED\<rparr>) ())\<lparr>cur := CHR ''2''\<rparr>"
      h_content_length]
  by (simp add: init_frame_def http_parser_init_def IS_NUM_iff uchar_def has_flag_def flag_defs CR_def unhex_at_eq
      content_length_step_def case_chunk_size_def ULLONG_limits Let_def with_parser_def assert_then_def digit_of_def schar_def)

text \<open>
  C7: a closed connection accepts nothing. After a message that ends the connection the parser
  skips line ends (up to the limit on headers) and answers every other byte with
  \<open>HPE_CLOSED_CONNECTION\<close>, reporting the position of that byte and calling no callback.
\<close>

theorem http_dead_rejects:
  assumes "state hp = s_dead" "http_errno hp = HPE_OK" "\<forall>b \<in> set bs. b = CR \<or> b = LF" "c \<noteq> CR" "c \<noteq> LF"
    and "unat (nread hp) + length bs < HTTP_MAX_HEADER_SIZE"
  shows "\<exists>n. http_parser_execute S hp u (bs @ c # rest) = Some (Returned (length bs)
    (hp\<lparr>nread := n, http_errno := HPE_CLOSED_CONNECTION, state := s_dead\<rparr>) u)"
  using execute_dead [OF assms] .

theorem http_dead_rejects_witness:
  "\<exists>n. http_parser_execute http_parser_settings_init ((http_parser_init HTTP_REQUEST)\<lparr>state := s_dead\<rparr>) ()
     [CR, LF, CHR ''G'', CHR ''E''] =
   Some (Returned 2 ((http_parser_init HTTP_REQUEST)\<lparr>nread := n, http_errno := HPE_CLOSED_CONNECTION, state := s_dead\<rparr>) ())"
  using http_dead_rejects [of "(http_parser_init HTTP_REQUEST)\<lparr>state := s_dead\<rparr>" "[CR, LF]" "CHR ''G''"
      http_parser_settings_init "()" "''E''"]
  by (simp add: http_parser_init_def HTTP_MAX_HEADER_SIZE_def CR_def LF_def numeral_2_eq_2)

end
