(* ===== verification/Http_Message.thy ===== *)
theory Http_Message
  imports Http_Session
begin

text \<open>
  The C++ class \<open>HttpParser\<close> (\<open>net/httpparser/httpparser.cpp\<close>, \<open>httpparser.h\<close>), the client of
  \<open>http_parser_execute\<close>: its callbacks note where in the received memory the URL, the header fields
  and values and the body lie, and its getters return these places. A pointer is an address of the
  modelled memory, \<open>NULL\<close> is \<open>None\<close>, and a pointer and the length that goes with it are one slice.
  The virtual functions of the class have their default bodies, which return 0.
\<close>

section \<open>Memory and slices\<close>

type_synonym ptr = "nat option"

text \<open>\<open>struct item_value\<close> and \<open>struct chunk_block\<close>: a pointer and a length.\<close>

record slice =
  at :: ptr
  len :: nat

definition null_slice :: slice where
  "null_slice = \<lparr>at = None, len = 0\<rparr>"

text \<open>The bytes a slice denotes. The byte after the modelled memory reads as a NUL.\<close>

definition slice_text :: "char list \<Rightarrow> slice \<Rightarrow> string" where
  "slice_text mem s = (case at s of None \<Rightarrow> [] | Some p \<Rightarrow> take (len s) (drop p mem))"

text \<open>
  The three ways in which the code extends a slice: pointer once and length added, pointer and
  length set at first and the length added later, a new pair.
\<close>

definition add_piece :: "nat \<Rightarrow> nat \<Rightarrow> slice \<Rightarrow> slice" where
  "add_piece p n s = \<lparr>at = (if at s = None then Some p else at s), len = len s + n\<rparr>"

definition add_piece_init :: "nat \<Rightarrow> nat \<Rightarrow> slice \<Rightarrow> slice" where
  "add_piece_init p n s = (if at s = None then \<lparr>at = Some p, len = n\<rparr> else s\<lparr>len := len s + n\<rparr>)"

text \<open>\<open>strchr\<close>, and \<open>strnchr\<close> of \<open>httpparser.cpp\<close>, which tests its first byte in every round.\<close>

definition strchr :: "char list \<Rightarrow> nat \<Rightarrow> char \<Rightarrow> ptr" where
  "strchr mem s c = map_option (\<lambda>i. s + i) (index_of c (takeWhile (\<lambda>x. x \<noteq> NUL) (drop s mem)))"

fun strnchr_loop :: "char list \<Rightarrow> nat \<Rightarrow> nat \<Rightarrow> char \<Rightarrow> nat \<Rightarrow> ptr" where
  "strnchr_loop mem s p c 0 = None"
| "strnchr_loop mem s p c (Suc n) =
     (if cstr_at mem s = NUL then None
      else if cstr_at mem p = c then Some p
      else strnchr_loop mem s (p + 1) c n)"

definition strnchr :: "char list \<Rightarrow> nat \<Rightarrow> char \<Rightarrow> nat \<Rightarrow> ptr" where
  "strnchr mem s c n = strnchr_loop mem s s c n"

text \<open>\<open>http_strnicmp\<close>: the strings are read up to \<open>n\<close> bytes or a NUL.\<close>

primrec strnicmp_loop :: "nat \<Rightarrow> string \<Rightarrow> string \<Rightarrow> int" where
  "strnicmp_loop 0 s1 s2 = 0"
| "strnicmp_loop (Suc n) s1 s2 =
     (let c1 = cstr_at s1 0; c2 = cstr_at s2 0 in
      if c1 = NUL \<or> c2 = NUL then int (uchar c1) - int (uchar c2)
      else if c1 = c2 then (if n = 0 then 0 else strnicmp_loop n (tl s1) (tl s2))
      else if tolower c1 \<noteq> tolower c2 then int (uchar (tolower c1)) - int (uchar (tolower c2))
      else if n = 0 then 0 else strnicmp_loop n (tl s1) (tl s2))"

definition http_strnicmp :: "string \<Rightarrow> string \<Rightarrow> nat \<Rightarrow> int" where
  "http_strnicmp s1 s2 n = strnicmp_loop n s1 s2"

text \<open>\<open>to_upper_s\<close> works up to the first NUL of the string.\<close>

definition to_upper_s :: "string \<Rightarrow> string" where
  "to_upper_s s = map toupper (takeWhile (\<lambda>c. c \<noteq> NUL) s) @ dropWhile (\<lambda>c. c \<noteq> NUL) s"

text \<open>\<open>std::map::insert\<close> keeps an entry that is there.\<close>

definition map_insert :: "'k \<Rightarrow> 'v \<Rightarrow> ('k \<rightharpoonup> 'v) \<Rightarrow> ('k \<rightharpoonup> 'v)" where
  "map_insert k v m = (if m k = None then m(k \<mapsto> v) else m)"


section \<open>Urlencoded bodies\<close>

text \<open>
  \<open>http_urlencoded_body_parser\<close>. The difference \<open>pCur - pEq - 1\<close> is stored as a \<open>size_t\<close>, and both
  searches run on behind \<open>pEnd\<close> up to the next NUL.
\<close>

definition size_diff :: "nat \<Rightarrow> nat \<Rightarrow> nat" where
  "size_diff a b = nat ((int a - int b) mod 2 ^ 64)"

function urlencoded_loop :: "char list \<Rightarrow> nat \<Rightarrow> nat \<Rightarrow> (string \<rightharpoonup> slice) \<Rightarrow> (string \<rightharpoonup> slice)" where
  "urlencoded_loop mem pBegin pEnd m =
     (if pBegin < pEnd then
        (let pCur = (case strchr mem pBegin CHR ''&'' of None \<Rightarrow> pEnd | Some p \<Rightarrow> p);
             m' = (case strchr mem pBegin CHR ''='' of
                     None \<Rightarrow> m
                   | Some pEq \<Rightarrow> map_insert (to_upper_s (take (pEq - pBegin) (drop pBegin mem)))
                       \<lparr>at = Some (pEq + 1), len = size_diff pCur (pEq + 1)\<rparr> m)
         in if pCur = pEnd then m' else urlencoded_loop mem (pCur + 1) pEnd m')
      else m)"
  by pat_completeness auto

lemma strchr_Some:
  assumes "strchr mem s c = Some p"
  shows "s \<le> p" "p < length mem" "mem ! p = c"
proof -
  from assms obtain i where i: "index_of c (takeWhile (\<lambda>x. x \<noteq> NUL) (drop s mem)) = Some i" "p = s + i"
    by (auto simp: strchr_def)
  have l: "length (takeWhile (\<lambda>x. x \<noteq> NUL) (drop s mem)) \<le> length mem - s"
    using length_takeWhile_le [of "\<lambda>x. x \<noteq> NUL" "drop s mem"] by simp
  from index_of_Some [OF i(1)] l i(2) show "s \<le> p" "p < length mem" by auto
  from index_of_Some [OF i(1)] i(2) \<open>p < length mem\<close> show "mem ! p = c" by (auto simp: takeWhile_nth)
qed

termination urlencoded_loop
proof (relation "measure (\<lambda>(mem, pBegin, pEnd, m). pEnd - pBegin)", simp, goal_cases)
  case (1 mem pBegin pEnd m x xa)
  then have "pBegin \<le> x" by (auto split: option.splits dest: strchr_Some(1))
  with 1 show ?case by auto
qed

declare urlencoded_loop.simps [simp del]

definition parse_http_body :: "char list \<Rightarrow> nat \<Rightarrow> nat \<Rightarrow> (string \<rightharpoonup> slice) \<Rightarrow> bool \<times> (string \<rightharpoonup> slice)" where
  "parse_http_body mem p n m = (True, urlencoded_loop mem p (p + n) m)"

definition get_value :: "string \<Rightarrow> (string \<rightharpoonup> slice) \<Rightarrow> slice option" where
  "get_value key m = m (to_upper_s key)"



section \<open>The object\<close>

datatype request_type = HTTP_REQUEST_POST | HTTP_REQUEST_GET | HTTP_REQUEST_UNKNOWN

datatype content_type = CONTENT_TYPE_XML | CONTENT_TYPE_JSON | CONTENT_TYPE_URLENCODE | CONTENT_TYPE_UNKNOWN

datatype msg_header_state =
    header_state_init | header_state_content_type | header_state_host | header_state_x_forwarded_for
  | header_state_expect | header_state_soap_action | header_state_user_agent | header_state_via
  | header_state_x_wap_profile | header_state_x_browser_type | header_state_x_up_bear_type

text \<open>
  The members of the class but \<open>m_parser\<close>, which the callbacks get as an argument. The chunk list is
  a list whose head is the block of \<open>m_pHeaderChunk\<close>, with \<open>m_pCurChunk\<close> as an index into it; the ten
  pairs of members for the known headers (\<open>m_pHost\<close>, \<open>m_nHostLen\<close> and so on) are one function of the
  header state that selects them in the code. The last two fields are the memory the pointers point
  into and the address of the buffer that is being parsed.
\<close>

record HttpParser =
  m_bLastIsValue :: bool
  m_curField :: slice
  m_parser_type :: http_parser_type
  m_chunks :: "slice list"
  m_pCurChunk :: nat
  m_mapHeaderFieldValue :: "string \<rightharpoonup> slice"
  m_itemValue :: slice
  m_bIsFixedUrlEncodedBody :: bool
  m_urlencode_body_parser :: "string \<rightharpoonup> slice"
  m_bChunkPack :: bool
  m_bParseOver :: bool
  m_curr_header_state :: msg_header_state
  m_pBegin :: ptr
  m_nTotalParseLen :: nat
  m_nHttpStatusCode :: nat
  m_bIsKeepAlive :: bool
  m_nReqType :: request_type
  m_url :: slice
  m_body :: slice
  m_nContentType :: content_type
  m_known :: "msg_header_state \<Rightarrow> slice"
  env_mem :: "char list"
  env_data :: nat

definition clear_chunk_list :: "HttpParser \<Rightarrow> HttpParser" where
  "clear_chunk_list o1 = o1\<lparr>m_chunks := take 1 (m_chunks o1), m_pCurChunk := 0\<rparr>"

definition init_class_members :: "HttpParser \<Rightarrow> HttpParser" where
  "init_class_members o1 = clear_chunk_list (o1\<lparr>m_curField := null_slice, m_bLastIsValue := False,
     m_itemValue := null_slice, m_mapHeaderFieldValue := Map.empty, m_urlencode_body_parser := Map.empty,
     m_bChunkPack := False, m_bParseOver := False, m_curr_header_state := header_state_init,
     m_nHttpStatusCode := 0, m_bIsKeepAlive := False, m_nReqType := HTTP_REQUEST_UNKNOWN, m_pBegin := None,
     m_nTotalParseLen := 0, m_url := null_slice, m_body := null_slice, m_nContentType := CONTENT_TYPE_UNKNOWN,
     m_known := (\<lambda>_. null_slice)\<rparr>)"

text \<open>
  The constructor and \<open>reset_parser\<close>. The members that the constructor does not set keep the value
  they have in \<open>raw\<close>, the storage of the object; the members of class type have their own constructors.
\<close>

definition HttpParser_new :: "http_parser_type \<Rightarrow> HttpParser \<Rightarrow> http_parser \<times> HttpParser" where
  "HttpParser_new t raw = (http_parser_init t,
     raw\<lparr>m_parser_type := t, m_bIsFixedUrlEncodedBody := False, m_chunks := [null_slice],
       m_mapHeaderFieldValue := Map.empty, m_itemValue := null_slice, m_urlencode_body_parser := Map.empty\<rparr>)"

definition reset_parser :: "HttpParser \<Rightarrow> http_parser \<times> HttpParser" where
  "reset_parser o1 = (http_parser_init (m_parser_type o1),
     init_class_members (o1\<lparr>m_bIsFixedUrlEncodedBody := False\<rparr>))"


section \<open>The handlers\<close>

definition handleMessageBegin :: "HttpParser \<Rightarrow> int \<times> HttpParser" where
  "handleMessageBegin o1 = (0, init_class_members o1)"

definition handleStatus :: "http_parser \<Rightarrow> HttpParser \<Rightarrow> int \<times> HttpParser" where
  "handleStatus hp o1 = (0, o1\<lparr>m_nHttpStatusCode := unat (status_code hp)\<rparr>)"

definition handleBody :: "nat \<Rightarrow> nat \<Rightarrow> HttpParser \<Rightarrow> int \<times> HttpParser" where
  "handleBody p n o1 = (0,
     if m_bChunkPack o1
     then o1\<lparr>m_chunks := take (m_pCurChunk o1 + 1) ((m_chunks o1)[m_pCurChunk o1 := \<lparr>at = Some p, len = n\<rparr>]) @ [null_slice],
       m_pCurChunk := m_pCurChunk o1 + 1, m_body := (m_body o1)\<lparr>len := len (m_body o1) + n\<rparr>\<rparr>
     else o1\<lparr>m_body := add_piece_init p n (m_body o1)\<rparr>)"

definition handleUrl :: "nat \<Rightarrow> nat \<Rightarrow> HttpParser \<Rightarrow> int \<times> HttpParser" where
  "handleUrl p n o1 = (0, o1\<lparr>m_url := add_piece p n (m_url o1)\<rparr>)"

text \<open>The block that stores a finished header, in \<open>handleHeaderField\<close> and \<open>handleHeadersComplete\<close>.\<close>

definition store_header :: "HttpParser \<Rightarrow> HttpParser" where
  "store_header o1 =
     (if m_bLastIsValue o1 \<and> at (m_curField o1) \<noteq> None
      then o1\<lparr>m_mapHeaderFieldValue :=
            map_insert (to_upper_s (slice_text (env_mem o1) (m_curField o1))) (m_itemValue o1) (m_mapHeaderFieldValue o1),
          m_curField := null_slice, m_itemValue := null_slice, m_curr_header_state := header_state_init,
          m_bLastIsValue := False\<rparr>
      else o1)"

definition name_is :: "string \<Rightarrow> string \<Rightarrow> bool" where
  "name_is p lit \<longleftrightarrow> http_strnicmp p lit (length lit) = 0"

text \<open>The switch on the length of the field name; \<open>old\<close> is the state before.\<close>

definition header_name_state :: "string \<Rightarrow> nat \<Rightarrow> msg_header_state \<Rightarrow> msg_header_state" where
  "header_name_state p nLen old =
     (if nLen = 3 then (if name_is p ''via'' then header_state_via else old)
      else if nLen = 4 then (if name_is p ''host'' then header_state_host else old)
      else if nLen = 6 then (if name_is p ''expect'' then header_state_expect else old)
      else if nLen = 10 then
        (if name_is p ''user-agent'' then header_state_user_agent
         else if name_is p ''soapaction'' then header_state_soap_action else old)
      else if nLen = 12 then (if name_is p ''content-type'' then header_state_content_type else old)
      else if nLen = 13 then (if name_is p ''x-wap-profile'' then header_state_x_wap_profile else old)
      else if nLen = 14 then
        (if name_is p ''x-browser-type'' then header_state_x_browser_type
         else if name_is p ''x-up-bear-type'' then header_state_x_up_bear_type else old)
      else if nLen = 15 then (if name_is p ''x-forwarded-for'' then header_state_x_forwarded_for else old)
      else header_state_init)"

definition mem_from :: "char list \<Rightarrow> ptr \<Rightarrow> string" where
  "mem_from mem p = (case p of None \<Rightarrow> [] | Some a \<Rightarrow> drop a mem)"

definition handleHeaderField :: "nat \<Rightarrow> nat \<Rightarrow> HttpParser \<Rightarrow> int \<times> HttpParser" where
  "handleHeaderField p n o1 =
     (let o2 = store_header o1;
          f = add_piece p n (m_curField o2)
      in (0, o2\<lparr>m_curField := f,
           m_curr_header_state := header_name_state (mem_from (env_mem o2) (at f)) (len f) (m_curr_header_state o2)\<rparr>))"

definition handleHeaderValue :: "nat \<Rightarrow> nat \<Rightarrow> HttpParser \<Rightarrow> int \<times> HttpParser" where
  "handleHeaderValue p n o1 =
     (let o2 = o1\<lparr>m_itemValue := add_piece p n (m_itemValue o1), m_bLastIsValue := True\<rparr>;
          h = m_curr_header_state o2
      in (0, if h = header_state_init then o2
             else o2\<lparr>m_known := (m_known o2)(h := add_piece_init p n (m_known o2 h))\<rparr>))"

primrec content_type_loop :: "nat \<Rightarrow> string \<Rightarrow> content_type" where
  "content_type_loop 0 p = CONTENT_TYPE_UNKNOWN"
| "content_type_loop (Suc r) p =
     (if cstr_at p 0 = CHR ''/'' then
        (if 3 \<le> Suc r \<and> http_strnicmp (tl p) ''xml'' 3 = 0 then CONTENT_TYPE_XML
         else if 4 \<le> Suc r \<and> http_strnicmp (tl p) ''json'' 4 = 0 then CONTENT_TYPE_JSON
         else if 21 \<le> Suc r \<and> http_strnicmp (tl p) ''x-www-form-urlencoded'' 21 = 0 then CONTENT_TYPE_URLENCODE
         else content_type_loop r (tl p))
      else content_type_loop r (tl p))"

definition parse_content_type :: "HttpParser \<Rightarrow> content_type" where
  "parse_content_type o1 =
     (let ct = m_known o1 header_state_content_type in
      if at ct = None then CONTENT_TYPE_UNKNOWN else content_type_loop (len ct) (mem_from (env_mem o1) (at ct)))"

definition letter_at :: "char list \<Rightarrow> nat \<Rightarrow> char \<Rightarrow> char \<Rightarrow> bool" where
  "letter_at mem p upper lower \<longleftrightarrow> cstr_at mem p = upper \<or> cstr_at mem p = lower"

definition parse_request_type :: "HttpParser \<Rightarrow> request_type" where
  "parse_request_type o1 =
     (case at (m_url o1) of
        None \<Rightarrow> HTTP_REQUEST_UNKNOWN
      | Some p \<Rightarrow>
          (let mem = env_mem o1 in
           if letter_at mem (p - 2) CHR ''T'' CHR ''t'' \<and> letter_at mem (p - 3) CHR ''S'' CHR ''s'' \<and>
              letter_at mem (p - 4) CHR ''O'' CHR ''o'' \<and> letter_at mem (p - 5) CHR ''P'' CHR ''p''
           then HTTP_REQUEST_POST
           else if letter_at mem (p - 2) CHR ''T'' CHR ''t'' \<and> letter_at mem (p - 3) CHR ''E'' CHR ''e'' \<and>
              letter_at mem (p - 4) CHR ''G'' CHR ''g''
           then HTTP_REQUEST_GET
           else HTTP_REQUEST_UNKNOWN))"

definition handleHeadersComplete :: "http_parser \<Rightarrow> HttpParser \<Rightarrow> int \<times> HttpParser" where
  "handleHeadersComplete hp o1 =
     (let o2 = store_header o1 in
      (0, o2\<lparr>m_bIsKeepAlive := http_should_keep_alive hp, m_nContentType := parse_content_type o2,
        m_nReqType := parse_request_type o2, m_nHttpStatusCode := unat (status_code hp)\<rparr>))"

text \<open>
  For a GET request the text after the question mark becomes the body. The request type is only set
  to GET when there is a URL, so the search never starts at a null pointer.
\<close>

definition split_query :: "HttpParser \<Rightarrow> HttpParser" where
  "split_query o1 =
     (case at (m_url o1) of
        None \<Rightarrow> o1
      | Some pUrl \<Rightarrow>
          (case strnchr (env_mem o1) pUrl CHR ''?'' 128 of
             None \<Rightarrow> o1
           | Some pHelp \<Rightarrow>
               (let urllen = int pHelp - int pUrl;
                    bodylen = int (len (m_url o1)) - urllen - 1
                in if 0 \<le> urllen
                   then o1\<lparr>m_body := \<lparr>at = Some (pHelp + 1), len = nat bodylen\<rparr>,
                     m_url := (m_url o1)\<lparr>len := nat urllen\<rparr>\<rparr>
                   else o1\<lparr>m_body := \<lparr>at = Some (pHelp + 1), len = 0\<rparr>, m_url := (m_url o1)\<lparr>len := 0\<rparr>\<rparr>)))"

definition handleMessageComplete :: "HttpParser \<Rightarrow> int \<times> HttpParser" where
  "handleMessageComplete o1 =
     (let o2 = (if m_nReqType o1 = HTTP_REQUEST_GET then split_query o1 else o1)
      in (0, o2\<lparr>m_bParseOver := True\<rparr>))"

definition handleChunkHeader :: "HttpParser \<Rightarrow> int \<times> HttpParser" where
  "handleChunkHeader o1 = (0, o1\<lparr>m_bChunkPack := True\<rparr>)"


section \<open>The callbacks\<close>

text \<open>
  \<open>HttpParserSettings\<close>: every callback finds the object and calls \<open>onParser\<close>, which calls the
  handler. \<open>on_chunk_complete\<close> is commented out in the constructor of the settings.
\<close>

definition notify :: "(HttpParser \<Rightarrow> int \<times> HttpParser) \<Rightarrow> HttpParser http_cb" where
  "notify h hp o1 = (case h o1 of (r, o2) \<Rightarrow> (r, hp, o2))"

definition deliver :: "(nat \<Rightarrow> nat \<Rightarrow> HttpParser \<Rightarrow> int \<times> HttpParser) \<Rightarrow> HttpParser http_data_cb" where
  "deliver h hp d a n o1 = (case h (env_data o1 + a) n o1 of (r, o2) \<Rightarrow> (r, hp, o2))"

definition ms_settings :: "HttpParser http_parser_settings" where
  "ms_settings =
     \<lparr>on_message_begin = Some (notify handleMessageBegin), on_url = Some (deliver handleUrl),
      on_status = Some (\<lambda>hp. deliver (\<lambda>_ _. handleStatus hp) hp),
      on_header_field = Some (deliver handleHeaderField), on_header_value = Some (deliver handleHeaderValue),
      on_headers_complete = Some (\<lambda>hp. notify (handleHeadersComplete hp) hp),
      on_body = Some (deliver handleBody), on_message_complete = Some (notify handleMessageComplete),
      on_chunk_header = Some (notify handleChunkHeader), on_chunk_complete = None\<rparr>"

text \<open>
  \<open>execute_http_parse\<close>: the buffer is the part of the memory at address \<open>p\<close>. The result is the error
  code and \<open>over\<close>, with the parser and the object; \<open>None\<close> when \<open>http_parser_execute\<close> does not return.
\<close>

definition execute_http_parse ::
    "nat \<Rightarrow> nat \<Rightarrow> http_parser \<times> HttpParser \<Rightarrow> (nat \<times> bool \<times> http_parser \<times> HttpParser) option" where
  "execute_http_parse p n po =
     (case http_parser_execute ms_settings (fst po) ((snd po)\<lparr>env_data := p\<rparr>) (take n (drop p (env_mem (snd po)))) of
        Some (Returned parsed hp o1) \<Rightarrow>
          (let nErrCode = (if upgrade hp then 0 else if parsed \<noteq> n then errno_num (http_errno hp) else 0)
           in Some (nErrCode, m_bParseOver o1, hp,
                o1\<lparr>m_pBegin := (if m_pBegin o1 = None then Some p else m_pBegin o1),
                  m_nTotalParseLen := m_nTotalParseLen o1 + n\<rparr>))
      | _ \<Rightarrow> None)"


section \<open>The getters\<close>

text \<open>A getter that returns 0 and sets nothing is \<open>None\<close>.\<close>

definition get_known :: "msg_header_state \<Rightarrow> HttpParser \<Rightarrow> slice option" where
  "get_known h o1 = (if at (m_known o1 h) = None then None else Some (m_known o1 h))"

definition get_http_host :: "HttpParser \<Rightarrow> slice option" where "get_http_host = get_known header_state_host"
definition get_http_user_agent :: "HttpParser \<Rightarrow> slice option" where "get_http_user_agent = get_known header_state_user_agent"
definition get_http_x_forwarded_for :: "HttpParser \<Rightarrow> slice option" where "get_http_x_forwarded_for = get_known header_state_x_forwarded_for"
definition get_http_soapaction :: "HttpParser \<Rightarrow> slice option" where "get_http_soapaction = get_known header_state_soap_action"
definition get_http_via :: "HttpParser \<Rightarrow> slice option" where "get_http_via = get_known header_state_via"
definition get_http_x_wap_profile :: "HttpParser \<Rightarrow> slice option" where "get_http_x_wap_profile = get_known header_state_x_wap_profile"
definition get_http_x_browser_Type :: "HttpParser \<Rightarrow> slice option" where "get_http_x_browser_Type = get_known header_state_x_browser_type"
definition get_http_x_up_bear_Type :: "HttpParser \<Rightarrow> slice option" where "get_http_x_up_bear_Type = get_known header_state_x_up_bear_type"

definition get_http_url :: "HttpParser \<Rightarrow> slice option" where
  "get_http_url o1 = (if at (m_url o1) = None then None else Some (m_url o1))"

definition get_http_body_data :: "HttpParser \<Rightarrow> slice" where
  "get_http_body_data o1 = m_body o1"

definition get_http_body_len :: "HttpParser \<Rightarrow> nat" where
  "get_http_body_len o1 = len (m_body o1)"

definition get_http_total_req_len :: "HttpParser \<Rightarrow> nat" where
  "get_http_total_req_len o1 = m_nTotalParseLen o1"

definition get_http_request_content :: "HttpParser \<Rightarrow> slice option" where
  "get_http_request_content o1 = (if m_pBegin o1 = None then None else Some \<lparr>at = m_pBegin o1, len = m_nTotalParseLen o1\<rparr>)"

text \<open>\<open>get_http_body_chunk_data\<close>: the bytes it copies to the destination, in order.\<close>

definition get_http_body_chunk_data :: "HttpParser \<Rightarrow> string" where
  "get_http_body_chunk_data o1 = concat (map (slice_text (env_mem o1)) (m_chunks o1))"

definition expect_100_continue :: "HttpParser \<Rightarrow> bool" where
  "expect_100_continue o1 =
     (let e = m_known o1 header_state_expect in
      at e \<noteq> None \<and> len e = 12 \<and> http_strnicmp (mem_from (env_mem o1) (at e)) ''100-continue'' (len e) = 0)"

definition get_http_content_type_str :: "HttpParser \<Rightarrow> string" where
  "get_http_content_type_str o1 =
     (let ct = m_known o1 header_state_content_type in
      if at ct \<noteq> None \<and> 0 < len ct then slice_text (env_mem o1) ct else [])"

definition get_http_header_field_value :: "string \<Rightarrow> HttpParser \<Rightarrow> slice option" where
  "get_http_header_field_value field o1 =
     (case m_mapHeaderFieldValue o1 (to_upper_s field) of
        None \<Rightarrow> None
      | Some v \<Rightarrow> if at v = None then None else Some v)"



section \<open>The callbacks keep the contract of the parser\<close>

text \<open>
  The callbacks never write the parser, and they keep the object well formed: the current block of the
  chunk list is the last, every block filled since the message began lies inside the received memory,
  the other pointers point into it (the body of a GET request up to 128 bytes behind it), and there is
  a URL when the request is a GET.
\<close>

definition slice_within :: "nat \<Rightarrow> nat \<Rightarrow> slice \<Rightarrow> bool" where
  "slice_within lo hi s \<longleftrightarrow> (\<exists>p. at s = Some p \<and> lo \<le> p \<and> p + len s \<le> hi)"

definition ptr_within :: "nat \<Rightarrow> nat \<Rightarrow> ptr \<Rightarrow> bool" where
  "ptr_within lo hi p \<longleftrightarrow> (\<forall>a. p = Some a \<longrightarrow> lo \<le> a \<and> a \<le> hi)"

definition obj_inv :: "nat \<Rightarrow> nat \<Rightarrow> HttpParser \<Rightarrow> bool" where
  "obj_inv lo hi o1 \<longleftrightarrow> m_pCurChunk o1 + 1 = length (m_chunks o1) \<and>
     (\<forall>i < m_pCurChunk o1. slice_within lo hi (m_chunks o1 ! i)) \<and>
     (m_nReqType o1 = HTTP_REQUEST_GET \<longrightarrow> at (m_url o1) \<noteq> None) \<and>
     ptr_within lo hi (at (m_url o1)) \<and> ptr_within lo (hi + 128) (at (m_body o1)) \<and>
     ptr_within lo hi (at (m_curField o1)) \<and> ptr_within lo hi (at (m_itemValue o1)) \<and>
     (\<forall>h. ptr_within lo hi (at (m_known o1 h))) \<and>
     (\<forall>k v. m_mapHeaderFieldValue o1 k = Some v \<longrightarrow> ptr_within lo hi (at v))"

lemma ptr_within_simps [simp]: "ptr_within lo hi None" "ptr_within lo hi (Some a) \<longleftrightarrow> lo \<le> a \<and> a \<le> hi"
  by (simp_all add: ptr_within_def)

lemma at_null_slice [simp]: "at null_slice = None" "len null_slice = 0"
  by (simp_all add: null_slice_def)

lemma ptr_within_add_piece [simp]:
  "ptr_within lo hi (at (add_piece p n s)) \<longleftrightarrow> (if at s = None then lo \<le> p \<and> p \<le> hi else ptr_within lo hi (at s))"
  "ptr_within lo hi (at (add_piece_init p n s)) \<longleftrightarrow> (if at s = None then lo \<le> p \<and> p \<le> hi else ptr_within lo hi (at s))"
  by (auto simp: add_piece_def add_piece_init_def)

lemma at_add_piece [simp]: "at (add_piece p n s) \<noteq> None" "at (add_piece_init p n s) \<noteq> None"
  by (auto simp: add_piece_def add_piece_init_def)

lemma obj_inv_init: "m_chunks o1 \<noteq> [] \<Longrightarrow> obj_inv lo hi (init_class_members o1)"
  by (cases "m_chunks o1") (auto simp: obj_inv_def init_class_members_def clear_chunk_list_def)

lemma obj_inv_mono: "obj_inv lo hi o1 \<Longrightarrow> hi \<le> hi' \<Longrightarrow> obj_inv lo hi' o1"
  unfolding obj_inv_def slice_within_def ptr_within_def by (meson add_le_mono le_trans order_refl)

lemma handleBody_inv:
  assumes "obj_inv lo hi o1" "lo \<le> p" "p + n \<le> hi"
  shows "obj_inv lo hi (snd (handleBody p n o1))"
proof (cases "m_bChunkPack o1")
  case True
  let ?c = "m_pCurChunk o1"
  have c: "?c < length (m_chunks o1)" "?c + 1 = length (m_chunks o1)" using assms(1) by (auto simp: obj_inv_def)
  have "slice_within lo hi ((m_chunks o1)[?c := \<lparr>at = Some p, len = n\<rparr>] ! i)" if "i < ?c + 1" for i
    using that c assms by (cases "i = ?c") (auto simp: obj_inv_def slice_within_def)
  with True c assms(1) show ?thesis by (auto simp: obj_inv_def handleBody_def nth_append)
qed (use assms in \<open>auto simp: obj_inv_def handleBody_def\<close>)

lemma store_header_inv: "obj_inv lo hi o1 \<Longrightarrow> obj_inv lo hi (store_header o1)"
  by (auto simp: obj_inv_def store_header_def map_insert_def)

lemma strnchr_bound: "strnchr mem s c n = Some p \<Longrightarrow> s \<le> p \<and> p < s + n \<and> cstr_at mem p = c"
proof -
  have "strnchr_loop mem s q c n = Some p \<Longrightarrow> q \<le> p \<and> p < q + n \<and> cstr_at mem p = c" for q
    by (induction n arbitrary: q) (force split: if_splits)+
  then show "strnchr mem s c n = Some p \<Longrightarrow> s \<le> p \<and> p < s + n \<and> cstr_at mem p = c" by (simp add: strnchr_def)
qed

lemma split_query_inv: "obj_inv lo hi o1 \<Longrightarrow> obj_inv lo hi (split_query o1)"
  unfolding obj_inv_def split_query_def
  by (auto simp: Let_def dest!: strnchr_bound split: option.split)

lemma parse_request_type_GET: "parse_request_type o1 = HTTP_REQUEST_GET \<Longrightarrow> at (m_url o1) \<noteq> None"
  by (cases "at (m_url o1)") (auto simp: parse_request_type_def)

lemma handlers_inv:
  assumes "obj_inv lo hi o1"
  shows "obj_inv lo hi (snd (handleMessageBegin o1))" "obj_inv lo hi (snd (handleStatus hp o1))"
    "obj_inv lo hi (snd (handleHeadersComplete hp o1))" "obj_inv lo hi (snd (handleMessageComplete o1))"
    "obj_inv lo hi (snd (handleChunkHeader o1))"
    "lo \<le> p \<Longrightarrow> p + n \<le> hi \<Longrightarrow> obj_inv lo hi (snd (handleUrl p n o1))"
    "lo \<le> p \<Longrightarrow> p + n \<le> hi \<Longrightarrow> obj_inv lo hi (snd (handleHeaderField p n o1))"
    "lo \<le> p \<Longrightarrow> p + n \<le> hi \<Longrightarrow> obj_inv lo hi (snd (handleHeaderValue p n o1))"
proof -
  show "obj_inv lo hi (snd (handleMessageBegin o1))"
    using assms obj_inv_init [of o1 lo hi] by (cases "m_chunks o1") (auto simp: handleMessageBegin_def obj_inv_def [of _ _ o1])
  show "obj_inv lo hi (snd (handleStatus hp o1))" "obj_inv lo hi (snd (handleChunkHeader o1))"
    using assms by (simp_all add: handleStatus_def handleChunkHeader_def obj_inv_def)
  show "obj_inv lo hi (snd (handleHeadersComplete hp o1))"
    using store_header_inv [OF assms] parse_request_type_GET [of "store_header o1"]
    by (simp add: handleHeadersComplete_def Let_def obj_inv_def)
  show "obj_inv lo hi (snd (handleMessageComplete o1))"
    using split_query_inv [OF assms] assms by (simp add: handleMessageComplete_def Let_def obj_inv_def)
  assume p: "lo \<le> p" "p + n \<le> hi"
  show "obj_inv lo hi (snd (handleUrl p n o1))" using assms p by (auto simp: handleUrl_def obj_inv_def)
  show "obj_inv lo hi (snd (handleHeaderField p n o1))"
    using store_header_inv [OF assms] p by (auto simp: handleHeaderField_def Let_def obj_inv_def)
  show "obj_inv lo hi (snd (handleHeaderValue p n o1))"
    using assms p by (auto simp: handleHeaderValue_def Let_def obj_inv_def)
qed

text \<open>No handler changes the memory or the place of the buffer, and every handler returns 0.\<close>

lemma env_store_header [simp]: "env_mem (store_header o1) = env_mem o1" "env_data (store_header o1) = env_data o1"
  by (simp_all add: store_header_def)

lemma env_split_query [simp]: "env_mem (split_query o1) = env_mem o1" "env_data (split_query o1) = env_data o1"
  by (simp_all add: split_query_def Let_def split: option.split)

lemmas handler_defs_all = handleMessageBegin_def handleStatus_def handleHeadersComplete_def handleMessageComplete_def
  handleChunkHeader_def handleUrl_def handleHeaderField_def handleHeaderValue_def handleBody_def Let_def
  init_class_members_def clear_chunk_list_def

definition obj_at :: "nat \<Rightarrow> nat \<Rightarrow> char list \<Rightarrow> nat \<Rightarrow> HttpParser \<Rightarrow> bool" where
  "obj_at lo hi mem p o1 \<longleftrightarrow> obj_inv lo hi o1 \<and> env_mem o1 = mem \<and> env_data o1 = p"

lemma ms_settings_well_behaved:
  assumes "lo \<le> p" "p + length d \<le> hi"
  shows "http_buffer_callbacks ms_settings (obj_at lo hi mem p) d"
proof
  fix k cb hp hp' u u' r
  assume "on_notify k ms_settings = Some cb" "obj_at lo hi mem p u" "cb hp u = (r, hp', u')"
  then show "(hp' = hp \<or> hp' = hp\<lparr>http_errno := HPE_PAUSED\<rparr>) \<and> obj_at lo hi mem p u'"
    using handlers_inv [of lo hi u]
    by (cases k) (auto simp: ms_settings_def notify_def obj_at_def handler_defs_all split: prod.splits)
next
  fix cb hp hp' u u' r
  assume "on_headers_complete ms_settings = Some cb" "obj_at lo hi mem p u" "cb hp u = (r, hp', u')"
  then show "(hp' = hp \<or> hp' = hp\<lparr>http_errno := HPE_PAUSED\<rparr>) \<and> obj_at lo hi mem p u'"
    using handlers_inv(3) [of lo hi u hp]
    by (auto simp: ms_settings_def notify_def obj_at_def handleHeadersComplete_def Let_def)
next
  fix f dcb hp hp' u u' r a l
  assume "on_data f ms_settings = Some dcb" "obj_at lo hi mem p u" "a + l \<le> length d" "dcb hp d a l u = (r, hp', u')"
  moreover from this assms have "lo \<le> p + a" "p + a + l \<le> hi" by auto
  ultimately show "(hp' = hp \<or> hp' = hp\<lparr>http_errno := HPE_PAUSED\<rparr>) \<and> obj_at lo hi mem p u'"
    using handlers_inv(6-8) [of lo hi u "p + a" l] handlers_inv(2) [of lo hi u hp] handleBody_inv [of lo hi u "p + a" l]
    by (cases f) (auto simp: ms_settings_def deliver_def obj_at_def handler_defs_all split: prod.splits)
qed


interpretation message: http_buffer_callbacks ms_settings "obj_at lo (lo + k + length d) mem (lo + k)" d for lo k mem d
  by (rule ms_settings_well_behaved) simp_all


section \<open>Parsing a message that arrives in pieces\<close>

lemma execute_http_parse_ok:
  assumes "parser_inv hp" "obj_inv lo p o1" "lo \<le> p" "p + n \<le> length (env_mem o1)"
  shows "\<exists>e over hp' o2. execute_http_parse p n (hp, o1) = Some (e, over, hp', o2) \<and> parser_inv hp' \<and>
    obj_inv lo (p + n) o2 \<and> env_mem o2 = env_mem o1 \<and> e \<in> {0, errno_num (http_errno hp')}"
proof -
  let ?d = "take n (drop p (env_mem o1))"
  obtain k where k: "lo + k = p" using assms(3) le_Suc_ex by blast
  have n: "length ?d = n" using assms(4) by simp
  have "obj_at lo (p + n) (env_mem o1) p (o1\<lparr>env_data := p\<rparr>)"
    using obj_inv_mono [OF assms(2), of "p + n"] by (simp add: obj_at_def obj_inv_def)
  then have "obj_at lo (lo + k + length ?d) (env_mem o1) (lo + k) (o1\<lparr>env_data := p\<rparr>)" by (simp only: n k)
  from message.execute_ok [OF assms(1) this]
  obtain j hp' o2 where "http_parser_execute ms_settings hp (o1\<lparr>env_data := p\<rparr>) ?d = Some (Returned j hp' o2)"
    "parser_inv hp'" "obj_at lo (p + n) (env_mem o1) p o2"
    unfolding n k by blast
  then show ?thesis by (simp add: execute_http_parse_def obj_at_def obj_inv_def Let_def)
qed

text \<open>The pieces of a message that lie one after the other in memory.\<close>

fun parse_pieces :: "nat \<Rightarrow> nat list \<Rightarrow> http_parser \<times> HttpParser \<Rightarrow> (http_parser \<times> HttpParser) option" where
  "parse_pieces p [] po = Some po"
| "parse_pieces p (n # ns) po =
     (case execute_http_parse p n po of
        None \<Rightarrow> None
      | Some (e, over, hp, o1) \<Rightarrow> parse_pieces (p + n) ns (hp, o1))"

lemma parse_pieces_ok:
  assumes "parser_inv hp" "obj_inv lo p o1" "lo \<le> p" "p + sum_list ns \<le> length (env_mem o1)"
  shows "\<exists>hp' o2. parse_pieces p ns (hp, o1) = Some (hp', o2) \<and> parser_inv hp' \<and> obj_inv lo (p + sum_list ns) o2 \<and>
    env_mem o2 = env_mem o1"
  using assms
proof (induction ns arbitrary: p hp o1)
  case (Cons n ns)
  then obtain e over hp' o2 where 1: "execute_http_parse p n (hp, o1) = Some (e, over, hp', o2)" "parser_inv hp'"
    "obj_inv lo (p + n) o2" "env_mem o2 = env_mem o1"
    using execute_http_parse_ok [of hp lo p o1 n] by auto
  with Cons.IH [of hp' "p + n" o2] Cons.prems show ?case by (simp add: add.assoc)
qed simp


section \<open>Headers\<close>

text \<open>Callbacks on the consecutive pieces of one field name or value.\<close>

fun feed_pieces :: "(nat \<Rightarrow> nat \<Rightarrow> HttpParser \<Rightarrow> int \<times> HttpParser) \<Rightarrow> nat \<Rightarrow> nat list \<Rightarrow> HttpParser \<Rightarrow> HttpParser" where
  "feed_pieces h p [] o1 = o1"
| "feed_pieces h p (n # ns) o1 = feed_pieces h (p + n) ns (snd (h p n o1))"

text \<open>One header: where its name and its value start, and the lengths of their pieces.\<close>

record header_pieces =
  name_at :: nat
  name_lens :: "nat list"
  value_at :: nat
  value_lens :: "nat list"

definition feed_header :: "header_pieces \<Rightarrow> HttpParser \<Rightarrow> HttpParser" where
  "feed_header h o1 = feed_pieces handleHeaderValue (value_at h) (value_lens h)
     (feed_pieces handleHeaderField (name_at h) (name_lens h) o1)"

definition header_entry :: "char list \<Rightarrow> header_pieces \<Rightarrow> string \<times> slice" where
  "header_entry mem h = (to_upper_s (take (sum_list (name_lens h)) (drop (name_at h) mem)),
     \<lparr>at = Some (value_at h), len = sum_list (value_lens h)\<rparr>)"

text \<open>Between two headers: nothing is pending, or a complete header is.\<close>

definition between_headers :: "HttpParser \<Rightarrow> bool" where
  "between_headers o1 \<longleftrightarrow>
     (if m_bLastIsValue o1 then at (m_curField o1) \<noteq> None else m_curField o1 = null_slice \<and> m_itemValue o1 = null_slice)"

lemma store_between:
  assumes "between_headers o1"
  shows "m_bLastIsValue (store_header o1) = False" "m_curField (store_header o1) = null_slice"
    "m_itemValue (store_header o1) = null_slice"
  using assms by (auto simp: between_headers_def store_header_def split: if_splits)

lemma feed_name_more:
  fixes p :: nat and ns :: "nat list"
  assumes "\<not> m_bLastIsValue o1" "at (m_curField o1) \<noteq> None"
  defines "o2 \<equiv> feed_pieces handleHeaderField p ns o1"
  shows "m_curField o2 = (m_curField o1)\<lparr>len := len (m_curField o1) + sum_list ns\<rparr>" "\<not> m_bLastIsValue o2"
    "m_itemValue o2 = m_itemValue o1" "m_mapHeaderFieldValue o2 = m_mapHeaderFieldValue o1" "env_mem o2 = env_mem o1"
  unfolding o2_def using assms(1,2)
  by (induction ns arbitrary: p o1) (auto simp: handleHeaderField_def Let_def store_header_def add_piece_def)

lemma feed_name:
  fixes p :: nat
  assumes "between_headers o1" "ns \<noteq> []"
  defines "o2 \<equiv> feed_pieces handleHeaderField p ns o1"
  shows "m_curField o2 = \<lparr>at = Some p, len = sum_list ns\<rparr>" "\<not> m_bLastIsValue o2" "m_itemValue o2 = null_slice"
    "m_mapHeaderFieldValue o2 = m_mapHeaderFieldValue (store_header o1)" "env_mem o2 = env_mem o1"
proof -
  obtain n ns' where ns: "ns = n # ns'" using assms(2) by (cases ns) auto
  have "\<not> m_bLastIsValue (snd (handleHeaderField p n o1))" "at (m_curField (snd (handleHeaderField p n o1))) \<noteq> None"
    "m_curField (snd (handleHeaderField p n o1)) = \<lparr>at = Some p, len = n\<rparr>"
    using store_between [OF assms(1)] by (simp_all add: handleHeaderField_def Let_def add_piece_def)
  note m = feed_name_more [OF this(1,2), where p = "p + n" and ns = ns'] this(3)
  from m show "m_curField o2 = \<lparr>at = Some p, len = sum_list ns\<rparr>" "\<not> m_bLastIsValue o2" by (simp_all add: o2_def ns)
  from m store_between [OF assms(1)] show "m_itemValue o2 = null_slice"
    "m_mapHeaderFieldValue o2 = m_mapHeaderFieldValue (store_header o1)" "env_mem o2 = env_mem o1"
    by (simp_all add: o2_def ns handleHeaderField_def Let_def)
qed

lemma feed_value_more:
  fixes q :: nat and ms :: "nat list"
  assumes "at (m_itemValue o1) \<noteq> None" "m_bLastIsValue o1"
  defines "o2 \<equiv> feed_pieces handleHeaderValue q ms o1"
  shows "m_itemValue o2 = (m_itemValue o1)\<lparr>len := len (m_itemValue o1) + sum_list ms\<rparr>" "m_bLastIsValue o2"
    "m_curField o2 = m_curField o1" "m_mapHeaderFieldValue o2 = m_mapHeaderFieldValue o1" "env_mem o2 = env_mem o1"
  unfolding o2_def using assms(1,2)
  by (induction ms arbitrary: q o1) (auto simp: handleHeaderValue_def Let_def add_piece_def)

lemma feed_header_pending:
  assumes "between_headers o1" "name_lens h \<noteq> []" "value_lens h \<noteq> []"
  shows "between_headers (feed_header h o1)" "env_mem (feed_header h o1) = env_mem o1"
    "m_mapHeaderFieldValue (store_header (feed_header h o1)) =
      (case header_entry (env_mem o1) h of (k, v) \<Rightarrow> map_insert k v (m_mapHeaderFieldValue (store_header o1)))"
proof -
  let ?o2 = "feed_pieces handleHeaderField (name_at h) (name_lens h) o1"
  note n = feed_name [OF assms(1,2), where p = "name_at h"]
  obtain m ms where ms: "value_lens h = m # ms" using assms(3) by (cases "value_lens h") auto
  let ?o3 = "snd (handleHeaderValue (value_at h) m ?o2)"
  have v: "m_itemValue ?o3 = \<lparr>at = Some (value_at h), len = m\<rparr>" "m_bLastIsValue ?o3" "m_curField ?o3 = m_curField ?o2"
    "m_mapHeaderFieldValue ?o3 = m_mapHeaderFieldValue ?o2" "env_mem ?o3 = env_mem ?o2"
    using n(3) by (simp_all add: handleHeaderValue_def Let_def add_piece_def)
  have "at (m_itemValue ?o3) \<noteq> None" using v(1) by simp
  note w = feed_value_more [OF this v(2), where q = "value_at h + m" and ms = ms]
  have f: "feed_header h o1 = feed_pieces handleHeaderValue (value_at h + m) ms ?o3" by (simp add: feed_header_def ms)
  show "between_headers (feed_header h o1)" "env_mem (feed_header h o1) = env_mem o1"
    using w v n by (simp_all add: f between_headers_def)
  show "m_mapHeaderFieldValue (store_header (feed_header h o1)) =
      (case header_entry (env_mem o1) h of (k, v) \<Rightarrow> map_insert k v (m_mapHeaderFieldValue (store_header o1)))"
    using w v n by (simp add: f store_header_def header_entry_def slice_text_def ms)
qed

lemma fold_headers:
  assumes "between_headers o1" "\<forall>h \<in> set hs. name_lens h \<noteq> [] \<and> value_lens h \<noteq> []"
  shows "m_mapHeaderFieldValue (store_header (fold feed_header hs o1)) =
    (\<lambda>k. case m_mapHeaderFieldValue (store_header o1) k of
       Some v \<Rightarrow> Some v | None \<Rightarrow> map_of (map (header_entry (env_mem o1)) hs) k)"
  using assms
proof (induction hs arbitrary: o1)
  case Nil
  then show ?case by (auto split: option.split)
next
  case (Cons h hs)
  then have h: "name_lens h \<noteq> []" "value_lens h \<noteq> []" by auto
  note p = feed_header_pending [OF Cons.prems(1) h]
  obtain k v where "header_entry (env_mem o1) h = (k, v)" by fastforce
  with Cons.IH [OF p(1)] Cons.prems(2) p(2,3) show ?case
    by (auto simp: map_insert_def fun_eq_iff split: option.split)
qed

lemma headers_complete_map:
  "m_mapHeaderFieldValue (snd (handleHeadersComplete hp o1)) = m_mapHeaderFieldValue (store_header o1)"
  by (simp add: handleHeadersComplete_def Let_def)



section \<open>Chunked bodies\<close>

text \<open>Calls of \<open>handleBody\<close> for the blocks of a body, each with its address and length.\<close>

definition feed_bodies :: "(nat \<times> nat) list \<Rightarrow> HttpParser \<Rightarrow> HttpParser" where
  "feed_bodies bs o1 = fold (\<lambda>(p, n) o2. snd (handleBody p n o2)) bs o1"

definition block :: "nat \<times> nat \<Rightarrow> slice" where
  "block b = \<lparr>at = Some (fst b), len = snd b\<rparr>"

lemma feed_bodies_chunks:
  assumes "m_bChunkPack o1" "m_pCurChunk o1 + 1 = length (m_chunks o1)"
  shows "env_mem (feed_bodies bs o1) = env_mem o1 \<and>
    len (m_body (feed_bodies bs o1)) = len (m_body o1) + sum_list (map snd bs) \<and>
    m_chunks (feed_bodies bs o1) =
      (if bs = [] then m_chunks o1 else butlast (m_chunks o1) @ map block bs @ [null_slice])"
  using assms
proof (induction bs arbitrary: o1)
  case (Cons b bs)
  obtain p n where b: "b = (p, n)" by fastforce
  let ?o2 = "snd (handleBody p n o1)"
  have c: "m_chunks ?o2 = butlast (m_chunks o1) @ [block b] @ [null_slice]"
  proof -
    have "m_chunks o1 \<noteq> []" using Cons.prems(2) by auto
    then obtain xs x where "m_chunks o1 = xs @ [x]" by (cases "m_chunks o1" rule: rev_cases) auto
    with Cons.prems show ?thesis by (auto simp: handleBody_def b block_def)
  qed
  have "m_pCurChunk ?o2 + 1 = length (m_chunks ?o2)" "m_bChunkPack ?o2" "env_mem ?o2 = env_mem o1"
    "len (m_body ?o2) = len (m_body o1) + n"
    using Cons.prems c by (auto simp: handleBody_def)
  with Cons.IH [of ?o2] c b show ?case
    by (auto simp: feed_bodies_def butlast_append)
qed (simp_all add: feed_bodies_def)

text \<open>A new chunked message of an object: \<open>handleMessageBegin\<close>, then \<open>handleChunkHeader\<close>.\<close>

definition begin_chunked :: "HttpParser \<Rightarrow> HttpParser" where
  "begin_chunked o1 = snd (handleChunkHeader (snd (handleMessageBegin o1)))"

lemma begin_chunked_fields:
  assumes "m_chunks o1 \<noteq> []"
  shows "m_bChunkPack (begin_chunked o1)" "m_pCurChunk (begin_chunked o1) + 1 = length (m_chunks (begin_chunked o1))"
    "m_chunks (begin_chunked o1) = [hd (m_chunks o1)]" "len (m_body (begin_chunked o1)) = 0"
    "env_mem (begin_chunked o1) = env_mem o1"
  using assms by (cases "m_chunks o1"; simp add: begin_chunked_def handler_defs_all)+

lemma chunk_data:
  assumes "m_chunks o1 \<noteq> []" "bs \<noteq> []"
  shows "get_http_body_chunk_data (feed_bodies bs (begin_chunked o1)) = concat (map (\<lambda>(p, n). take n (drop p (env_mem o1))) bs)"
    "get_http_body_len (feed_bodies bs (begin_chunked o1)) = sum_list (map snd bs)"
proof -
  note b = begin_chunked_fields [OF assms(1)]
  note f = feed_bodies_chunks [OF b(1,2), of bs, THEN conjunct1] feed_bodies_chunks [OF b(1,2), of bs, THEN conjunct2, THEN conjunct1]
    feed_bodies_chunks [OF b(1,2), of bs, THEN conjunct2, THEN conjunct2]
  have "slice_text (env_mem o1) null_slice = []" by (simp add: slice_text_def)
  then show "get_http_body_chunk_data (feed_bodies bs (begin_chunked o1)) = concat (map (\<lambda>(p, n). take n (drop p (env_mem o1))) bs)"
    using f b assms(2) by (auto simp: get_http_body_chunk_data_def slice_text_def block_def intro!: arg_cong [where f = concat])
  show "get_http_body_len (feed_bodies bs (begin_chunked o1)) = sum_list (map snd bs)"
    using f b by (simp add: get_http_body_len_def)
qed

text \<open>
  Without a block the head of the list, which is not reset, is still the first block of the message
  before: \<open>get_http_body_chunk_data\<close> copies it although \<open>get_http_body_len\<close> is 0.
\<close>

lemma chunk_data_stale:
  assumes "m_chunks o1 \<noteq> []" "bs \<noteq> []"
  defines "o2 \<equiv> begin_chunked (feed_bodies bs (begin_chunked o1))"
  shows "get_http_body_len o2 = 0" "get_http_body_chunk_data o2 = take (snd (hd bs)) (drop (fst (hd bs)) (env_mem o1))"
proof -
  note b = begin_chunked_fields [OF assms(1)]
  note f = feed_bodies_chunks [OF b(1,2), of bs, THEN conjunct1] feed_bodies_chunks [OF b(1,2), of bs, THEN conjunct2, THEN conjunct1]
    feed_bodies_chunks [OF b(1,2), of bs, THEN conjunct2, THEN conjunct2]
  have "m_chunks (feed_bodies bs (begin_chunked o1)) = map block bs @ [null_slice]" using f(3) assms(2) b(3) by simp
  moreover from this have "hd (m_chunks (feed_bodies bs (begin_chunked o1))) = block (hd bs)" using assms(2) by (cases bs) auto
  ultimately show "get_http_body_len o2 = 0" "get_http_body_chunk_data o2 = take (snd (hd bs)) (drop (fst (hd bs)) (env_mem o1))"
    using begin_chunked_fields [of "feed_bodies bs (begin_chunked o1)"] f(1) b(5)
    by (simp_all add: o2_def get_http_body_len_def get_http_body_chunk_data_def slice_text_def block_def)
qed


section \<open>The query of a GET request\<close>

lemma strnchr_loop_first:
  assumes "cstr_at mem s \<noteq> NUL" "\<forall>j < i. cstr_at mem (q + j) \<noteq> c" "cstr_at mem (q + i) = c" "i < n"
  shows "strnchr_loop mem s q c n = Some (q + i)"
  using assms
proof (induction n arbitrary: q i)
  case (Suc n)
  show ?case
  proof (cases i)
    case (Suc j)
    have "\<forall>k < j. cstr_at mem (q + 1 + k) \<noteq> c" using Suc.prems(2) Suc by (auto dest: spec [where x = "Suc _"])
    with Suc.IH [of j "q + 1"] Suc Suc.prems show ?thesis by auto
  qed (use Suc.prems in simp)
qed simp

lemma strnchr_loop_None:
  assumes "\<forall>j < n. cstr_at mem (q + j) \<noteq> c"
  shows "strnchr_loop mem s q c n = None"
  using assms
proof (induction n arbitrary: q)
  case (Suc n)
  have "\<forall>j < n. cstr_at mem (q + 1 + j) \<noteq> c" using Suc.prems by (auto dest: spec [where x = "Suc _"])
  with Suc.IH [of "q + 1"] Suc.prems show ?case by (auto dest: spec [where x = 0])
qed simp

text \<open>The URL is \<open>path?query\<close>, and the question mark is among its first 128 characters.\<close>

lemma split_query_at:
  assumes "at (m_url o1) = Some p" "slice_text (env_mem o1) (m_url o1) = path @ CHR ''?'' # query"
    and "CHR ''?'' \<notin> set path" "NUL \<notin> set path" "length path < 128"
    and "len (m_url o1) = length path + 1 + length query"
  shows "slice_text (env_mem o1) (m_url (split_query o1)) = path \<and> slice_text (env_mem o1) (m_body (split_query o1)) = query"
proof -
  let ?mem = "env_mem o1" and ?i = "length path"
  have t: "take (?i + 1 + length query) (drop p ?mem) = path @ CHR ''?'' # query"
    using assms(1,2,6) by (simp add: slice_text_def)
  have len: "p + ?i + 1 + length query \<le> length ?mem" using arg_cong [OF t, of length] by simp
  have nth: "cstr_at ?mem (p + j) = (path @ CHR ''?'' # query) ! j" if "j \<le> ?i + length query" for j
    using arg_cong [OF t, of "\<lambda>xs. xs ! j"] that len by simp
  have "strnchr ?mem p CHR ''?'' 128 = Some (p + ?i)"
    unfolding strnchr_def
  proof (rule strnchr_loop_first)
    show "cstr_at ?mem p \<noteq> NUL"
      using nth [of 0] assms(4) by (cases path) (auto simp: NUL_def)
    show "\<forall>j < ?i. cstr_at ?mem (p + j) \<noteq> CHR ''?''"
    proof (intro allI impI)
      fix j assume j: "j < ?i"
      then have "cstr_at ?mem (p + j) = path ! j" using nth [of j] by (simp add: nth_append)
      moreover have "path ! j \<in> set path" using j by simp
      ultimately show "cstr_at ?mem (p + j) \<noteq> CHR ''?''" using assms(3) by metis
    qed
  qed (use nth [of ?i] assms(5) in auto)
  then have s: "m_url (split_query o1) = (m_url o1)\<lparr>len := ?i\<rparr>" "m_body (split_query o1) = \<lparr>at = Some (p + ?i + 1), len = length query\<rparr>"
    using assms(1,6) by (simp_all add: split_query_def)
  have "drop (?i + 1) (take (?i + 1 + length query) (drop p ?mem)) = query" using t by simp
  then have "take (length query) (drop (p + ?i + 1) ?mem) = query" by (simp add: drop_take add.commute)
  moreover have "take ?i (drop p ?mem) = path" using arg_cong [OF t, of "take ?i"] by (simp add: min_def)
  ultimately show ?thesis using s assms(1) by (simp add: slice_text_def)
qed

lemma split_query_none:
  assumes "at (m_url o1) = Some p" "\<forall>j < 128. cstr_at (env_mem o1) (p + j) \<noteq> CHR ''?''"
  shows "split_query o1 = o1"
  using assms strnchr_loop_None [of 128 "env_mem o1" p "CHR ''?''" p] by (simp add: split_query_def strnchr_def)



section \<open>Urlencoded bodies, round trip\<close>

fun encode_pairs :: "(string \<times> string) list \<Rightarrow> string" where
  "encode_pairs [] = []"
| "encode_pairs [(k, v)] = k @ ''='' @ v"
| "encode_pairs ((k, v) # kv # kvs) = k @ ''='' @ v @ ''&'' @ encode_pairs (kv # kvs)"

definition plain_pair :: "string \<times> string \<Rightarrow> bool" where
  "plain_pair kv \<longleftrightarrow> NUL \<notin> set (fst kv @ snd kv) \<and> CHR ''&'' \<notin> set (fst kv @ snd kv) \<and> CHR ''='' \<notin> set (fst kv)"

lemma index_of_append: "c \<notin> set xs \<Longrightarrow> index_of c (xs @ c # ys) = Some (length xs)"
  by (induction xs) auto

lemma strchr_at:
  assumes "drop s mem = xs @ c # ys" "c \<notin> set xs" "NUL \<notin> set xs" "c \<noteq> NUL"
  shows "strchr mem s c = Some (s + length xs)"
proof -
  have "takeWhile (\<lambda>x. x \<noteq> NUL) (xs @ c # ys) = xs @ c # takeWhile (\<lambda>x. x \<noteq> NUL) ys"
    using assms(3,4) by (subst takeWhile_append2) auto
  with assms(1,2) show ?thesis by (simp add: strchr_def index_of_append)
qed

lemma strchr_none:
  assumes "drop s mem = xs @ NUL # ys" "c \<notin> set xs" "NUL \<notin> set xs"
  shows "strchr mem s c = None"
proof -
  have "takeWhile (\<lambda>x. x \<noteq> NUL) (xs @ NUL # ys) = xs" using assms(3) by (subst takeWhile_append2) auto
  with assms(1,2) show ?thesis by (simp add: strchr_def index_of_None)
qed

definition lookup_text :: "char list \<Rightarrow> (string \<rightharpoonup> slice) \<Rightarrow> string \<rightharpoonup> string" where
  "lookup_text mem m key = map_option (slice_text mem) (m key)"

lemma lookup_text_insert:
  "lookup_text mem (map_insert k v m) key =
    (case lookup_text mem m key of Some t \<Rightarrow> Some t | None \<Rightarrow> if key = k then Some (slice_text mem v) else None)"
  by (auto simp: lookup_text_def map_insert_def split: option.split)

text \<open>One round of the loop on \<open>k=v\<close>, followed by \<open>&\<close> or by the end.\<close>

lemma urlencoded_round:
  assumes "drop p mem = k @ CHR ''='' # v @ rest" "plain_pair (k, v)" "rest \<noteq> []" "hd rest \<in> {NUL, CHR ''&''}"
    and "p + length k + 1 + length v \<le> e" "hd rest = NUL \<Longrightarrow> e = p + length k + 1 + length v" "length mem < 2 ^ 64"
  shows "\<exists>s. slice_text mem s = v \<and>
    urlencoded_loop mem p e m =
      (if hd rest = NUL \<or> e = p + length k + 1 + length v then map_insert (to_upper_s k) s m
       else urlencoded_loop mem (p + length k + 1 + length v + 1) e (map_insert (to_upper_s k) s m))"
proof -
  let ?c = "p + length k + 1 + length v"
  obtain r rs where rest: "rest = r # rs" using assms(3) by (cases rest) auto
  have d: "drop p mem = (k @ CHR ''='' # v) @ r # rs" using assms(1) rest by simp
  have ne: "CHR ''='' \<noteq> NUL" "CHR ''&'' \<noteq> NUL" by (simp_all add: NUL_def)
  have eq: "strchr mem p CHR ''='' = Some (p + length k)"
    using strchr_at [OF assms(1)] assms(2) ne by (auto simp: plain_pair_def)
  have "(case strchr mem p CHR ''&'' of None \<Rightarrow> e | Some x \<Rightarrow> x) = ?c"
  proof (cases "r = NUL")
    case True
    with strchr_none [of p mem "k @ CHR ''='' # v" rs "CHR ''&''"] d assms(2,6) rest ne show ?thesis
      by (simp add: plain_pair_def)
  next
    case False
    then have "r = CHR ''&''" using assms(4) rest by simp
    with strchr_at [of p mem "k @ CHR ''='' # v" "CHR ''&''" rs] d assms(2) ne show ?thesis
      by (simp add: plain_pair_def)
  qed
  moreover have "take (length k) (drop p mem) = k" using d by simp
  moreover have "length (drop p mem) = length k + 1 + length v + 1 + length rs" using d by simp
  then have "size_diff ?c (p + length k + 1) = length v" using assms(7) by (simp add: size_diff_def)
  moreover have "take (length v) (drop (p + length k + 1) mem) = v"
    using arg_cong [OF d, of "drop (length k + 1)"] by (simp add: add.commute)
  moreover have "p < e" using assms(5) by simp
  ultimately show ?thesis
    using eq assms(6) rest
    by (intro exI [of _ "\<lparr>at = Some (p + length k + 1), len = length v\<rparr>"])
       (auto simp: urlencoded_loop.simps [of mem p e m] slice_text_def Let_def)
qed

lemma urlencoded_pairs:
  assumes "drop p mem = encode_pairs kvs @ NUL # post" "\<forall>kv \<in> set kvs. plain_pair kv" "length mem < 2 ^ 64"
  shows "lookup_text mem (urlencoded_loop mem p (p + length (encode_pairs kvs)) m) key =
    (case lookup_text mem m key of Some t \<Rightarrow> Some t | None \<Rightarrow> map_of (map (\<lambda>(k, v). (to_upper_s k, v)) kvs) key)"
  using assms
proof (induction kvs arbitrary: p m rule: encode_pairs.induct)
  case 1
  then show ?case by (simp add: urlencoded_loop.simps option.case_eq_if)
next
  case (2 k v)
  with urlencoded_round [of p mem k v "NUL # post" "p + length (encode_pairs [(k, v)])" m] show ?case
    by (auto simp: lookup_text_insert split: option.split)
next
  case (3 k v kv kvs)
  let ?rest = "encode_pairs (kv # kvs) @ NUL # post"
  let ?e = "p + length (encode_pairs ((k, v) # kv # kvs))"
  have ne: "CHR ''&'' \<noteq> NUL" by (simp add: NUL_def)
  have d: "drop p mem = k @ CHR ''='' # v @ (CHR ''&'' # ?rest)" using "3.prems"(1) by simp
  have "0 < length (encode_pairs (kv # kvs))" by (cases kv; cases kvs) auto
  then obtain s where s: "slice_text mem s = v" "urlencoded_loop mem p ?e m =
      urlencoded_loop mem (p + length k + 1 + length v + 1) ?e (map_insert (to_upper_s k) s m)"
    using urlencoded_round [OF d, of ?e m] "3.prems" ne by auto
  let ?q = "p + length k + 1 + length v + 1" and ?m = "map_insert (to_upper_s k) s m"
  have "drop ?q mem = ?rest"
    using arg_cong [OF d, of "drop (length k + 1 + length v + 1)"] by (simp add: add.commute add.left_commute)
  from "3.IH" [OF this _ "3.prems"(3), of ?m]
  have "lookup_text mem (urlencoded_loop mem ?q (?q + length (encode_pairs (kv # kvs))) ?m) key =
    (case lookup_text mem ?m key of Some t \<Rightarrow> Some t | None \<Rightarrow> map_of (map (\<lambda>(k, v). (to_upper_s k, v)) (kv # kvs)) key)"
    using "3.prems"(2) by simp
  moreover have "?q + length (encode_pairs (kv # kvs)) = ?e" by simp
  ultimately have "lookup_text mem (urlencoded_loop mem p ?e m) key =
    (case lookup_text mem ?m key of Some t \<Rightarrow> Some t | None \<Rightarrow> map_of (map (\<lambda>(k, v). (to_upper_s k, v)) (kv # kvs)) key)"
    by (simp only: s(2))
  then show ?case using s(1) unfolding lookup_text_insert by (simp split: option.split)
qed



section \<open>Behaviour at odds with its description\<close>

text \<open>A part without an equals sign takes the one of the next part, and its length is negative.\<close>

lemma urlencoded_missing_equals:
  "get_value ''a&b'' (snd (parse_http_body (''a&b=1'' @ [NUL]) 0 5 Map.empty)) = Some \<lparr>at = Some 4, len = 2 ^ 64 - 3\<rparr>"
  by (simp add: get_value_def parse_http_body_def urlencoded_loop.simps strchr_def NUL_def size_diff_def to_upper_s_def
      toupper_def uchar_def map_insert_def Let_def)

text \<open>A second header of a known name adds its length to the slice of the first.\<close>

lemma duplicate_header_length:
  assumes "env_mem o1 = ''Host: aHost: b''" "m_known o1 = (\<lambda>_. null_slice)" "\<not> m_bLastIsValue o1" "m_curField o1 = null_slice"
    "m_itemValue o1 = null_slice"
  shows "get_http_host (feed_header \<lparr>name_at = 7, name_lens = [4], value_at = 13, value_lens = [1]\<rparr>
    (feed_header \<lparr>name_at = 0, name_lens = [4], value_at = 6, value_lens = [1]\<rparr> o1)) = Some \<lparr>at = Some 6, len = 2\<rparr>"
proof -
  have "name_is ''Host: aHost: b'' ''host''" "name_is ''Host: b'' ''host''" by code_simp+
  then have n: "header_name_state ''Host: aHost: b'' 4 old = header_state_host"
    "header_name_state ''Host: b'' 4 old = header_state_host" for old by (simp_all add: header_name_state_def)
  have "drop 7 ''Host: aHost: b'' = ''Host: b''" by simp
  with n assms show ?thesis
    by (simp add: feed_header_def handleHeaderField_def handleHeaderValue_def Let_def store_header_def
      add_piece_def add_piece_init_def null_slice_def get_http_host_def get_known_def mem_from_def)
qed

text \<open>
  The search for the question mark does not stop at the end of the URL: here it finds the one in a
  header, and the URL becomes everything before it.
\<close>

lemma query_mark_in_header:
  assumes "env_mem o1 = ''GET / HTTP/1.1'' @ [CR, LF] @ ''A:?'' @ [CR, LF, CR, LF]"
    and "m_url o1 = \<lparr>at = Some 4, len = 1\<rparr>" "m_nReqType o1 = HTTP_REQUEST_GET"
  shows "slice_text (env_mem o1) (m_url (snd (handleMessageComplete o1))) = ''/ HTTP/1.1'' @ [CR, LF] @ ''A:''"
proof -
  have "strnchr (''GET / HTTP/1.1'' @ [CR, LF] @ ''A:?'' @ [CR, LF, CR, LF]) 4 CHR ''?'' 128 = Some 18" by code_simp
  with assms show ?thesis by (simp add: handleMessageComplete_def split_query_def slice_text_def)
qed

text \<open>The constructor leaves \<open>m_bParseOver\<close> as it was in the storage of the object.\<close>

lemma over_uninitialised:
  assumes "m_bParseOver raw" "env_mem raw = [CR]"
  shows "\<exists>hp o1. execute_http_parse 0 1 (HttpParser_new HTTP_REQUEST raw) = Some (0, True, hp, o1)"
  using assms by (simp add: execute_http_parse_def HttpParser_new_def exec_eval)


section \<open>Properties\<close>

text \<open>An object in the state after \<open>reset_parser\<close>, over a given memory.\<close>

definition object_over :: "char list \<Rightarrow> HttpParser" where
  "object_over mem = init_class_members
     \<lparr>m_bLastIsValue = False, m_curField = null_slice, m_parser_type = HTTP_REQUEST, m_chunks = [null_slice],
      m_pCurChunk = 0, m_mapHeaderFieldValue = Map.empty, m_itemValue = null_slice, m_bIsFixedUrlEncodedBody = False,
      m_urlencode_body_parser = Map.empty, m_bChunkPack = False, m_bParseOver = False,
      m_curr_header_state = header_state_init, m_pBegin = None, m_nTotalParseLen = 0, m_nHttpStatusCode = 0,
      m_bIsKeepAlive = False, m_nReqType = HTTP_REQUEST_UNKNOWN, m_url = null_slice, m_body = null_slice,
      m_nContentType = CONTENT_TYPE_UNKNOWN, m_known = (\<lambda>_. null_slice), env_mem = mem, env_data = 0\<rparr>"

lemma object_over_simps [simp]:
  "m_chunks (object_over mem) = [null_slice]" "env_mem (object_over mem) = mem"
  by (simp_all add: object_over_def init_class_members_def clear_chunk_list_def)



text \<open>
  C9: the header table. When the callbacks report the headers of a message in order, each name and each
  value in one or more consecutive pieces, then after \<open>handleHeadersComplete\<close> the lookup of a field
  returns the place of the value of the first header with that name, in any mixture of upper and lower
  case, and nothing when there is none; in particular the last header is not lost.
\<close>

theorem http_headers_recorded:
  assumes "\<forall>h \<in> set hs. name_lens h \<noteq> [] \<and> value_lens h \<noteq> []"
  shows "get_http_header_field_value field
      (snd (handleHeadersComplete hp (fold feed_header hs (snd (handleMessageBegin o1))))) =
    map_of (map (header_entry (env_mem o1)) hs) (to_upper_s field)"
proof -
  let ?o = "snd (handleMessageBegin o1)"
  have b: "between_headers ?o" "m_mapHeaderFieldValue (store_header ?o) = Map.empty" "env_mem ?o = env_mem o1"
    by (simp_all add: between_headers_def store_header_def handler_defs_all)
  have v: "at v \<noteq> None" if "map_of (map (header_entry (env_mem o1)) hs) k = Some v" for k v
    using map_of_SomeD [OF that] by (auto simp: header_entry_def)
  show ?thesis
    using fold_headers [OF b(1) assms] b(2,3) v [of "to_upper_s field"]
    by (auto simp: get_http_header_field_value_def headers_complete_map split: option.split)
qed

theorem http_headers_recorded_witness:
  "get_http_header_field_value ''Host'' (snd (handleHeadersComplete (http_parser_init HTTP_REQUEST) (fold feed_header
      [\<lparr>name_at = 0, name_lens = [2, 2], value_at = 5, value_lens = [1, 1]\<rparr>]
      (snd (handleMessageBegin (object_over ''hOst:ab'')))))) = Some \<lparr>at = Some 5, len = 2\<rparr>"
proof -
  have "to_upper_s ''Host'' = ''HOST''" "to_upper_s ''hOst'' = ''HOST''" by code_simp+
  with http_headers_recorded [of "[\<lparr>name_at = 0, name_lens = [2, 2], value_at = 5, value_lens = [1, 1]\<rparr>]" "''Host''"
      "http_parser_init HTTP_REQUEST" "object_over ''hOst:ab''"]
  show ?thesis by (simp add: header_entry_def)
qed

text \<open>
  C10: a chunked body is put together again. After the callbacks for a new message, for its first chunk
  header and for one or more blocks of data, \<open>get_http_body_chunk_data\<close> gives the blocks one after the
  other, and \<open>get_http_body_len\<close> their total length, so that a destination of that size is filled exactly.
\<close>

theorem http_chunked_body:
  assumes "m_chunks o1 \<noteq> []" "bs \<noteq> []" "\<forall>(p, n) \<in> set bs. p + n \<le> length (env_mem o1)"
  shows "get_http_body_chunk_data (feed_bodies bs (begin_chunked o1)) = concat (map (\<lambda>(p, n). take n (drop p (env_mem o1))) bs) \<and>
    length (get_http_body_chunk_data (feed_bodies bs (begin_chunked o1))) = get_http_body_len (feed_bodies bs (begin_chunked o1))"
proof -
  have "sum_list (map (length \<circ> (\<lambda>(p, n). take n (drop p (env_mem o1)))) bs) = sum_list (map snd bs)"
    using assms(3) by (intro arg_cong [where f = sum_list] map_cong) auto
  with chunk_data [OF assms(1,2)] show ?thesis by (simp add: length_concat)
qed

theorem http_chunked_body_witness:
  "get_http_body_chunk_data (feed_bodies [(3, 2), (9, 1)]
     (begin_chunked (object_over ''2;;ab;;1;c''))) = ''abc''"
  using http_chunked_body [of "object_over ''2;;ab;;1;c''" "[(3, 2), (9, 1)]"]
  by simp

text \<open>
  The query of a GET request. When the URL is \<open>path?query\<close> with the question mark among its first 128
  characters, the message ends with the path as URL and the query as body. (Without that condition it
  does not hold: the search neither ends at the end of the URL nor reaches a later question mark.)
\<close>

theorem http_get_query:
  assumes "m_nReqType o1 = HTTP_REQUEST_GET" "at (m_url o1) = Some p"
    and "slice_text (env_mem o1) (m_url o1) = path @ CHR ''?'' # query" "len (m_url o1) = length path + 1 + length query"
    and "CHR ''?'' \<notin> set path" "NUL \<notin> set path" "length path < 128"
  shows "slice_text (env_mem o1) (m_url (snd (handleMessageComplete o1))) = path \<and>
    slice_text (env_mem o1) (get_http_body_data (snd (handleMessageComplete o1))) = query \<and>
    m_bParseOver (snd (handleMessageComplete o1))"
  using split_query_at [OF assms(2,3,5-7,4)] assms(1) by (simp add: handleMessageComplete_def get_http_body_data_def)

theorem http_get_query_witness:
  "slice_text ''GET /a?b=1 '' (m_url (snd (handleMessageComplete ((object_over ''GET /a?b=1 '')\<lparr>m_nReqType := HTTP_REQUEST_GET,
     m_url := \<lparr>at = Some 4, len = 6\<rparr>\<rparr>)))) = ''/a''"
  using http_get_query [of "(object_over ''GET /a?b=1 '')\<lparr>m_nReqType := HTTP_REQUEST_GET, m_url := \<lparr>at = Some 4, len = 6\<rparr>\<rparr>"
      4 "''/a''" "''b=1''"]
  by (simp add: slice_text_def NUL_def)

text \<open>
  C11: urlencoded bodies. Parsing \<open>k1=v1&k2=v2&...\<close> (keys without \<open>=\<close>, nothing with \<open>&\<close> or NUL) that is
  followed by a NUL, and looking up a key in any case, returns the value of the first pair with that key,
  and nothing for a key that does not occur.
\<close>

theorem urlencoded_roundtrip:
  assumes "drop p mem = encode_pairs kvs @ NUL # post" "\<forall>kv \<in> set kvs. plain_pair kv" "length mem < 2 ^ 64"
  shows "map_option (slice_text mem) (get_value key (snd (parse_http_body mem p (length (encode_pairs kvs)) Map.empty))) =
    map_of (map (\<lambda>(k, v). (to_upper_s k, v)) kvs) (to_upper_s key)"
  using urlencoded_pairs [OF assms, of Map.empty "to_upper_s key"]
  by (simp add: get_value_def parse_http_body_def lookup_text_def)

theorem urlencoded_roundtrip_witness:
  "map_option (slice_text (''cmd=a&x=1'' @ [NUL])) (get_value ''Cmd'' (snd (parse_http_body (''cmd=a&x=1'' @ [NUL]) 0 (length ''cmd=a&x=1'') Map.empty))) =
    Some ''a''"
proof -
  have "to_upper_s ''Cmd'' = ''CMD''" "to_upper_s ''cmd'' = ''CMD''" by code_simp+
  with urlencoded_roundtrip [of 0 "''cmd=a&x=1'' @ [NUL]" "[(''cmd'', ''a''), (''x'', ''1'')]" "[]" "''Cmd''"]
  show ?thesis by (simp add: plain_pair_def NUL_def)
qed

end
