(* ===== verification/Http_Url.thy ===== *)
theory Http_Url
  imports Http_Parser
begin

text \<open>
  The URL splitter of \<open>http_parser.c\<close>: \<open>http_parse_host_char\<close>, \<open>http_parse_host\<close> and
  \<open>http_parser_parse_url\<close>. The offsets and lengths are 16-bit, as in the structure. The memory
  at \<open>buf\<close> is a list of which the first \<open>buflen\<close> bytes are the URL; what follows is there
  because \<open>strtoul\<close> reads on until it finds a byte that is no digit.
\<close>

section \<open>Structures\<close>

datatype http_parser_url_fields =
  UF_SCHEMA | UF_HOST | UF_PORT | UF_PATH | UF_QUERY | UF_FRAGMENT | UF_USERINFO | UF_MAX

primrec uf_num :: "http_parser_url_fields \<Rightarrow> nat" where
  "uf_num UF_SCHEMA = 0"
| "uf_num UF_HOST = 1"
| "uf_num UF_PORT = 2"
| "uf_num UF_PATH = 3"
| "uf_num UF_QUERY = 4"
| "uf_num UF_FRAGMENT = 5"
| "uf_num UF_USERINFO = 6"
| "uf_num UF_MAX = 7"

record http_parser_url =
  field_set :: u16
  port :: u16
  field_off :: "http_parser_url_fields \<Rightarrow> u16"
  field_len :: "http_parser_url_fields \<Rightarrow> u16"

definition http_parser_url_init :: http_parser_url where
  "http_parser_url_init = \<lparr>field_set = 0, port = 0, field_off = (\<lambda>_. 0), field_len = (\<lambda>_. 0)\<rparr>"

definition uf_set :: "http_parser_url \<Rightarrow> http_parser_url_fields \<Rightarrow> bool" where
  "uf_set u f \<longleftrightarrow> field_set u AND push_bit (uf_num f) 1 \<noteq> 0"

definition set_uf :: "http_parser_url_fields \<Rightarrow> http_parser_url \<Rightarrow> http_parser_url" where
  "set_uf f u = u\<lparr>field_set := field_set u OR push_bit (uf_num f) 1\<rparr>"

definition set_off :: "http_parser_url_fields \<Rightarrow> nat \<Rightarrow> http_parser_url \<Rightarrow> http_parser_url" where
  "set_off f p u = u\<lparr>field_off := (field_off u)(f := of_nat p)\<rparr>"

definition set_len :: "http_parser_url_fields \<Rightarrow> u16 \<Rightarrow> http_parser_url \<Rightarrow> http_parser_url" where
  "set_len f l u = u\<lparr>field_len := (field_len u)(f := l)\<rparr>"

definition inc_len :: "http_parser_url_fields \<Rightarrow> http_parser_url \<Rightarrow> http_parser_url" where
  "inc_len f u = u\<lparr>field_len := (field_len u)(f := field_len u f + 1)\<rparr>"

text \<open>\<open>return 0\<close>, \<open>return 1\<close> (the structure is left half filled) and a failed assertion.\<close>

datatype url_result = Url_ok http_parser_url | Url_error http_parser_url | Url_abort


section \<open>Host\<close>

definition http_parse_host_char :: "http_host_state \<Rightarrow> char \<Rightarrow> http_host_state" where
  "http_parse_host_char s ch =
     (let dead = s_http_host_dead;
          colon = (if ch = CHR '':'' then s_http_host_port_start else dead);
          v6_char = (if IS_HEX ch \<or> ch = CHR '':'' \<or> ch = CHR ''.'' then s_http_host_v6
                     else if s = s_http_host_v6 \<and> ch = CHR ''%'' then s_http_host_v6_zone_start
                     else dead);
          zone_char = (if IS_ALPHANUM ch \<or> ch = CHR ''%'' \<or> ch = CHR ''.'' \<or> ch = CHR ''-'' \<or>
                          ch = CHR ''_'' \<or> ch = CHR ''~'' then s_http_host_v6_zone else dead)
      in if s = s_http_userinfo \<or> s = s_http_userinfo_start then
           (if ch = CHR ''@'' then s_http_host_start
            else if IS_USERINFO_CHAR ch then s_http_userinfo else dead)
         else if s = s_http_host_start then
           (if ch = CHR ''['' then s_http_host_v6_start
            else if IS_HOST_CHAR ch then s_http_host else dead)
         else if s = s_http_host then (if IS_HOST_CHAR ch then s_http_host else colon)
         else if s = s_http_host_v6_end then colon
         else if s = s_http_host_v6 then (if ch = CHR '']'' then s_http_host_v6_end else v6_char)
         else if s = s_http_host_v6_start then v6_char
         else if s = s_http_host_v6_zone then (if ch = CHR '']'' then s_http_host_v6_end else zone_char)
         else if s = s_http_host_v6_zone_start then zone_char
         else if s = s_http_host_port \<or> s = s_http_host_port_start then
           (if IS_NUM ch then s_http_host_port else dead)
         else dead)"

text \<open>The switch on the new state: what one byte of the host adds to the structure.\<close>

definition host_field :: "http_host_state \<Rightarrow> http_host_state \<Rightarrow> nat \<Rightarrow> http_parser_url \<Rightarrow> http_parser_url" where
  "host_field s new_s p u =
     (if new_s = s_http_host then
        inc_len UF_HOST (if s \<noteq> s_http_host then set_off UF_HOST p u else u)
      else if new_s = s_http_host_v6 then
        inc_len UF_HOST (if s \<noteq> s_http_host_v6 then set_off UF_HOST p u else u)
      else if new_s = s_http_host_v6_zone_start \<or> new_s = s_http_host_v6_zone then inc_len UF_HOST u
      else if new_s = s_http_host_port then
        inc_len UF_PORT (if s \<noteq> s_http_host_port
          then set_uf UF_PORT (set_len UF_PORT 0 (set_off UF_PORT p u)) else u)
      else if new_s = s_http_userinfo then
        inc_len UF_USERINFO (if s \<noteq> s_http_userinfo
          then set_uf UF_USERINFO (set_len UF_USERINFO 0 (set_off UF_USERINFO p u)) else u)
      else u)"

text \<open>The loop over the bytes of the host; \<open>Inl\<close> is \<open>return 1\<close> (with the structure so far).\<close>

fun host_loop :: "char list \<Rightarrow> nat \<Rightarrow> http_host_state \<Rightarrow> http_parser_url \<Rightarrow>
    http_parser_url + (http_host_state \<times> http_parser_url)" where
  "host_loop [] p s u = Inr (s, u)"
| "host_loop (c # cs) p s u =
     (let new_s = http_parse_host_char s c in
      if new_s = s_http_host_dead then Inl u
      else host_loop cs (p + 1) new_s (host_field s new_s p u))"

definition host_ends_badly :: "http_host_state \<Rightarrow> bool" where
  "host_ends_badly s \<longleftrightarrow> s \<in> {s_http_host_start, s_http_host_v6_start, s_http_host_v6,
     s_http_host_v6_zone_start, s_http_host_v6_zone, s_http_host_port_start, s_http_userinfo,
     s_http_userinfo_start}"

definition http_parse_host :: "char list \<Rightarrow> http_parser_url \<Rightarrow> bool \<Rightarrow> url_result" where
  "http_parse_host buf u found_at =
     (let off = unat (field_off u UF_HOST); buflen = off + unat (field_len u UF_HOST) in
      if \<not> uf_set u UF_HOST then Url_abort
      else case host_loop (drop off (take buflen buf)) off
                (if found_at then s_http_userinfo_start else s_http_host_start) (set_len UF_HOST 0 u) of
             Inl u' \<Rightarrow> Url_error u'
           | Inr (s, u') \<Rightarrow> if host_ends_badly s then Url_error u' else Url_ok u')"


section \<open>URL\<close>

text \<open>The field a state of the automaton belongs to; \<open>None\<close> for a delimiter.\<close>

definition uf_of_state :: "pstate \<Rightarrow> http_parser_url_fields option" where
  "uf_of_state s =
     (if s = s_req_schema then Some UF_SCHEMA
      else if s = s_req_server_with_at \<or> s = s_req_server then Some UF_HOST
      else if s = s_req_path then Some UF_PATH
      else if s = s_req_query_string then Some UF_QUERY
      else if s = s_req_fragment then Some UF_FRAGMENT else None)"

definition url_delimiter :: "pstate \<Rightarrow> bool" where
  "url_delimiter s \<longleftrightarrow> s \<in> {s_req_schema_slash, s_req_schema_slash_slash, s_req_server_start,
     s_req_query_string_start, s_req_fragment_start}"

text \<open>One byte at \<open>p\<close> of field \<open>uf\<close>.\<close>

definition url_field :: "http_parser_url_fields \<Rightarrow> http_parser_url_fields \<Rightarrow> nat \<Rightarrow> http_parser_url \<Rightarrow>
    http_parser_url" where
  "url_field uf old_uf p u =
     (if uf = old_uf then inc_len uf u else set_uf uf (set_len uf 1 (set_off uf p u)))"

datatype url_scan = Scan_end http_parser_url bool | Scan_error http_parser_url | Scan_abort

fun url_loop :: "char list \<Rightarrow> nat \<Rightarrow> pstate \<Rightarrow> http_parser_url_fields \<Rightarrow> bool \<Rightarrow> http_parser_url \<Rightarrow>
    url_scan" where
  "url_loop [] p s old_uf found_at u = Scan_end u found_at"
| "url_loop (c # cs) p s old_uf found_at u =
     (let s' = parse_url_char s c in
      if s' = s_dead then Scan_error u
      else if url_delimiter s' then url_loop cs (p + 1) s' old_uf found_at u
      else case uf_of_state s' of
             None \<Rightarrow> Scan_abort
           | Some uf \<Rightarrow> url_loop cs (p + 1) s' uf (found_at \<or> s' = s_req_server_with_at)
                          (url_field uf old_uf p u))"

text \<open>What follows the scan: host, \<open>CONNECT\<close>, port.\<close>

definition url_port :: "char list \<Rightarrow> bool \<Rightarrow> http_parser_url \<Rightarrow> url_result" where
  "url_port buf is_connect u =
     (if is_connect \<and> field_set u \<noteq> push_bit (uf_num UF_HOST) 1 OR push_bit (uf_num UF_PORT) 1
      then Url_error u
      else if uf_set u UF_PORT then
        (let v = strtoul10 (drop (unat (field_off u UF_PORT)) buf) in
         if 0xffff < v then Url_error u else Url_ok (u\<lparr>port := of_nat v\<rparr>))
      else Url_ok u)"

definition http_parser_parse_url ::
  "char list \<Rightarrow> nat \<Rightarrow> bool \<Rightarrow> http_parser_url \<Rightarrow> url_result" where
  "http_parser_parse_url buf buflen is_connect u =
     (case url_loop (take buflen buf) 0 (if is_connect then s_req_server_start else s_req_spaces_before_url)
             UF_MAX False (u\<lparr>port := 0, field_set := 0\<rparr>) of
        Scan_abort \<Rightarrow> Url_abort
      | Scan_error u' \<Rightarrow> Url_error u'
      | Scan_end u' found_at \<Rightarrow>
          if uf_set u' UF_SCHEMA \<and> \<not> uf_set u' UF_HOST then Url_error u'
          else if uf_set u' UF_HOST then
            (case http_parse_host buf u' found_at of
               Url_ok u2 \<Rightarrow> url_port buf is_connect u2
             | r \<Rightarrow> r)
          else url_port buf is_connect u')"


section \<open>Fields\<close>

lemma uf_num_less: "uf_num f < 16"
  by (cases f) simp_all

lemma uf_num_eq [simp]: "uf_num f = uf_num g \<longleftrightarrow> f = g"
  by (cases f; cases g; simp)

lemma uf_set_bit: "uf_set u f = bit (field_set u) (uf_num f)"
  unfolding uf_set_def by (rule and_power_nonzero) (simp add: uf_num_less)

lemma bit_uf: "bit (push_bit (uf_num f) (1 :: u16)) n \<longleftrightarrow> n = uf_num f"
  using uf_num_less [of f] by (auto simp: bit_exp_iff)

lemma uf_set_simps [simp]:
  "uf_set (set_uf f u) g \<longleftrightarrow> g = f \<or> uf_set u g" "uf_set (set_off f p u) g = uf_set u g"
  "uf_set (set_len f l u) g = uf_set u g" "uf_set (inc_len f u) g = uf_set u g"
  "uf_set (u\<lparr>port := v\<rparr>) g = uf_set u g" "\<not> uf_set (u\<lparr>port := v, field_set := 0\<rparr>) g"
  using uf_num_less [of f]
  by (auto simp: uf_set_bit set_uf_def set_off_def set_len_def inc_len_def bit_simps bit_uf)

lemma field_off_simps [simp]:
  "field_off (set_uf f u) = field_off u" "field_off (set_len f l u) = field_off u"
  "field_off (inc_len f u) = field_off u"
  "field_off (set_off f p u) = (field_off u)(f := of_nat p)"
  by (simp_all add: set_uf_def set_len_def inc_len_def set_off_def)

lemma field_len_simps [simp]:
  "field_len (set_uf f u) = field_len u" "field_len (set_off f p u) = field_len u"
  "field_len (set_len f l u) = (field_len u)(f := l)"
  "field_len (inc_len f u) = (field_len u)(f := field_len u f + 1)"
  by (simp_all add: set_uf_def set_len_def inc_len_def set_off_def)

definition end_of :: "http_parser_url \<Rightarrow> http_parser_url_fields \<Rightarrow> nat" where
  "end_of u f = unat (field_off u f) + unat (field_len u f)"

text \<open>Every field that is set is not empty and ends before \<open>p\<close>.\<close>

definition fields_before :: "nat \<Rightarrow> http_parser_url \<Rightarrow> bool" where
  "fields_before p u \<longleftrightarrow> (\<forall>f. uf_set u f \<longrightarrow> 0 < unat (field_len u f) \<and> end_of u f \<le> p)"

lemma unat_Suc16: "unat (w :: u16) < 65535 \<Longrightarrow> unat (w + 1) = unat w + 1"
  by (simp add: unat_word_ariths)

lemma unat_of_nat16: "n < 65536 \<Longrightarrow> unat (of_nat n :: u16) = n"
  by (simp add: unat_of_nat)


section \<open>The scan\<close>

definition before_host :: "pstate \<Rightarrow> bool" where
  "before_host s \<longleftrightarrow> s \<in> {s_req_spaces_before_url, s_req_schema, s_req_schema_slash,
     s_req_schema_slash_slash, s_req_server_start}"

definition in_host :: "pstate \<Rightarrow> bool" where
  "in_host s \<longleftrightarrow> s \<in> {s_req_server, s_req_server_with_at}"

definition after_host :: "pstate \<Rightarrow> bool" where
  "after_host s \<longleftrightarrow> s \<in> {s_req_path, s_req_query_string_start, s_req_query_string,
     s_req_fragment_start, s_req_fragment}"

lemmas url_phases = before_host_def in_host_def after_host_def

lemma parse_url_char_before:
  "before_host s \<Longrightarrow> parse_url_char s c \<noteq> s_dead \<Longrightarrow> before_host (parse_url_char s c) \<and>
     parse_url_char s c \<noteq> s_req_spaces_before_url \<or> in_host (parse_url_char s c) \<or> after_host (parse_url_char s c)"
  unfolding before_host_def
  by (elim insertE emptyE) (simp_all add: parse_url_char_def url_phases CR_def LF_def split: if_splits)

lemma parse_url_char_host:
  "in_host s \<Longrightarrow> parse_url_char s c \<noteq> s_dead \<Longrightarrow>
   in_host (parse_url_char s c) \<or> after_host (parse_url_char s c) \<and> (c = CHR ''/'' \<or> c = CHR ''?'')"
  unfolding in_host_def
  by (elim insertE emptyE) (simp_all add: parse_url_char_def url_phases CR_def LF_def split: if_splits)

lemma parse_url_char_after:
  "after_host s \<Longrightarrow> parse_url_char s c \<noteq> s_dead \<Longrightarrow> after_host (parse_url_char s c)"
  unfolding after_host_def
  by (elim insertE emptyE) (simp_all add: parse_url_char_def url_phases CR_def LF_def split: if_splits)

lemma uf_of_phase:
  "in_host s \<Longrightarrow> uf_of_state s = Some UF_HOST \<and> \<not> url_delimiter s"
  "before_host s \<Longrightarrow> s \<noteq> s_req_spaces_before_url \<Longrightarrow> url_delimiter s \<or> uf_of_state s = Some UF_SCHEMA"
  "after_host s \<Longrightarrow> url_delimiter s \<or> uf_of_state s \<in> {Some UF_PATH, Some UF_QUERY, Some UF_FRAGMENT}"
  by (auto simp: url_phases uf_of_state_def url_delimiter_def)


text \<open>
  The invariant of the scan at position \<open>p\<close> of the URL \<open>d\<close>: the fields set so far lie before \<open>p\<close>;
  the host, once left, is followed by a byte that is no digit.
\<close>

definition scan_inv :: "char list \<Rightarrow> nat \<Rightarrow> pstate \<Rightarrow> http_parser_url_fields \<Rightarrow> http_parser_url \<Rightarrow> bool" where
  "scan_inv d p s old_uf u \<longleftrightarrow> fields_before p u \<and> (old_uf \<noteq> UF_MAX \<longrightarrow> uf_set u old_uf) \<and>
     \<not> uf_set u UF_PORT \<and> \<not> uf_set u UF_USERINFO \<and>
     (before_host s \<and> \<not> uf_set u UF_HOST \<and> old_uf \<noteq> UF_HOST \<or>
      in_host s \<and> old_uf = UF_HOST \<and> end_of u UF_HOST = p \<or>
      after_host s \<and> (uf_set u UF_HOST \<longrightarrow>
        end_of u UF_HOST < p \<and> \<not> isdigit (d ! end_of u UF_HOST)))"

lemma fields_before_mono: "fields_before p u \<Longrightarrow> p \<le> q \<Longrightarrow> fields_before q u"
  by (fastforce simp: fields_before_def)

lemma end_of_url_field:
  "end_of (url_field uf old p u) g = end_of u g" if "g \<noteq> uf"
  using that by (auto simp: end_of_def url_field_def)

lemma url_field_same:
  assumes "fields_before p u" "uf_set u uf" "p < 65535"
  shows "fields_before (p + 1) (url_field uf uf p u)" "end_of (url_field uf uf p u) uf = end_of u uf + 1"
proof -
  have e: "end_of u uf \<le> p" using assms by (auto simp: fields_before_def)
  then have "unat (field_len u uf) < 65535" using assms(3) by (simp add: end_of_def)
  then have l: "unat (field_len u uf + 1) = unat (field_len u uf) + 1" by (rule unat_Suc16)
  show "end_of (url_field uf uf p u) uf = end_of u uf + 1"
    by (simp add: url_field_def end_of_def l)
  show "fields_before (p + 1) (url_field uf uf p u)"
    using assms(1) e l by (fastforce simp: fields_before_def url_field_def end_of_def)
qed

lemma url_field_new:
  assumes "fields_before p u" "uf \<noteq> old" "p < 65535"
  shows "fields_before (p + 1) (url_field uf old p u)" "end_of (url_field uf old p u) uf = p + 1"
  using assms unat_of_nat16 [of p]
  by (fastforce simp: fields_before_def url_field_def end_of_def)+

lemma url_field_before:
  assumes "fields_before p u" "old \<noteq> UF_MAX \<longrightarrow> uf_set u old" "p < 65535" "uf \<noteq> UF_MAX"
  shows "fields_before (p + 1) (url_field uf old p u)"
    "uf = old \<Longrightarrow> end_of (url_field uf old p u) uf = end_of u uf + 1"
    "uf \<noteq> old \<Longrightarrow> end_of (url_field uf old p u) uf = p + 1"
    "uf_set (url_field uf old p u) uf" "g \<noteq> uf \<Longrightarrow> uf_set (url_field uf old p u) g = uf_set u g"
  using url_field_same [of p u uf] url_field_new [of p u uf old] assms
  by (auto simp: url_field_def)

lemma not_digit_slash: "\<not> isdigit CHR ''/''" "\<not> isdigit CHR ''?''"
  by (simp_all add: isdigit_def uchar_def)

text \<open>A delimiter leaves the fields as they are.\<close>

lemma scan_inv_delimiter:
  assumes inv: "scan_inv d p s old u" and c: "d ! p = c" and s': "parse_url_char s c = s'" "s' \<noteq> s_dead"
    and del: "url_delimiter s'"
  shows "scan_inv d (p + 1) s' old u"
proof -
  have no: "\<not> in_host s'" using uf_of_phase(1) del by blast
  have f: "fields_before (p + 1) u" using inv fields_before_mono [of p u "p + 1"] by (simp add: scan_inv_def)
  from inv consider "before_host s" "\<not> uf_set u UF_HOST" "old \<noteq> UF_HOST"
    | "in_host s" "old = UF_HOST" "end_of u UF_HOST = p"
    | "after_host s" "uf_set u UF_HOST \<longrightarrow> end_of u UF_HOST < p \<and> \<not> isdigit (d ! end_of u UF_HOST)"
    unfolding scan_inv_def by blast
  then show ?thesis
  proof cases
    case 1
    with parse_url_char_before [of s c] s' no inv f show ?thesis by (auto simp: scan_inv_def)
  next
    case 2
    with parse_url_char_host [of s c] s' no inv f c show ?thesis
      by (auto simp: scan_inv_def not_digit_slash)
  next
    case 3
    with parse_url_char_after [of s c] s' inv f show ?thesis by (auto simp: scan_inv_def)
  qed
qed

lemma scan_inv_field:
  assumes inv: "scan_inv d p s old u" and c: "d ! p = c" and s': "parse_url_char s c = s'" "s' \<noteq> s_dead"
    and del: "\<not> url_delimiter s'" and uf: "uf_of_state s' = Some uf" and p: "p < 65535"
  shows "scan_inv d (p + 1) s' uf (url_field uf old p u)"
proof -
  have m: "uf \<noteq> UF_MAX" "uf \<noteq> UF_PORT" "uf \<noteq> UF_USERINFO"
    using uf by (auto simp: uf_of_state_def split: if_splits)
  have f: "fields_before p u" "old \<noteq> UF_MAX \<longrightarrow> uf_set u old" "\<not> uf_set u UF_PORT" "\<not> uf_set u UF_USERINFO"
    using inv by (auto simp: scan_inv_def)
  note n = url_field_before [OF f(1,2) p m(1)]
  have b: "fields_before (p + 1) (url_field uf old p u)" "uf_set (url_field uf old p u) uf"
    "\<not> uf_set (url_field uf old p u) UF_PORT" "\<not> uf_set (url_field uf old p u) UF_USERINFO"
    using n m f by simp_all
  from inv consider "before_host s" "\<not> uf_set u UF_HOST" "old \<noteq> UF_HOST"
    | "in_host s" "old = UF_HOST" "end_of u UF_HOST = p"
    | "after_host s" "uf_set u UF_HOST \<longrightarrow> end_of u UF_HOST < p \<and> \<not> isdigit (d ! end_of u UF_HOST)"
    unfolding scan_inv_def by blast
  then show ?thesis
  proof cases
    case 1
    with parse_url_char_before [of s c] s' consider
        "before_host s'" "s' \<noteq> s_req_spaces_before_url" | "in_host s'" | "after_host s'" by auto
    then show ?thesis
    proof cases
      case 1
      with uf_of_phase(2) [of s'] del uf have "uf = UF_SCHEMA" by simp
      with b n(5) [of UF_HOST] \<open>\<not> uf_set u UF_HOST\<close> 1 show ?thesis by (simp add: scan_inv_def)
    next
      case 2
      with uf_of_phase(1) [of s'] uf have "uf = UF_HOST" by simp
      with b n(3) \<open>old \<noteq> UF_HOST\<close> 2 show ?thesis by (simp add: scan_inv_def)
    next
      case 3
      with uf_of_phase(3) [of s'] del uf have "uf \<noteq> UF_HOST" by auto
      with b n(5) [of UF_HOST] \<open>\<not> uf_set u UF_HOST\<close> 3 show ?thesis by (simp add: scan_inv_def)
    qed
  next
    case 2
    with parse_url_char_host [of s c] s' consider
        "in_host s'" | "after_host s'" "c = CHR ''/'' \<or> c = CHR ''?''" by auto
    then show ?thesis
    proof cases
      case 1
      with uf_of_phase(1) [of s'] uf have "uf = UF_HOST" by simp
      with b n(2) 2 1 show ?thesis by (simp add: scan_inv_def)
    next
      case after: 2
      with uf_of_phase(3) [of s'] del uf have "uf \<noteq> UF_HOST" by auto
      with b n(5) [of UF_HOST] 2 after c end_of_url_field [of UF_HOST uf old p u] show ?thesis
        by (auto simp: scan_inv_def not_digit_slash)
    qed
  next
    case 3
    with parse_url_char_after [of s c] s' have a: "after_host s'" by auto
    with uf_of_phase(3) [of s'] del uf have "uf \<noteq> UF_HOST" by auto
    with b n(5) [of UF_HOST] 3 a end_of_url_field [of UF_HOST uf old p u] show ?thesis
      by (auto simp: scan_inv_def)
  qed
qed

lemma scan_uf_of_state:
  assumes "scan_inv d p s old u" "parse_url_char s c \<noteq> s_dead" "\<not> url_delimiter (parse_url_char s c)"
  shows "\<exists>uf. uf_of_state (parse_url_char s c) = Some uf"
proof -
  have "before_host s \<or> in_host s \<or> after_host s" using assms(1) by (auto simp: scan_inv_def)
  then have "before_host (parse_url_char s c) \<and> parse_url_char s c \<noteq> s_req_spaces_before_url \<or>
      in_host (parse_url_char s c) \<or> after_host (parse_url_char s c)"
    using parse_url_char_before [of s c] parse_url_char_host [of s c] parse_url_char_after [of s c] assms(2) by blast
  with uf_of_phase [of "parse_url_char s c"] assms(3) show ?thesis by auto
qed

lemma url_loop_inv:
  assumes "scan_inv d p s old u" "drop p d = cs" "length d \<le> 65535" "p \<le> length d"
  shows "url_loop cs p s old fa u \<noteq> Scan_abort \<and>
    (url_loop cs p s old fa u = Scan_end u' fa' \<longrightarrow> (\<exists>s' old'. scan_inv d (length d) s' old' u'))"
  using assms
proof (induction cs arbitrary: p s old fa u)
  case Nil
  then have "p = length d" by simp
  with Nil show ?case by auto
next
  case (Cons c cs)
  have c: "d ! p = c" "drop (p + 1) d = cs" "p < length d"
    using drop_Cons_nth [OF Cons.prems(2)] by simp_all
  define s' where "s' = parse_url_char s c"
  show ?case
  proof (cases "s' = s_dead")
    case True
    then show ?thesis by (simp add: s'_def)
  next
    case False
    show ?thesis
    proof (cases "url_delimiter s'")
      case True
      have "scan_inv d (p + 1) s' old u"
        by (rule scan_inv_delimiter [OF Cons.prems(1) c(1)]) (use False True in \<open>simp_all add: s'_def\<close>)
      from Cons.IH [OF this c(2) Cons.prems(3), of fa] c(3) False True show ?thesis
        by (simp add: s'_def Let_def)
    next
      case no: False
      then obtain uf where uf: "uf_of_state s' = Some uf"
        using scan_uf_of_state [OF Cons.prems(1)] False by (auto simp: s'_def)
      have "scan_inv d (p + 1) s' uf (url_field uf old p u)"
        by (rule scan_inv_field [OF Cons.prems(1) c(1)])
           (use False no uf c(3) Cons.prems(3) in \<open>simp_all add: s'_def\<close>)
      from Cons.IH [OF this c(2) Cons.prems(3), of "fa \<or> s' = s_req_server_with_at"] c(3) False no uf
      show ?thesis by (simp add: s'_def Let_def)
    qed
  qed
qed



section \<open>The host\<close>

text \<open>Which states lead to a state of the host automaton.\<close>

lemma host_char_from:
  assumes "http_parse_host_char s c = t" "t \<noteq> s_http_host_dead"
  shows "t = s_http_host \<Longrightarrow> s = s_http_host \<or> s = s_http_host_start"
    "t = s_http_host_v6 \<Longrightarrow> s = s_http_host_v6 \<or> s = s_http_host_v6_start"
    "t = s_http_host_v6_zone_start \<Longrightarrow> s = s_http_host_v6"
    "t = s_http_host_v6_zone \<Longrightarrow> s = s_http_host_v6_zone \<or> s = s_http_host_v6_zone_start"
    "t = s_http_host_port \<Longrightarrow> (s = s_http_host_port \<or> s = s_http_host_port_start) \<and> IS_NUM c"
    "t = s_http_userinfo \<Longrightarrow> s = s_http_userinfo \<or> s = s_http_userinfo_start"
    "t = s_http_host_v6_end \<Longrightarrow> s = s_http_host_v6 \<or> s = s_http_host_v6_zone"
    "t = s_http_host_port_start \<Longrightarrow> s = s_http_host \<or> s = s_http_host_v6_end"
    "t = s_http_host_start \<Longrightarrow> s = s_http_userinfo \<or> s = s_http_userinfo_start"
    "t = s_http_host_v6_start \<Longrightarrow> s = s_http_host_start" "t \<noteq> s_http_userinfo_start"
  using assms by (auto simp: http_parse_host_char_def Let_def split: if_splits)

definition host_pending :: "http_host_state \<Rightarrow> bool" where
  "host_pending s \<longleftrightarrow> s \<in> {s_http_userinfo_start, s_http_userinfo, s_http_host_start, s_http_host_v6_start}"

text \<open>
  The invariant of the loop over the host at position \<open>p\<close>; \<open>n\<close> bounds the fields found before.
\<close>

definition host_inv :: "char list \<Rightarrow> nat \<Rightarrow> nat \<Rightarrow> http_host_state \<Rightarrow> http_parser_url \<Rightarrow> bool" where
  "host_inv d n p s u \<longleftrightarrow>
     (\<forall>f. f \<notin> {UF_HOST, UF_PORT, UF_USERINFO} \<longrightarrow> uf_set u f \<longrightarrow> 0 < unat (field_len u f) \<and> end_of u f \<le> n) \<and>
     uf_set u UF_HOST \<and> s \<noteq> s_http_host_dead \<and>
     (if host_pending s then field_len u UF_HOST = 0
      else 0 < unat (field_len u UF_HOST) \<and> end_of u UF_HOST \<le> p) \<and>
     (if s = s_http_host_port
      then uf_set u UF_PORT \<and> 0 < unat (field_len u UF_PORT) \<and> end_of u UF_PORT = p \<and>
        (\<forall>i. unat (field_off u UF_PORT) \<le> i \<longrightarrow> i < p \<longrightarrow> isdigit (d ! i))
      else \<not> uf_set u UF_PORT) \<and>
     (uf_set u UF_USERINFO \<longrightarrow> 0 < unat (field_len u UF_USERINFO) \<and> end_of u UF_USERINFO \<le> p) \<and>
     (s = s_http_userinfo \<longrightarrow> uf_set u UF_USERINFO)"

lemma end_of_inc:
  "end_of u f \<le> p \<Longrightarrow> p < 65535 \<Longrightarrow>
   end_of (inc_len f u) f = end_of u f + 1 \<and> unat (field_len u f + 1) = unat (field_len u f) + 1"
  using unat_Suc16 [of "field_len u f"] by (simp add: end_of_def)

lemma end_of_frame [simp]:
  "f \<noteq> g \<Longrightarrow> end_of (inc_len f u) g = end_of u g" "end_of (set_uf f u) g = end_of u g"
  "f \<noteq> g \<Longrightarrow> end_of (set_off f p u) g = end_of u g" "f \<noteq> g \<Longrightarrow> end_of (set_len f l u) g = end_of u g"
  by (auto simp: end_of_def)

lemma IS_NUM_digit: "IS_NUM c \<Longrightarrow> isdigit c"
  by (simp add: IS_NUM_iff isdigit_def)

lemma host_inv_step:
  assumes inv: "host_inv d n p s u" and p: "p < 65535" and c: "d ! p = c"
    and t: "http_parse_host_char s c = t" "t \<noteq> s_http_host_dead"
  shows "host_inv d n (p + 1) t (host_field s t p u)"
proof -
  note from_s = host_char_from [OF t]
  have off: "unat (of_nat p :: u16) = p" using p by (simp add: unat_of_nat16)
  show ?thesis
  proof (cases t)
    case s_http_host
    with from_s(1) consider "s = s_http_host" | "s = s_http_host_start" by blast
    then show ?thesis
    proof cases
      case 1
      with inv have "end_of u UF_HOST \<le> p" by (simp add: host_inv_def host_pending_def)
      from end_of_inc [OF this p] inv 1 s_http_host show ?thesis
        by (auto simp: host_inv_def host_pending_def host_field_def)
    next
      case 2
      with inv s_http_host off show ?thesis
        by (auto simp: host_inv_def host_pending_def host_field_def end_of_def)
    qed
  next
    case s_http_host_v6
    with from_s(2) consider "s = s_http_host_v6" | "s = s_http_host_v6_start" by blast
    then show ?thesis
    proof cases
      case 1
      with inv have "end_of u UF_HOST \<le> p" by (simp add: host_inv_def host_pending_def)
      from end_of_inc [OF this p] inv 1 s_http_host_v6 show ?thesis
        by (auto simp: host_inv_def host_pending_def host_field_def)
    next
      case 2
      with inv s_http_host_v6 off show ?thesis
        by (auto simp: host_inv_def host_pending_def host_field_def end_of_def)
    qed
  next
    case s_http_host_v6_zone_start
    with inv from_s(3) have "end_of u UF_HOST \<le> p" by (simp add: host_inv_def host_pending_def)
    from end_of_inc [OF this p] inv from_s(3) s_http_host_v6_zone_start show ?thesis
      by (auto simp: host_inv_def host_pending_def host_field_def)
  next
    case s_http_host_v6_zone
    with inv from_s(4) have "end_of u UF_HOST \<le> p" by (auto simp: host_inv_def host_pending_def)
    from end_of_inc [OF this p] inv from_s(4) s_http_host_v6_zone show ?thesis
      by (auto simp: host_inv_def host_pending_def host_field_def)
  next
    case s_http_host_port
    with from_s(5) c have dig: "isdigit (d ! p)" using IS_NUM_digit by blast
    from s_http_host_port from_s(5) consider "s = s_http_host_port" | "s = s_http_host_port_start" by blast
    then show ?thesis
    proof cases
      case 1
      with inv have "end_of u UF_PORT \<le> p" by (simp add: host_inv_def)
      from end_of_inc [OF this p] inv 1 s_http_host_port dig show ?thesis
        by (auto simp: host_inv_def host_pending_def host_field_def less_Suc_eq)
    next
      case 2
      with inv s_http_host_port off dig show ?thesis
        by (auto simp: host_inv_def host_pending_def host_field_def end_of_def less_Suc_eq)
    qed
  next
    case s_http_userinfo
    with from_s(6) consider "s = s_http_userinfo" | "s = s_http_userinfo_start" by blast
    then show ?thesis
    proof cases
      case 1
      with inv have "end_of u UF_USERINFO \<le> p" by (simp add: host_inv_def)
      from end_of_inc [OF this p] inv 1 s_http_userinfo show ?thesis
        by (auto simp: host_inv_def host_pending_def host_field_def)
    next
      case 2
      with inv s_http_userinfo off show ?thesis
        by (auto simp: host_inv_def host_pending_def host_field_def end_of_def)
    qed
  qed (use inv from_s t in \<open>auto simp: host_inv_def host_pending_def host_field_def\<close>)
qed

lemma host_loop_inv:
  assumes "host_inv d n p s u" "drop p (take e d) = cs" "e \<le> 65535" "p \<le> e" "e \<le> length d"
    and "host_loop cs p s u = Inr (s', u')"
  shows "host_inv d n e s' u'"
  using assms
proof (induction cs arbitrary: p s u)
  case Nil
  then have "p = e" by simp
  with Nil show ?case by simp
next
  case (Cons c cs)
  have c: "p < e" "d ! p = c" "drop (p + 1) (take e d) = cs"
    using drop_Cons_nth [OF Cons.prems(2)] by simp_all
  define t where "t = http_parse_host_char s c"
  have t: "t \<noteq> s_http_host_dead" "host_loop cs (p + 1) t (host_field s t p u) = Inr (s', u')"
    using Cons.prems(6) by (auto simp: t_def Let_def split: if_splits)
  have "host_inv d n (p + 1) t (host_field s t p u)"
    by (rule host_inv_step [OF Cons.prems(1) _ c(2)]) (use c Cons.prems(3) t in \<open>simp_all add: t_def\<close>)
  from Cons.IH [OF this c(3) Cons.prems(3) _ Cons.prems(5) t(2)] c(1) show ?case by simp
qed



section \<open>Results\<close>

lemma scan_inv_init: "scan_inv d 0 (if is_connect then s_req_server_start else s_req_spaces_before_url)
    UF_MAX (u\<lparr>port := 0, field_set := 0\<rparr>)"
  by (simp add: scan_inv_def fields_before_def before_host_def)

lemma host_inv_fields:
  assumes "host_inv d n e s u" "\<not> host_ends_badly s" "e \<le> n"
  shows "fields_before n u"
proof -
  have "\<not> host_pending s" using assms(2) by (auto simp: host_pending_def host_ends_badly_def)
  with assms(1,3) have host: "0 < unat (field_len u UF_HOST)" "end_of u UF_HOST \<le> n"
    and port: "uf_set u UF_PORT \<longrightarrow> 0 < unat (field_len u UF_PORT) \<and> end_of u UF_PORT \<le> n"
    and info: "uf_set u UF_USERINFO \<longrightarrow> 0 < unat (field_len u UF_USERINFO) \<and> end_of u UF_USERINFO \<le> n"
    and others: "\<forall>f. f \<notin> {UF_HOST, UF_PORT, UF_USERINFO} \<longrightarrow> uf_set u f \<longrightarrow>
      0 < unat (field_len u f) \<and> end_of u f \<le> n"
    by (auto simp: host_inv_def split: if_splits)
  show ?thesis
    unfolding fields_before_def
  proof (intro allI impI)
    fix f assume "uf_set u f"
    with host port info others show "0 < unat (field_len u f) \<and> end_of u f \<le> n" by (cases f) auto
  qed
qed

text \<open>The end of the host: the URL ends there, or the next byte is no digit.\<close>

lemma scan_inv_host_end:
  assumes "scan_inv d (length d) s old u" "uf_set u UF_HOST"
  shows "end_of u UF_HOST = length d \<or> end_of u UF_HOST < length d \<and> \<not> isdigit (d ! end_of u UF_HOST)"
  using assms by (auto simp: scan_inv_def)

lemma http_parse_host_ok:
  assumes inv: "scan_inv (take n buf) n s old u" and n: "n \<le> 65535" "n \<le> length buf"
    and ok: "http_parse_host buf u fa = Url_ok u'"
  shows "fields_before n u'"
    "uf_set u' UF_PORT \<Longrightarrow> end_of u' UF_PORT = end_of u UF_HOST \<and>
       (\<forall>i. unat (field_off u' UF_PORT) \<le> i \<longrightarrow> i < end_of u UF_HOST \<longrightarrow> isdigit (buf ! i))"
proof -
  define e where "e = end_of u UF_HOST"
  define s0 where "s0 = (if fa then s_http_userinfo_start else s_http_host_start)"
  from ok obtain s' where h: "uf_set u UF_HOST" "\<not> host_ends_badly s'"
    "host_loop (drop (unat (field_off u UF_HOST)) (take e buf)) (unat (field_off u UF_HOST)) s0 (set_len UF_HOST 0 u) = Inr (s', u')"
    by (auto simp: http_parse_host_def Let_def e_def end_of_def s0_def split: if_splits sum.splits)
  have f: "fields_before n u" "\<not> uf_set u UF_PORT" "\<not> uf_set u UF_USERINFO" using inv by (simp_all add: scan_inv_def)
  have e: "e \<le> n" "unat (field_off u UF_HOST) \<le> e" using f(1) h(1) by (auto simp: fields_before_def e_def end_of_def)
  have "host_inv buf n (unat (field_off u UF_HOST)) s0 (set_len UF_HOST 0 u)"
    using f h(1) by (auto simp: host_inv_def host_pending_def s0_def fields_before_def end_of_def)
  then have inv': "host_inv buf n e s' u'"
    by (rule host_loop_inv) (use h e n in simp_all)
  show fb: "fields_before n u'" by (rule host_inv_fields [OF inv' h(2) e(1)])
  show "uf_set u' UF_PORT \<Longrightarrow> end_of u' UF_PORT = end_of u UF_HOST \<and>
       (\<forall>i. unat (field_off u' UF_PORT) \<le> i \<longrightarrow> i < end_of u UF_HOST \<longrightarrow> isdigit (buf ! i))"
    using inv' by (auto simp: host_inv_def e_def split: if_splits)
qed


text \<open>The host loop keeps the fields that are set.\<close>

lemma host_loop_keeps: "host_loop cs p s u = Inr (s', u') \<Longrightarrow> uf_set u f \<Longrightarrow> uf_set u' f"
proof (induction cs arbitrary: p s u)
  case (Cons c cs)
  have "uf_set (host_field s t p u) f" for t
    using Cons.prems(2) by (auto simp: host_field_def)
  with Cons show ?case by (auto simp: Let_def split: if_splits)
qed simp

lemma http_parse_host_keeps:
  "http_parse_host buf u fa = Url_ok u' \<Longrightarrow> uf_set u f \<Longrightarrow> uf_set u' f"
  by (auto simp: http_parse_host_def Let_def split: if_splits sum.splits dest!: host_loop_keeps [where f = f])

lemma takeWhile_digits:
  assumes "\<And>i. off \<le> i \<Longrightarrow> i < e \<Longrightarrow> isdigit (buf ! i)" "off \<le> e" "e \<le> length buf"
    and "e < length buf \<Longrightarrow> \<not> isdigit (buf ! e)"
  shows "takeWhile isdigit (drop off buf) = take (e - off) (drop off buf)"
proof (rule takeWhile_eq_take_P_nth)
  fix i assume "i < e - off" "i < length (drop off buf)"
  with assms(1) [of "off + i"] show "isdigit (drop off buf ! i)" by simp
next
  assume "e - off < length (drop off buf)"
  with assms(2-4) show "\<not> isdigit (drop off buf ! (e - off))" by simp
qed

lemma url_port_ok:
  assumes "url_port buf is_connect u = Url_ok u'"
  shows "uf_set u' f = uf_set u f" "field_off u' = field_off u" "field_len u' = field_len u"
    "field_set u' = field_set u"
    "uf_set u UF_PORT \<Longrightarrow> strtoul10 (drop (unat (field_off u UF_PORT)) buf) \<le> 65535 \<and>
       unat (port u') = strtoul10 (drop (unat (field_off u UF_PORT)) buf)"
    "is_connect \<Longrightarrow> field_set u' = push_bit (uf_num UF_HOST) 1 OR push_bit (uf_num UF_PORT) 1"
  using assms by (auto simp: url_port_def Let_def unat_of_nat16 split: if_splits)

text \<open>The scan of a whole URL and what \<open>Url_ok\<close> says about it.\<close>

lemma parse_url_okE:
  assumes "http_parser_parse_url buf n is_connect u0 = Url_ok u" "n \<le> 65535" "n \<le> length buf"
  obtains s old u1 fa u2 where "scan_inv (take n buf) n s old u1"
    "url_port buf is_connect u2 = Url_ok u" "uf_set u1 UF_SCHEMA \<longrightarrow> uf_set u1 UF_HOST"
    "uf_set u1 UF_HOST \<longrightarrow> http_parse_host buf u1 fa = Url_ok u2" "\<not> uf_set u1 UF_HOST \<longrightarrow> u2 = u1"
proof -
  define st where "st = (if is_connect then s_req_server_start else s_req_spaces_before_url)"
  from assms(1) obtain u1 fa where l: "url_loop (take n buf) 0 st UF_MAX False (u0\<lparr>port := 0, field_set := 0\<rparr>) = Scan_end u1 fa"
    by (auto simp: http_parser_parse_url_def st_def split: url_scan.splits)
  have "scan_inv (take n buf) 0 st UF_MAX (u0\<lparr>port := 0, field_set := 0\<rparr>)"
    unfolding st_def by (rule scan_inv_init)
  from url_loop_inv [OF this, of "take n buf" False u1 fa] l assms(2,3)
  obtain s old where inv: "scan_inv (take n buf) n s old u1" by auto
  have r: "Url_ok u = (if uf_set u1 UF_SCHEMA \<and> \<not> uf_set u1 UF_HOST then Url_error u1
      else if uf_set u1 UF_HOST then
        (case http_parse_host buf u1 fa of Url_ok u2 \<Rightarrow> url_port buf is_connect u2 | r \<Rightarrow> r)
      else url_port buf is_connect u1)"
    using assms(1) l unfolding http_parser_parse_url_def st_def [symmetric] by simp
  show thesis
  proof (cases "uf_set u1 UF_HOST")
    case True
    with r obtain u2 where "http_parse_host buf u1 fa = Url_ok u2" "url_port buf is_connect u2 = Url_ok u"
      by (auto split: url_result.splits)
    with that [of s old u1 u2 fa] inv True show thesis by simp
  next
    case False
    with r that [of s old u1 u1 fa] inv show thesis by (auto split: if_splits)
  qed
qed

text \<open>No assertion of the URL splitter fails.\<close>

lemma url_port_no_abort: "url_port buf c u \<noteq> Url_abort"
  by (simp add: url_port_def Let_def)

lemma parse_url_no_abort_lemma:
  assumes "n \<le> 65535" "n \<le> length buf"
  shows "http_parser_parse_url buf n is_connect u0 \<noteq> Url_abort"
proof -
  define st where "st = (if is_connect then s_req_server_start else s_req_spaces_before_url)"
  have "scan_inv (take n buf) 0 st UF_MAX (u0\<lparr>port := 0, field_set := 0\<rparr>)"
    unfolding st_def by (rule scan_inv_init)
  from url_loop_inv [OF this, of "take n buf" False] assms
  have "url_loop (take n buf) 0 st UF_MAX False (u0\<lparr>port := 0, field_set := 0\<rparr>) \<noteq> Scan_abort" by auto
  moreover have "uf_set u UF_HOST \<Longrightarrow> http_parse_host buf u fa \<noteq> Url_abort" for u fa
    by (auto simp: http_parse_host_def Let_def split: sum.splits)
  ultimately show ?thesis
    using url_port_no_abort unfolding http_parser_parse_url_def st_def [symmetric]
    by (auto split: url_scan.splits url_result.splits)
qed



section \<open>Properties\<close>

lemmas url_eval = http_parser_parse_url_def http_parser_url_init_def parse_url_char_def url_delimiter_def
  uf_of_state_def url_field_def set_uf_def set_off_def set_len_def inc_len_def uf_set_def url_port_def
  http_parse_host_def host_field_def host_ends_badly_def http_parse_host_char_def Let_def CR_def LF_def
  IS_ALPHA_iff IS_NUM_iff uchar_LOWER IS_ALPHANUM_def IS_USERINFO_CHAR_def IS_MARK_def IS_HOST_CHAR_def
  IS_URL_CHAR_iff IS_HEX_iff strtoul10_def isspace_def isdigit_def uchar_def end_of_def

text \<open>
  C12: when \<open>http_parser_parse_url\<close> accepts a URL of at most 65535 bytes, every field it reports is
  a non-empty slice that lies inside the URL, and a URL with a schema has a host.
\<close>

theorem parse_url_fields_in_bounds:
  assumes "http_parser_parse_url buf n is_connect u0 = Url_ok u" "n \<le> 65535" "n \<le> length buf"
  shows "(uf_set u f \<longrightarrow> 0 < unat (field_len u f) \<and> unat (field_off u f) + unat (field_len u f) \<le> n) \<and>
    (uf_set u UF_SCHEMA \<longrightarrow> uf_set u UF_HOST)"
proof (rule parse_url_okE [OF assms])
  fix s old u1 fa u2
  assume inv: "scan_inv (take n buf) n s old u1" and port: "url_port buf is_connect u2 = Url_ok u"
    and schema: "uf_set u1 UF_SCHEMA \<longrightarrow> uf_set u1 UF_HOST"
    and host: "uf_set u1 UF_HOST \<longrightarrow> http_parse_host buf u1 fa = Url_ok u2" "\<not> uf_set u1 UF_HOST \<longrightarrow> u2 = u1"
  note p = url_port_ok(1-3) [OF port]
  have fb: "fields_before n u2"
    using http_parse_host_ok(1) [OF inv assms(2,3)] host inv by (cases "uf_set u1 UF_HOST") (auto simp: scan_inv_def)
  have "uf_set u2 UF_HOST" if "uf_set u1 UF_HOST"
    using host that http_parse_host_keeps by blast
  then show ?thesis
    using fb p schema host by (auto simp: fields_before_def end_of_def)
qed

theorem parse_url_fields_in_bounds_witness:
  "\<exists>u. http_parser_parse_url ''http://me@h:80/p?q'' 18 False http_parser_url_init = Url_ok u \<and>
     uf_set u UF_HOST \<and> unat (field_off u UF_HOST) + unat (field_len u UF_HOST) \<le> 18"
proof -
  obtain u where u: "http_parser_parse_url ''http://me@h:80/p?q'' 18 False http_parser_url_init = Url_ok u"
    "uf_set u UF_HOST" by (simp add: url_eval)
  from parse_url_fields_in_bounds [OF this(1), of UF_HOST] this show ?thesis by simp
qed

text \<open>
  A \<open>CONNECT\<close> target is accepted only as \<open>host:port\<close>: both fields are set and no other.
\<close>

theorem parse_url_connect:
  assumes "http_parser_parse_url buf n True u0 = Url_ok u" "n \<le> 65535" "n \<le> length buf"
  shows "uf_set u f \<longleftrightarrow> f = UF_HOST \<or> f = UF_PORT"
proof (rule parse_url_okE [OF assms])
  fix s old u1 fa u2 assume "url_port buf True u2 = Url_ok u"
  from url_port_ok(6) [OF this] show ?thesis
    by (cases f) (auto simp: uf_set_bit bit_simps bit_uf)
qed

theorem parse_url_connect_witness:
  "\<exists>u. http_parser_parse_url ''h:443'' 5 True http_parser_url_init = Url_ok u \<and> uf_set u UF_PORT \<and>
     \<not> uf_set u UF_PATH"
proof -
  obtain u where "http_parser_parse_url ''h:443'' 5 True http_parser_url_init = Url_ok u" by (simp add: url_eval)
  with parse_url_connect [OF this, of UF_PORT] parse_url_connect [OF this, of UF_PATH] show ?thesis by simp
qed

text \<open>
  The port of an accepted URL is the number its digits spell, provided the byte behind the
  URL (if there is one) is no digit.
\<close>

theorem parse_url_port_value:
  assumes "http_parser_parse_url buf n is_connect u0 = Url_ok u" "n \<le> 65535" "n \<le> length buf"
    and "uf_set u UF_PORT" and stop: "n < length buf \<Longrightarrow> \<not> isdigit (buf ! n)"
  shows "unat (port u) =
    dec_value 0 (take (unat (field_len u UF_PORT)) (drop (unat (field_off u UF_PORT)) buf))"
proof (rule parse_url_okE [OF assms(1-3)])
  fix s old u1 fa u2
  assume inv: "scan_inv (take n buf) n s old u1" and port: "url_port buf is_connect u2 = Url_ok u"
    and host: "uf_set u1 UF_HOST \<longrightarrow> http_parse_host buf u1 fa = Url_ok u2" "\<not> uf_set u1 UF_HOST \<longrightarrow> u2 = u1"
  note p = url_port_ok [OF port]
  have set: "uf_set u2 UF_PORT" using assms(4) p(1) by simp
  with host inv have h: "uf_set u1 UF_HOST" "http_parse_host buf u1 fa = Url_ok u2"
    by (auto simp: scan_inv_def)
  define e where "e = end_of u1 UF_HOST"
  define off where "off = unat (field_off u2 UF_PORT)"
  from http_parse_host_ok [OF inv assms(2,3) h(2)] set
  have e: "end_of u2 UF_PORT = e" "\<And>i. off \<le> i \<Longrightarrow> i < e \<Longrightarrow> isdigit (buf ! i)" "e \<le> n"
    "0 < unat (field_len u2 UF_PORT)"
    by (auto simp: e_def off_def fields_before_def)
  have "length (take n buf) = n" using assms(3) by simp
  then have stop_e: "\<not> isdigit (buf ! e)" if "e < length buf"
    using scan_inv_host_end [of "take n buf" s old u1] inv h(1) stop that by (auto simp: e_def)
  have oe: "off \<le> e" "off < e" "e - off = unat (field_len u2 UF_PORT)" "e \<le> length buf"
    using e assms(3) by (auto simp: end_of_def off_def)
  have tw: "takeWhile isdigit (drop off buf) = take (e - off) (drop off buf)"
    by (rule takeWhile_digits) (use e oe stop_e in auto)
  have dr: "drop off buf = buf ! off # drop (off + 1) buf"
    using oe by (simp add: Cons_nth_drop_Suc)
  have "isdigit (buf ! off)" using e(2) oe by simp
  from strtoul10_digit [OF this, of "drop (off + 1) buf"]
  have "strtoul10 (drop off buf) = (let v = dec_value 0 (takeWhile isdigit (drop off buf)) in if 2 ^ 64 \<le> v then 2 ^ 64 - 1 else v)"
    by (simp only: dr)
  with p(5) [OF set] have "unat (port u) = dec_value 0 (takeWhile isdigit (drop off buf))"
    by (auto simp: off_def Let_def split: if_splits)
  with tw oe p(2,3) show ?thesis by (simp add: off_def)
qed


theorem parse_url_port_value_witness:
  "\<exists>u. http_parser_parse_url ''h:443'' 5 True http_parser_url_init = Url_ok u \<and> unat (port u) = 443"
proof -
  obtain u where u: "http_parser_parse_url ''h:443'' 5 True http_parser_url_init = Url_ok u" "uf_set u UF_PORT"
    "field_len u UF_PORT = 3" "field_off u UF_PORT = 2" by (simp add: url_eval)
  from parse_url_port_value [OF u(1) _ _ u(2)] u show ?thesis by (simp add: uchar_def)
qed

text \<open>
  No assertion of the URL splitter fails, on any bytes.
\<close>

theorem parse_url_no_abort:
  assumes "n \<le> 65535" "n \<le> length buf"
  shows "http_parser_parse_url buf n is_connect u0 \<noteq> Url_abort"
  by (rule parse_url_no_abort_lemma [OF assms])

theorem parse_url_no_abort_witness:
  "http_parser_parse_url ''/a b'' 4 False http_parser_url_init \<noteq> Url_abort"
  using parse_url_no_abort [of 4 "''/a b''" False http_parser_url_init] by simp

text \<open>
  The condition on the byte behind the URL matters: with the URL \<open>h:44\<close> in a buffer that goes on
  with the digit 3, the port reported is 443, read past the length the caller gave.
\<close>

theorem parse_url_port_overread:
  "\<exists>u. http_parser_parse_url ''h:443'' 4 True http_parser_url_init = Url_ok u \<and>
     field_len u UF_PORT = 2 \<and> port u = 443"
  by (simp add: url_eval)

end
