(* ===== verification/String_Util.thy ===== *)
theory String_Util
  imports Prelude "HOL-Library.Sublist"
begin

text \<open>
  The text functions of \<open>src/mwnet_mt/util/MWStringUtil.cc\<close>: splitting, trimming, replacing, URL
  encoding and decoding, changing case, stripping. A \<open>std::string\<close> is a list of bytes; a pointer
  to a string that is changed in place is an argument and a result. A read outside a table is the
  result \<open>None\<close>, and so is the loop of \<open>StringReplace\<close> when it does not end.
\<close>

section \<open>Searching\<close>

text \<open>\<open>std::string::find (pat, pos)\<close>; \<open>None\<close> is \<open>npos\<close>.\<close>

fun find_sub :: "string \<Rightarrow> string \<Rightarrow> nat option" where
  "find_sub pat s =
     (if prefix pat s then Some 0 else case s of [] \<Rightarrow> None | x # xs \<Rightarrow> map_option Suc (find_sub pat xs))"

declare find_sub.simps [simp del]

definition str_find :: "string \<Rightarrow> string \<Rightarrow> nat \<Rightarrow> nat option" where
  "str_find str pat pos =
     (if pos \<le> length str then map_option (\<lambda>i. pos + i) (find_sub pat (drop pos str)) else None)"

lemma find_sub_Some:
  "find_sub pat s = Some i \<Longrightarrow>
     i + length pat \<le> length s \<and> take (length pat) (drop i s) = pat \<and> \<not> (\<exists>j<i. prefix pat (drop j s))"
proof (induction s arbitrary: i)
  case Nil
  then show ?case by (auto simp: find_sub.simps [of pat "[]"] split: if_splits)
next
  case (Cons x xs)
  show ?case
  proof (cases "prefix pat (x # xs)")
    case True
    with Cons.prems have "i = 0" by (simp add: find_sub.simps [of pat "x # xs"])
    moreover from True obtain zs where "x # xs = pat @ zs" by (auto simp: prefix_def)
    moreover have "length pat \<le> length (x # xs)" using True by (rule prefix_length_le)
    ultimately show ?thesis by simp
  next
    case False
    with Cons.prems obtain j where j: "find_sub pat xs = Some j" "i = Suc j"
      by (auto simp: find_sub.simps [of pat "x # xs"])
    have "\<not> prefix pat (drop k (x # xs))" if "k < i" for k
      using Cons.IH [OF j(1)] that j(2) False by (cases k) auto
    with Cons.IH [OF j(1)] j(2) show ?thesis by auto
  qed
qed

lemma find_sub_None: "find_sub pat s = None \<Longrightarrow> \<not> prefix pat (drop j s)"
proof (induction s arbitrary: j)
  case Nil
  then show ?case by (simp add: find_sub.simps [of pat "[]"] split: if_splits)
next
  case (Cons x xs)
  from Cons.prems have "\<not> prefix pat (x # xs)" "find_sub pat xs = None"
    by (auto simp: find_sub.simps [of pat "x # xs"] split: if_splits)
  with Cons.IH show ?case by (cases j) auto
qed

lemma sublist_prefix_drop: "sublist pat s \<longleftrightarrow> (\<exists>j. prefix pat (drop j s))"
proof
  assume "sublist pat s"
  then obtain a b where "s = a @ pat @ b" by (auto simp: sublist_def)
  then have "prefix pat (drop (length a) s)" by simp
  then show "\<exists>j. prefix pat (drop j s)" ..
qed (auto simp: prefix_def sublist_def, metis append_take_drop_id)

lemma str_find_at: "str_find (pre @ s) pat (length pre) = map_option (\<lambda>i. length pre + i) (find_sub pat s)"
  by (simp add: str_find_def)


section \<open>Split\<close>

text \<open>The loop of \<open>Split\<close>; the delimiter \<open>d # ds\<close> is not empty, as the early return makes sure.\<close>

function split_loop :: "string \<Rightarrow> char \<Rightarrow> string \<Rightarrow> nat \<Rightarrow> string list" where
  "split_loop str d ds beginIndex =
     (if beginIndex < length str then
        (case str_find str (d # ds) beginIndex of
           None \<Rightarrow> [drop beginIndex str]
         | Some endIndex \<Rightarrow>
             (if beginIndex < endIndex then [take (endIndex - beginIndex) (drop beginIndex str)] else []) @
             split_loop str d ds (endIndex + length (d # ds)))
      else [])"
  by pat_completeness auto

termination split_loop
  by (relation "measure (\<lambda>(str, d, ds, b). length str - b)") (auto simp: str_find_def split: if_splits)

declare split_loop.simps [simp del]

definition Split :: "string \<Rightarrow> string \<Rightarrow> string list \<Rightarrow> string list" where
  "Split str delim result =
     (if str = [] then result
      else case delim of
        [] \<Rightarrow> result @ [str]
      | d # ds \<Rightarrow> if d = NUL then result @ [str] else result @ split_loop str d ds 0)"


section \<open>Prefixes, suffixes, white space\<close>

definition StartsWith :: "string \<Rightarrow> string \<Rightarrow> bool" where
  "StartsWith str pre = (if length str < length pre then False else take (length pre) str = pre)"

definition EndsWith :: "string \<Rightarrow> string \<Rightarrow> bool" where
  "EndsWith str suf =
     (if length str < length suf then False else drop (length str - length suf) str = suf)"

definition Ltrim :: "string \<Rightarrow> string" where
  "Ltrim str = dropWhile isspace str"

definition Rtrim :: "string \<Rightarrow> string" where
  "Rtrim str = rev (dropWhile isspace (rev str))"

definition Trim :: "string \<Rightarrow> string" where
  "Trim str = Rtrim (Ltrim str)"

definition Trim_list :: "string list option \<Rightarrow> string list option" where
  "Trim_list strList = map_option (map Trim) strList"

definition StripSuffix :: "string \<Rightarrow> string \<Rightarrow> string \<times> bool" where
  "StripSuffix str suf =
     (if length suf \<le> length str \<and> drop (length str - length suf) str = suf
      then (take (length str - length suf) str, True) else (str, False))"

definition StripPrefix :: "string \<Rightarrow> string \<Rightarrow> string \<times> bool" where
  "StripPrefix str pre =
     (if length pre \<le> length str \<and> take (length pre) str = pre
      then (drop (length pre) str, True) else (str, False))"

definition TrimRight_str :: "string \<Rightarrow> string \<Rightarrow> string" where
  "TrimRight_str src s = fst (StripSuffix src s)"

definition TrimLeft_str :: "string \<Rightarrow> string \<Rightarrow> string" where
  "TrimLeft_str src s = fst (StripPrefix src s)"


section \<open>Replace\<close>

partial_function (option) replace_loop :: "string \<Rightarrow> string \<Rightarrow> string \<Rightarrow> nat \<Rightarrow> string option" where
  "replace_loop oldStr newStr str pos =
     (case str_find str oldStr pos of
        None \<Rightarrow> Some str
      | Some p \<Rightarrow> replace_loop oldStr newStr (take p str @ newStr @ drop (p + length oldStr) str) (p + length newStr))"

definition StringReplace :: "string \<Rightarrow> string \<Rightarrow> string \<Rightarrow> string option" where
  "StringReplace oldStr newStr str = replace_loop oldStr newStr str 0"


section \<open>URL encoding\<close>

text \<open>
  The table of 1024 characters, four for each byte: the number of characters that the encoding
  has, and three characters of which it takes that many.
\<close>

definition ENCODECHARS :: "(nat \<times> string) list" where
  "ENCODECHARS = [
    (3, ''%00''), (3, ''%01''), (3, ''%02''), (3, ''%03''), (3, ''%04''), (3, ''%05''), (3, ''%06''), (3, ''%07''),
    (3, ''%08''), (3, ''%09''), (3, ''%0A''), (3, ''%0B''), (3, ''%0C''), (3, ''%0D''), (3, ''%0E''), (3, ''%0F''),
    (3, ''%10''), (3, ''%11''), (3, ''%12''), (3, ''%13''), (3, ''%14''), (3, ''%15''), (3, ''%16''), (3, ''%17''),
    (3, ''%18''), (3, ''%19''), (3, ''%1A''), (3, ''%1B''), (3, ''%1C''), (3, ''%1D''), (3, ''%1E''), (3, ''%1F''),
    (1, ''+20''), (3, ''%21''), (3, ''%22''), (3, ''%23''), (3, ''%24''), (3, ''%25''), (3, ''%26''), (3, ''%27''),
    (3, ''%28''), (3, ''%29''), (3, ''%2A''), (3, ''%2B''), (3, ''%2C''), (1, ''-2D''), (1, ''.2E''), (3, ''%2F''),
    (1, ''030''), (1, ''131''), (1, ''232''), (1, ''333''), (1, ''434''), (1, ''535''), (1, ''636''), (1, ''737''),
    (1, ''838''), (1, ''939''), (3, ''%3A''), (3, ''%3B''), (3, ''%3C''), (3, ''%3D''), (3, ''%3E''), (3, ''%3F''),
    (3, ''%40''), (1, ''A41''), (1, ''B42''), (1, ''C43''), (1, ''D44''), (1, ''E45''), (1, ''F46''), (1, ''G47''),
    (1, ''H48''), (1, ''I49''), (1, ''J4A''), (1, ''K4B''), (1, ''L4C''), (1, ''M4D''), (1, ''N4E''), (1, ''O4F''),
    (1, ''P50''), (1, ''Q51''), (1, ''R52''), (1, ''S53''), (1, ''T54''), (1, ''U55''), (1, ''V56''), (1, ''W57''),
    (1, ''X58''), (1, ''Y59''), (1, ''Z5A''), (3, ''%5B''), (3, ''%5C''), (3, ''%5D''), (3, ''%5E''), (1, ''_5F''),
    (3, ''%60''), (1, ''a61''), (1, ''b62''), (1, ''c63''), (1, ''d64''), (1, ''e65''), (1, ''f66''), (1, ''g67''),
    (1, ''h68''), (1, ''i69''), (1, ''j6A''), (1, ''k6B''), (1, ''l6C''), (1, ''m6D''), (1, ''n6E''), (1, ''o6F''),
    (1, ''p70''), (1, ''q71''), (1, ''r72''), (1, ''s73''), (1, ''t74''), (1, ''u75''), (1, ''v76''), (1, ''w77''),
    (1, ''x78''), (1, ''y79''), (1, ''z7A''), (3, ''%7B''), (3, ''%7C''), (3, ''%7D''), (1, ''~7E''), (3, ''%7F''),
    (3, ''%80''), (3, ''%81''), (3, ''%82''), (3, ''%83''), (3, ''%84''), (3, ''%85''), (3, ''%86''), (3, ''%87''),
    (3, ''%88''), (3, ''%89''), (3, ''%8A''), (3, ''%8B''), (3, ''%8C''), (3, ''%8D''), (3, ''%8E''), (3, ''%8F''),
    (3, ''%90''), (3, ''%91''), (3, ''%92''), (3, ''%93''), (3, ''%94''), (3, ''%95''), (3, ''%96''), (3, ''%97''),
    (3, ''%98''), (3, ''%99''), (3, ''%9A''), (3, ''%9B''), (3, ''%9C''), (3, ''%9D''), (3, ''%9E''), (3, ''%9F''),
    (3, ''%A0''), (3, ''%A1''), (3, ''%A2''), (3, ''%A3''), (3, ''%A4''), (3, ''%A5''), (3, ''%A6''), (3, ''%A7''),
    (3, ''%A8''), (3, ''%A9''), (3, ''%AA''), (3, ''%AB''), (3, ''%AC''), (3, ''%AD''), (3, ''%AE''), (3, ''%AF''),
    (3, ''%B0''), (3, ''%B1''), (3, ''%B2''), (3, ''%B3''), (3, ''%B4''), (3, ''%B5''), (3, ''%B6''), (3, ''%B7''),
    (3, ''%B8''), (3, ''%B9''), (3, ''%BA''), (3, ''%BB''), (3, ''%BC''), (3, ''%BD''), (3, ''%BE''), (3, ''%BF''),
    (3, ''%C0''), (3, ''%C1''), (3, ''%C2''), (3, ''%C3''), (3, ''%C4''), (3, ''%C5''), (3, ''%C6''), (3, ''%C7''),
    (3, ''%C8''), (3, ''%C9''), (3, ''%CA''), (3, ''%CB''), (3, ''%CC''), (3, ''%CD''), (3, ''%CE''), (3, ''%CF''),
    (3, ''%D0''), (3, ''%D1''), (3, ''%D2''), (3, ''%D3''), (3, ''%D4''), (3, ''%D5''), (3, ''%D6''), (3, ''%D7''),
    (3, ''%D8''), (3, ''%D9''), (3, ''%DA''), (3, ''%DB''), (3, ''%DC''), (3, ''%DD''), (3, ''%DE''), (3, ''%DF''),
    (3, ''%E0''), (3, ''%E1''), (3, ''%E2''), (3, ''%E3''), (3, ''%E4''), (3, ''%E5''), (3, ''%E6''), (3, ''%E7''),
    (3, ''%E8''), (3, ''%E9''), (3, ''%EA''), (3, ''%EB''), (3, ''%EC''), (3, ''%ED''), (3, ''%EE''), (3, ''%EF''),
    (3, ''%F0''), (3, ''%F1''), (3, ''%F2''), (3, ''%F3''), (3, ''%F4''), (3, ''%F5''), (3, ''%F6''), (3, ''%F7''),
    (3, ''%F8''), (3, ''%F9''), (3, ''%FA''), (3, ''%FB''), (3, ''%FC''), (3, ''%FD''), (3, ''%FE''), (3, ''%FF'')]"

text \<open>\<open>static_cast<unsigned short>(srcStr[i] * 4)\<close>: the product of a signed \<open>char\<close> and 4, modulo \<open>2 ^ 16\<close>.\<close>

definition encode_offset :: "char \<Rightarrow> nat" where
  "encode_offset c = nat (schar c * 4 mod 65536)"

definition encode_entry :: "nat \<Rightarrow> string option" where
  "encode_entry off =
     (if off < 1024 then case ENCODECHARS ! (off div 4) of (n, cs) \<Rightarrow> Some (take n cs) else None)"

fun url_encode_loop :: "string \<Rightarrow> string \<Rightarrow> string option" where
  "url_encode_loop [] dst = Some dst"
| "url_encode_loop (c # src) dst =
     (case encode_entry (encode_offset c) of None \<Rightarrow> None | Some e \<Rightarrow> url_encode_loop src (dst @ e))"

definition UrlEncode :: "string \<Rightarrow> string option" where
  "UrlEncode srcStr = url_encode_loop srcStr []"

definition HEX2DEC :: "int list" where
  "HEX2DEC = [
    - 1, - 1, - 1, - 1, - 1, - 1, - 1, - 1, - 1, - 1, - 1, - 1, - 1, - 1, - 1, - 1,
    - 1, - 1, - 1, - 1, - 1, - 1, - 1, - 1, - 1, - 1, - 1, - 1, - 1, - 1, - 1, - 1,
    - 1, - 1, - 1, - 1, - 1, - 1, - 1, - 1, - 1, - 1, - 1, - 1, - 1, - 1, - 1, - 1,
    0, 1, 2, 3, 4, 5, 6, 7, 8, 9, - 1, - 1, - 1, - 1, - 1, - 1,
    - 1, 10, 11, 12, 13, 14, 15, - 1, - 1, - 1, - 1, - 1, - 1, - 1, - 1, - 1,
    - 1, - 1, - 1, - 1, - 1, - 1, - 1, - 1, - 1, - 1, - 1, - 1, - 1, - 1, - 1, - 1,
    - 1, 10, 11, 12, 13, 14, 15, - 1, - 1, - 1, - 1, - 1, - 1, - 1, - 1, - 1,
    - 1, - 1, - 1, - 1, - 1, - 1, - 1, - 1, - 1, - 1, - 1, - 1, - 1, - 1, - 1, - 1,
    - 1, - 1, - 1, - 1, - 1, - 1, - 1, - 1, - 1, - 1, - 1, - 1, - 1, - 1, - 1, - 1,
    - 1, - 1, - 1, - 1, - 1, - 1, - 1, - 1, - 1, - 1, - 1, - 1, - 1, - 1, - 1, - 1,
    - 1, - 1, - 1, - 1, - 1, - 1, - 1, - 1, - 1, - 1, - 1, - 1, - 1, - 1, - 1, - 1,
    - 1, - 1, - 1, - 1, - 1, - 1, - 1, - 1, - 1, - 1, - 1, - 1, - 1, - 1, - 1, - 1,
    - 1, - 1, - 1, - 1, - 1, - 1, - 1, - 1, - 1, - 1, - 1, - 1, - 1, - 1, - 1, - 1,
    - 1, - 1, - 1, - 1, - 1, - 1, - 1, - 1, - 1, - 1, - 1, - 1, - 1, - 1, - 1, - 1,
    - 1, - 1, - 1, - 1, - 1, - 1, - 1, - 1, - 1, - 1, - 1, - 1, - 1, - 1, - 1, - 1,
    - 1, - 1, - 1, - 1, - 1, - 1, - 1, - 1, - 1, - 1, - 1, - 1, - 1, - 1, - 1, - 1]"

text \<open>
  The two loops of \<open>UrlDecode\<close>: the first runs while at least three bytes are left, the second copies
  the rest.
\<close>

fun url_decode_loop :: "string \<Rightarrow> string" where
  "url_decode_loop (a # b # c # rest) =
     (let dec1 = HEX2DEC ! uchar b; dec2 = HEX2DEC ! uchar c in
      if a = CHR ''%'' then
        (if - 1 \<noteq> dec1 \<and> - 1 \<noteq> dec2 then char_of (nat (dec1 * 16 + dec2)) # url_decode_loop rest
         else a # url_decode_loop (b # c # rest))
      else if a = CHR ''+'' then CHR '' '' # url_decode_loop (b # c # rest)
      else a # url_decode_loop (b # c # rest))"
| "url_decode_loop rest = rest"

definition UrlDecode :: "string \<Rightarrow> string" where
  "UrlDecode srcStr = url_decode_loop srcStr"


section \<open>Case\<close>

definition ToUpper :: "string \<Rightarrow> string" where
  "ToUpper str = map toupper str"

definition ToLower :: "string \<Rightarrow> string" where
  "ToLower str = map tolower str"


section \<open>Split as a function of the rest of the string\<close>

function split_rest :: "char \<Rightarrow> string \<Rightarrow> string \<Rightarrow> string list" where
  "split_rest d ds s =
     (if s = [] then []
      else case find_sub (d # ds) s of
        None \<Rightarrow> [s]
      | Some i \<Rightarrow> (if 0 < i then [take i s] else []) @ split_rest d ds (drop (i + Suc (length ds)) s))"
  by pat_completeness auto

termination split_rest
  by (relation "measure (\<lambda>(d, ds, s). length s)") auto

declare split_rest.simps [simp del]

lemma split_loop_rest: "split_loop (pre @ s) d ds (length pre) = split_rest d ds s"
proof (induction s arbitrary: pre rule: length_induct)
  case (1 s)
  show ?case
  proof (cases "s = []")
    case True
    then show ?thesis by (simp add: split_loop.simps [of pre] split_rest.simps)
  next
    case ne: False
    show ?thesis
    proof (cases "find_sub (d # ds) s")
      case None
      with ne show ?thesis
        by (simp add: split_loop.simps [of "pre @ s"] split_rest.simps [of d ds s] str_find_at)
    next
      case (Some i)
      define k where "k = i + Suc (length ds)"
      have k: "k \<le> length s" "0 < k" using find_sub_Some [OF Some] by (simp_all add: k_def)
      have "split_loop ((pre @ take k s) @ drop k s) d ds (length (pre @ take k s)) = split_rest d ds (drop k s)"
        by (rule 1 [rule_format]) (use ne k in simp)
      with k have "split_loop (pre @ s) d ds (length pre + k) = split_rest d ds (drop k s)" by simp
      with ne Some show ?thesis
        by (simp add: split_loop.simps [of "pre @ s"] split_rest.simps [of d ds s] str_find_at k_def add.assoc)
    qed
  qed
qed

lemma Split_rest: "d \<noteq> NUL \<Longrightarrow> Split str (d # ds) result = result @ split_rest d ds str"
  using split_loop_rest [of "[]" str d ds] by (auto simp: Split_def split_rest.simps)

lemma split_rest_pieces: "p \<in> set (split_rest d ds s) \<Longrightarrow> p \<noteq> [] \<and> \<not> sublist (d # ds) p"
proof (induction s rule: length_induct)
  case (1 s)
  then have ne: "s \<noteq> []" by (auto simp: split_rest.simps [of d ds s])
  show ?case
  proof (cases "find_sub (d # ds) s")
    case None
    with 1(2) ne have "p = s" by (simp add: split_rest.simps [of d ds s])
    with ne find_sub_None [OF None] show ?thesis by (auto simp: sublist_prefix_drop)
  next
    case (Some i)
    note f = find_sub_Some [OF Some]
    have "\<not> sublist (d # ds) (take i s)"
    proof
      assume "sublist (d # ds) (take i s)"
      then obtain j where "prefix (d # ds) (drop j (take i s))" by (auto simp: sublist_prefix_drop)
      moreover from this have "j < i" by (cases "j < i") auto
      moreover have "prefix (drop j (take i s)) (drop j s)" by (simp add: drop_take take_is_prefix)
      ultimately show False using f prefix_order.trans by blast
    qed
    moreover have "p = take i s \<and> 0 < i \<or> p \<in> set (split_rest d ds (drop (i + Suc (length ds)) s))"
      using 1(2) ne Some by (auto simp: split_rest.simps [of d ds s] split: if_splits)
    ultimately show ?thesis using 1(1) ne f by auto
  qed
qed

text \<open>Pieces joined by a single character.\<close>

fun join :: "char \<Rightarrow> string list \<Rightarrow> string" where
  "join d [] = []"
| "join d [p] = p"
| "join d (p # q # ps) = p @ d # join d (q # ps)"

lemma find_sub_char: "d \<notin> set p \<Longrightarrow> find_sub [d] (p @ d # s) = Some (length p)"
  by (induction p) (auto simp: find_sub.simps [of "[d]"])

lemma find_sub_no_char: "d \<notin> set p \<Longrightarrow> find_sub [d] p = None"
  by (induction p) (auto simp: find_sub.simps [of "[d]"])

lemma split_join: "\<forall>p \<in> set ps. p \<noteq> [] \<and> d \<notin> set p \<Longrightarrow> split_rest d [] (join d ps) = ps"
proof (induction d ps rule: join.induct)
  case (1 d)
  then show ?case by (simp add: split_rest.simps)
next
  case (2 d p)
  then show ?case by (simp add: split_rest.simps [of d "[]" p] find_sub_no_char)
next
  case (3 d p q ps)
  then show ?case by (simp add: split_rest.simps [of d "[]" "p @ d # _"] find_sub_char)
qed


section \<open>Replacing all occurrences\<close>

function replace_all :: "string \<Rightarrow> string \<Rightarrow> string \<Rightarrow> string" where
  "replace_all old new s =
     (if old \<noteq> [] \<and> prefix old s then new @ replace_all old new (drop (length old) s)
      else case s of [] \<Rightarrow> [] | c # cs \<Rightarrow> c # replace_all old new cs)"
  by pat_completeness auto

termination replace_all
proof (relation "measure (\<lambda>(old, new, s). length s)")
  fix old new s :: string assume "old \<noteq> [] \<and> prefix old s"
  then show "((old, new, drop (length old) s), old, new, s) \<in> measure (\<lambda>(old, new, s). length s)"
    using prefix_length_le [of old s] by (cases s) auto
qed auto

declare replace_all.simps [simp del]

lemma replace_all_Some:
  "find_sub old s = Some i \<Longrightarrow> old \<noteq> [] \<Longrightarrow>
     replace_all old new s = take i s @ new @ replace_all old new (drop (i + length old) s)"
proof (induction s arbitrary: i)
  case Nil
  then show ?case by (simp add: find_sub.simps [of old "[]"] split: if_splits)
next
  case (Cons x xs)
  show ?case
  proof (cases "prefix old (x # xs)")
    case True
    with Cons.prems have "i = 0" by (simp add: find_sub.simps [of old "x # xs"])
    with True Cons.prems show ?thesis by (simp add: replace_all.simps [of old new "x # xs"])
  next
    case False
    with Cons.prems obtain j where "find_sub old xs = Some j" "i = Suc j"
      by (auto simp: find_sub.simps [of old "x # xs"])
    with False Cons show ?thesis by (simp add: replace_all.simps [of old new "x # xs"])
  qed
qed

lemma replace_all_None: "find_sub old s = None \<Longrightarrow> replace_all old new s = s"
proof (induction s)
  case Nil
  then show ?case by (simp add: replace_all.simps find_sub.simps [of old "[]"])
next
  case (Cons x xs)
  then show ?case
    by (auto simp: find_sub.simps [of old "x # xs"] replace_all.simps [of old new "x # xs"] split: if_splits)
qed

lemma replace_loop_eq:
  "old \<noteq> [] \<Longrightarrow> replace_loop old new (pre @ s) (length pre) = Some (pre @ replace_all old new s)"
proof (induction s arbitrary: pre rule: length_induct)
  case (1 s)
  show ?case
  proof (cases "find_sub old s")
    case None
    then show ?thesis
      by (subst replace_loop.simps) (simp add: str_find_at replace_all_None)
  next
    case (Some i)
    let ?r = "drop (i + length old) s" and ?p = "pre @ take i s @ new"
    have i: "i + length old \<le> length s" using find_sub_Some [OF Some] by simp
    have "replace_loop old new (?p @ ?r) (length ?p) = Some (?p @ replace_all old new ?r)"
    proof (rule 1(1) [rule_format])
      have "0 < length old" using 1(2) by simp
      with i show "length ?r < length s" unfolding length_drop by linarith
    qed (rule 1(2))
    with i Some show ?thesis
      by (subst replace_loop.simps) (simp add: str_find_at replace_all_Some [OF Some 1(2)] add.assoc)
  qed
qed

lemma find_sub_Nil: "find_sub [] s = Some 0"
  by (simp add: find_sub.simps)

lemma replace_loop_Nil:
  assumes "replace_loop old new str pos = Some r"
  shows "old = [] \<longrightarrow> length str < pos"
  using assms
proof (rule replace_loop.raw_induct [rotated])
  fix loop old new str pos r
  assume IH: "\<And>old new str pos r. loop old new str pos = Some r \<Longrightarrow> old = [] \<longrightarrow> length str < pos"
    and r: "(case str_find str old pos of None \<Rightarrow> Some str
      | Some p \<Rightarrow> loop old new (take p str @ new @ drop (p + length old) str) (p + length new)) = Some r"
  show "old = [] \<longrightarrow> length str < pos"
  proof (rule impI, rule ccontr)
    assume "old = []" "\<not> length str < pos"
    with r have "loop [] new (take pos str @ new @ drop pos str) (pos + length new) = Some r"
      by (simp add: str_find_def find_sub_Nil)
    from IH [OF this] \<open>\<not> length str < pos\<close> show False by simp
  qed
qed


section \<open>The encoding of a byte\<close>

definition upper_hex :: "nat \<Rightarrow> char" where
  "upper_hex n = ''0123456789ABCDEF'' ! n"

definition unreserved :: "char \<Rightarrow> bool" where
  "unreserved c \<longleftrightarrow> isdigit c \<or> 65 \<le> uchar c \<and> uchar c \<le> 90 \<or> 97 \<le> uchar c \<and> uchar c \<le> 122 \<or> c \<in> set ''-._~''"

definition percent :: "char \<Rightarrow> string" where
  "percent c =
     (if unreserved c then [c] else if c = CHR '' '' then ''+''
      else [CHR ''%'', upper_hex (uchar c div 16), upper_hex (uchar c mod 16)])"

definition decodes :: "string \<Rightarrow> char \<Rightarrow> bool" where
  "decodes e c \<longleftrightarrow>
     (case e of
        [x] \<Rightarrow> x \<noteq> CHR ''%'' \<and> c = (if x = CHR ''+'' then CHR '' '' else x)
      | [p, h, l] \<Rightarrow> p = CHR ''%'' \<and> - 1 \<noteq> HEX2DEC ! uchar h \<and> - 1 \<noteq> HEX2DEC ! uchar l \<and>
          char_of (nat (HEX2DEC ! uchar h * 16 + HEX2DEC ! uchar l)) = c
      | _ \<Rightarrow> False)"

lemma char_of_eq: "n < 256 \<Longrightarrow> char_of (n :: nat) = c \<longleftrightarrow> n = uchar c"
  by (metis char_of_uchar uchar_char_of)

lemma percent_code:
  assumes "n < 256"
  shows "percent (char_of n) =
     (if 48 \<le> n \<and> n \<le> 57 \<or> 65 \<le> n \<and> n \<le> 90 \<or> 97 \<le> n \<and> n \<le> 122 \<or> n = 45 \<or> n = 46 \<or> n = 95 \<or> n = 126
      then [char_of n] else if n = 32 then ''+''
      else [CHR ''%'', upper_hex (n div 16), upper_hex (n mod 16)])"
  using assms by (simp add: percent_def unreserved_def isdigit_def char_of_eq uchar_def)

lemma encode_table:
  "list_all2 (\<lambda>n e. percent (char_of (nat n)) = (case e of (k, cs) \<Rightarrow> take k cs)) [0..127] (take 128 ENCODECHARS)"
  unfolding ENCODECHARS_def
  by (simp add: upto_rec1 [of 0 127] upto_rec1 [of 1] upto_rec_numeral del: upto_rec1)
    (simp add: percent_code upper_hex_def char_of_eq uchar_def)

lemma encode_ascii:
  assumes "uchar c < 128"
  shows "encode_entry (encode_offset c) = Some (percent c)"
proof -
  have off: "encode_offset c = 4 * uchar c"
    using assms by (simp add: encode_offset_def schar_def nat_mult_distrib mult.commute)
  have "[0..127] ! uchar c = int (uchar c)" using assms by (simp add: nth_upto)
  with list_all2_nthD [OF encode_table, of "uchar c"] assms
  have "percent c = (case ENCODECHARS ! uchar c of (k, cs) \<Rightarrow> take k cs)" by simp
  with assms off show ?thesis by (simp add: encode_entry_def split: prod.split)
qed

lemma hex_digits: "list_all (\<lambda>n. HEX2DEC ! uchar (upper_hex n) = int n) [0..<16]"
  by code_simp

lemma HEX2DEC_upper_hex: "n < 16 \<Longrightarrow> HEX2DEC ! uchar (upper_hex n) = int n"
  using hex_digits by (simp only: list_all_iff atLeastLessThan_upt [symmetric] atLeastLessThan_iff zero_le)

lemma percent_decodes: "decodes (percent c) c"
proof (cases "unreserved c \<or> c = CHR '' ''")
  case True
  then show ?thesis
    by (auto simp: decodes_def percent_def unreserved_def isdigit_def uchar_def)
next
  case False
  have "uchar c div 16 < 16" by (rule less_mult_imp_div_less) simp
  moreover have "uchar c mod 16 < 16" by simp
  moreover have "nat (int (uchar c div 16) * 16 + int (uchar c mod 16)) = uchar c"
    by (simp add: nat_add_distrib nat_mult_distrib)
  ultimately show ?thesis
    using False by (simp add: decodes_def percent_def HEX2DEC_upper_hex)
qed

lemma encode_high:
  assumes "128 \<le> uchar c"
  shows "encode_entry (encode_offset c) = None"
proof -
  have "schar c * 4 mod 65536 = schar c * 4 + 65536"
    using assms uchar_less [of c] by (intro int_mod_pos_eq [of _ _ "- 1"]) (auto simp: schar_def)
  then have "1024 \<le> encode_offset c"
    using assms by (simp add: encode_offset_def schar_def)
  then show ?thesis by (simp add: encode_entry_def)
qed

lemma url_encode_loop_eq:
  "url_encode_loop s dst = (if \<forall>c \<in> set s. uchar c < 128 then Some (dst @ concat (map percent s)) else None)"
proof (induction s arbitrary: dst)
  case (Cons c s)
  then show ?case by (cases "uchar c < 128") (simp_all add: encode_ascii encode_high)
qed simp

text \<open>Decoding undoes one encoded byte, unless it is a plus sign among the last two bytes.\<close>

lemma decode_percent:
  assumes "decodes e c" "length (e @ rest) \<le> 2 \<Longrightarrow> e \<noteq> ''+''"
    and "length rest \<le> 2 \<Longrightarrow> url_decode_loop rest = rest"
  shows "url_decode_loop (e @ rest) = c # url_decode_loop rest"
proof -
  from assms(1) consider x where "e = [x]" "x \<noteq> CHR ''%''" "c = (if x = CHR ''+'' then CHR '' '' else x)"
    | h l where "e = [CHR ''%'', h, l]" "- 1 \<noteq> HEX2DEC ! uchar h" "- 1 \<noteq> HEX2DEC ! uchar l"
        "char_of (nat (HEX2DEC ! uchar h * 16 + HEX2DEC ! uchar l)) = c"
    by (auto simp: decodes_def split: list.splits)
  then show ?thesis
  proof cases
    case 1
    show ?thesis
    proof (cases "length rest \<le> 1")
      case True
      then have "url_decode_loop (x # rest) = x # rest" by (cases rest) auto
      with 1 True assms(2,3) show ?thesis by (auto split: if_splits)
    next
      case False
      then obtain a b r where "rest = a # b # r" by (cases rest; cases "tl rest") auto
      with 1 show ?thesis by simp
    qed
  qed simp
qed

lemma url_roundtrip:
  assumes "CHR ''+'' \<notin> set (drop (length (concat (map percent s)) - 2) (concat (map percent s)))"
  shows "url_decode_loop (concat (map percent s)) = s"
  using assms
proof (induction s)
  case (Cons c s)
  define e where "e = percent c"
  define r where "r = concat (map percent s)"
  have IH: "url_decode_loop r = s"
    using Cons.prems unfolding r_def by (intro Cons.IH) (auto simp: e_def [symmetric] dest: in_set_dropD split: if_splits)
  have short: "url_decode_loop t = t" if "length t \<le> 2" for t
    using that by (cases t rule: url_decode_loop.cases) auto
  have "e \<noteq> ''+''" if "length (e @ r) \<le> 2"
    using Cons.prems that by (auto simp: e_def [symmetric] r_def [symmetric])
  from decode_percent [OF percent_decodes [of c, folded e_def] this] short IH
  show ?case by (simp add: e_def [symmetric] r_def [symmetric])
qed simp


section \<open>Properties\<close>

text \<open>
  \<open>UrlDecode\<close> gives back what \<open>UrlEncode\<close> encoded, for every ASCII text whose encoding has no
  plus sign among its last two characters.
\<close>

theorem url_encode_decode:
  assumes "UrlEncode s = Some e" "CHR ''+'' \<notin> set (drop (length e - 2) e)"
  shows "UrlDecode e = s"
proof -
  have "e = concat (map percent s)"
    using assms(1) by (auto simp: UrlEncode_def url_encode_loop_eq split: if_splits)
  with assms(2) url_roundtrip [of s] show ?thesis by (simp add: UrlDecode_def)
qed

theorem url_encode_decode_witness:
  "UrlDecode ''a+%2F%25'' = ''a /%''"
proof -
  have "UrlEncode ''a /%'' = Some ''a+%2F%25''"
    by (simp add: UrlEncode_def url_encode_loop_eq percent_def unreserved_def isdigit_def uchar_def upper_hex_def)
  then show ?thesis using url_encode_decode [of "''a /%''" "''a+%2F%25''"] by simp
qed

text \<open>
  Without that condition the text is not restored: the loop of \<open>UrlDecode\<close> that interprets its input
  stops two bytes before the end, so that a space at the end of a text comes back as a plus sign.
\<close>

theorem url_decode_last_plus:
  "UrlEncode ''a '' = Some ''a+'' \<and> UrlDecode ''a+'' = ''a+''"
  by (simp add: UrlEncode_def UrlDecode_def url_encode_loop_eq percent_def unreserved_def isdigit_def uchar_def)

text \<open>
  \<open>UrlEncode\<close> is percent-encoding of the bytes that are not unreserved, with a plus sign for a
  space, exactly on ASCII texts. On every text with a byte of 128 or more it indexes \<open>ENCODECHARS\<close>
  outside its 1024 characters, because the byte is sign-extended before the offset is computed.
\<close>

theorem url_encode_result:
  "UrlEncode s = (if \<forall>c \<in> set s. uchar c < 128 then Some (concat (map percent s)) else None)"
  by (simp add: UrlEncode_def url_encode_loop_eq)

theorem url_encode_result_witness: "UrlEncode [CHR ''a'', CHR 0xC3] = None"
  using url_encode_result [of "[CHR ''a'', CHR 0xC3]"] by (simp add: uchar_def)

text \<open>
  C40: \<open>StringReplace\<close> with a string that is not empty ends and replaces every occurrence, from left to
  right and without looking into what it inserted; the empty string makes it loop forever.
\<close>

theorem string_replace_all:
  "StringReplace oldStr newStr str = (if oldStr = [] then None else Some (replace_all oldStr newStr str))"
proof (cases "oldStr = []")
  case True
  then have "replace_loop oldStr newStr str 0 = None"
    using replace_loop_Nil [of oldStr newStr str 0] by fastforce
  with True show ?thesis by (simp add: StringReplace_def)
qed (use replace_loop_eq [of oldStr newStr "[]" str] in \<open>simp add: StringReplace_def\<close>)

text \<open>
  Every piece that \<open>Split\<close> adds is a non-empty string in which the delimiter does not occur, and
  what the result vector held before is kept.
\<close>

theorem split_pieces:
  assumes "d \<noteq> NUL"
  shows "\<exists>pieces. Split str (d # ds) result = result @ pieces \<and>
    (\<forall>p \<in> set pieces. p \<noteq> [] \<and> \<not> sublist (d # ds) p)"
  using Split_rest [OF assms] split_rest_pieces by blast

theorem split_pieces_witness:
  "\<exists>pieces. Split ''a::b'' ''::'' [] = [] @ pieces \<and> (\<forall>p \<in> set pieces. p \<noteq> [] \<and> \<not> sublist ''::'' p)"
  using split_pieces [of "CHR '':''" "''a::b''" "'':''" "[]"] by (simp add: NUL_def)

text \<open>
  Splitting non-empty pieces joined by a character that does not occur in them gives the pieces
  back, in order.
\<close>

theorem split_join_roundtrip:
  assumes "d \<noteq> NUL" "\<forall>p \<in> set ps. p \<noteq> [] \<and> d \<notin> set p"
  shows "Split (join d ps) [d] [] = ps"
  using Split_rest [OF assms(1)] split_join [OF assms(2)] by simp

theorem split_join_roundtrip_witness:
  "Split ''k=1&w=x'' ''&'' [] = [''k=1'', ''w=x'']"
  using split_join_roundtrip [of "CHR ''&''" "[''k=1'', ''w=x'']"] by (simp add: NUL_def)

text \<open>
  \<open>Trim\<close> removes white space at both ends and nothing else: the text is a block of white space,
  the result and a block of white space, and the result neither begins nor ends with white space.
\<close>

theorem trim_result:
  "\<exists>l r. str = l @ Trim str @ r \<and> list_all isspace (l @ r) \<and>
     (case Trim str of [] \<Rightarrow> True | c # cs \<Rightarrow> \<not> isspace c \<and> \<not> isspace (last (c # cs)))"
proof -
  define s where "s = Ltrim str"
  define l where "l = takeWhile isspace str"
  define r where "r = rev (takeWhile isspace (rev s))"
  have str: "str = l @ s" by (simp add: l_def s_def Ltrim_def)
  have "rev s = takeWhile isspace (rev s) @ dropWhile isspace (rev s)" by simp
  then have s: "s = Trim str @ r"
    unfolding Trim_def Rtrim_def r_def s_def [symmetric] by (metis rev_append rev_rev_ident)
  have all: "list_all isspace (l @ r)"
    by (auto simp: list_all_iff l_def r_def dest: set_takeWhileD)
  have ends: "\<not> isspace c \<and> \<not> isspace (last (c # cs))" if t: "Trim str = c # cs" for c cs
  proof
    from s t have "s = c # cs @ r" by simp
    then show "\<not> isspace c" unfolding s_def Ltrim_def using hd_dropWhile [of isspace str] by auto
    have "dropWhile isspace (rev s) = rev (c # cs)"
      using t unfolding Trim_def Rtrim_def s_def [symmetric] by (metis rev_rev_ident)
    then show "\<not> isspace (last (c # cs))"
      using hd_dropWhile [of isspace "rev s"] by (metis hd_rev list.distinct(1) rev_is_Nil_conv)
  qed
  have "str = l @ Trim str @ r" using str s by metis
  moreover have "case Trim str of [] \<Rightarrow> True | c # cs \<Rightarrow> \<not> isspace c \<and> \<not> isspace (last (c # cs))"
    using ends by (simp split: list.split)
  ultimately show ?thesis using all by blast
qed

end
