(* ===== verification/Base64.thy ===== *)
theory Base64
  imports Prelude
begin

text \<open>
  \<open>src/mwnet_mt/crypto/base64.c\<close>: \<open>mbedtls_base64_encode\<close> and \<open>mbedtls_base64_decode\<close> on lists of
  bytes. A result holds the return value, what is stored in \<open>*olen\<close> (\<open>None\<close> when it is not
  written) and the bytes written from \<open>dst\<close> on. Shown are the exact length of the output, that
  the decoder never writes more than the length it announced and checked, and the round trip.
\<close>

section \<open>Tables\<close>

definition byte :: "char \<Rightarrow> u8" where
  "byte c = of_nat (uchar c)"

definition base64_enc_map :: "u8 list" where
  "base64_enc_map =
     map byte ''ABCDEFGHIJKLMNOPQRSTUVWXYZabcdefghijklmnopqrstuvwxyz0123456789+/''"

definition base64_dec_map :: "u8 list" where
  "base64_dec_map =
   [127, 127, 127, 127, 127, 127, 127, 127, 127, 127, 127, 127, 127, 127, 127, 127,
    127, 127, 127, 127, 127, 127, 127, 127, 127, 127, 127, 127, 127, 127, 127, 127,
    127, 127, 127, 127, 127, 127, 127, 127, 127, 127, 127, 62, 127, 127, 127, 63,
    52, 53, 54, 55, 56, 57, 58, 59, 60, 61, 127, 127, 127, 64, 127, 127,
    127, 0, 1, 2, 3, 4, 5, 6, 7, 8, 9, 10, 11, 12, 13, 14,
    15, 16, 17, 18, 19, 20, 21, 22, 23, 24, 25, 127, 127, 127, 127, 127,
    127, 26, 27, 28, 29, 30, 31, 32, 33, 34, 35, 36, 37, 38, 39, 40,
    41, 42, 43, 44, 45, 46, 47, 48, 49, 50, 51, 127, 127, 127, 127, 127]"

definition MBEDTLS_ERR_BASE64_BUFFER_TOO_SMALL :: int where
  "MBEDTLS_ERR_BASE64_BUFFER_TOO_SMALL = - 0x2A"

definition MBEDTLS_ERR_BASE64_INVALID_CHARACTER :: int where
  "MBEDTLS_ERR_BASE64_INVALID_CHARACTER = - 0x2C"

definition BASE64_SIZE_T_MAX :: nat where
  "BASE64_SIZE_T_MAX = 2 ^ 64 - 1"

record base64_result =
  rc :: int
  olen :: "nat option"
  written :: "u8 list"


section \<open>Encoding\<close>

definition enc :: "int \<Rightarrow> u8" where
  "enc v = base64_enc_map ! nat v"

text \<open>The loop over groups of three and the last, incomplete group.\<close>

fun base64_encode_loop :: "u8 list \<Rightarrow> u8 list" where
  "base64_encode_loop (a # b # c # src) =
     (let C1 = uint a; C2 = uint b; C3 = uint c in
      [enc (drop_bit 2 C1 AND 0x3F),
       enc ((push_bit 4 (C1 AND 3) + drop_bit 4 C2) AND 0x3F),
       enc ((push_bit 2 (C2 AND 15) + drop_bit 6 C3) AND 0x3F),
       enc (C3 AND 0x3F)] @ base64_encode_loop src)"
| "base64_encode_loop [a, b] =
     (let C1 = uint a; C2 = uint b in
      [enc (drop_bit 2 C1 AND 0x3F),
       enc ((push_bit 4 (C1 AND 3) + drop_bit 4 C2) AND 0x3F),
       enc (push_bit 2 (C2 AND 15) AND 0x3F), byte CHR ''='' ])"
| "base64_encode_loop [a] =
     (let C1 = uint a; C2 = 0 in
      [enc (drop_bit 2 C1 AND 0x3F),
       enc ((push_bit 4 (C1 AND 3) + drop_bit 4 C2) AND 0x3F), byte CHR ''='', byte CHR ''='' ])"
| "base64_encode_loop [] = []"

definition mbedtls_base64_encode :: "bool \<Rightarrow> nat \<Rightarrow> u8 list \<Rightarrow> base64_result" where
  "mbedtls_base64_encode dst_null dlen src =
     (let slen = length src; n = slen div 3 + (if slen mod 3 \<noteq> 0 then 1 else 0) in
      if slen = 0 then \<lparr>rc = 0, olen = Some 0, written = []\<rparr>
      else if (BASE64_SIZE_T_MAX - 1) div 4 < n
      then \<lparr>rc = MBEDTLS_ERR_BASE64_BUFFER_TOO_SMALL, olen = Some BASE64_SIZE_T_MAX, written = []\<rparr>
      else if dlen < n * 4 + 1 \<or> dst_null
      then \<lparr>rc = MBEDTLS_ERR_BASE64_BUFFER_TOO_SMALL, olen = Some (n * 4 + 1), written = []\<rparr>
      else let out = base64_encode_loop src in
        \<lparr>rc = 0, olen = Some (length out), written = out @ [0]\<rparr>)"


section \<open>Decoding\<close>

definition dec :: "u8 \<Rightarrow> u8" where
  "dec c = base64_dec_map ! unat c"

lemma dropWhile_Cons_length: "dropWhile P xs = y # ys \<Longrightarrow> length ys < length xs"
  by (metis Suc_le_eq length_Cons length_dropWhile_le)

text \<open>
  The first pass: \<open>n\<close> counts the characters, \<open>j\<close> the padding. \<open>None\<close> is the return of
  \<open>MBEDTLS_ERR_BASE64_INVALID_CHARACTER\<close>. The pass always ends with \<open>i = slen\<close>.
\<close>

function base64_scan :: "u8 list \<Rightarrow> nat \<Rightarrow> u32 \<Rightarrow> (nat \<times> u32) option" where
  "base64_scan src n j =
     (let rest = dropWhile (\<lambda>c. c = byte CHR '' '') src;
          x = (of_nat (length src - length rest) :: u32)
      in case rest of
           [] \<Rightarrow> Some (n, j)
         | c # cs \<Rightarrow>
             if c = 0x0D \<and> cs \<noteq> [] \<and> hd cs = 0x0A then base64_scan cs n j
             else if c = 0x0A then base64_scan cs n j
             else if x \<noteq> 0 then None
             else let j' = (if c = byte CHR ''='' then j + 1 else j) in
               if c = byte CHR ''='' \<and> 2 < j' then None
               else if 127 < c \<or> dec c = 127 then None
               else if dec c < 64 \<and> j' \<noteq> 0 then None
               else base64_scan cs (n + 1) j')"
  by pat_completeness auto
termination
  by (relation "measure (\<lambda>(src, n, j). length src)") (auto dest: dropWhile_Cons_length [OF sym])

declare base64_scan.simps [simp del]

text \<open>The second pass: \<open>j\<close> is 3 less the padding seen, \<open>n\<close> the characters of the group.\<close>

fun base64_decode_loop :: "u8 list \<Rightarrow> u32 \<Rightarrow> nat \<Rightarrow> u32 \<Rightarrow> u8 list" where
  "base64_decode_loop [] j n x = []"
| "base64_decode_loop (c # src) j n x =
     (if c = 0x0D \<or> c = 0x0A \<or> c = byte CHR '' '' then base64_decode_loop src j n x
      else let j' = j - (if dec c = 64 then 1 else 0);
               x' = push_bit 6 x OR (ucast (dec c) AND 0x3F)
        in if n + 1 = 4
           then (if 0 < j' then [ucast (drop_bit 16 x')] else []) @
                (if 1 < j' then [ucast (drop_bit 8 x')] else []) @
                (if 2 < j' then [ucast x'] else []) @ base64_decode_loop src j' 0 x'
           else base64_decode_loop src j' (n + 1) x')"

definition decoded_length :: "nat \<Rightarrow> u32 \<Rightarrow> nat" where
  "decoded_length n j = 6 * drop_bit 3 n + drop_bit 3 (6 * (n AND 0x7) + 7) - unat j"

definition mbedtls_base64_decode :: "bool \<Rightarrow> nat \<Rightarrow> u8 list \<Rightarrow> base64_result" where
  "mbedtls_base64_decode dst_null dlen src =
     (case base64_scan src 0 0 of
        None \<Rightarrow> \<lparr>rc = MBEDTLS_ERR_BASE64_INVALID_CHARACTER, olen = None, written = []\<rparr>
      | Some (n, j) \<Rightarrow>
          if n = 0 then \<lparr>rc = 0, olen = Some 0, written = []\<rparr>
          else if dst_null \<or> dlen < decoded_length n j
          then \<lparr>rc = MBEDTLS_ERR_BASE64_BUFFER_TOO_SMALL, olen = Some (decoded_length n j), written = []\<rparr>
          else let out = base64_decode_loop src 3 0 0 in
            \<lparr>rc = 0, olen = Some (length out), written = out\<rparr>)"


section \<open>The tables are inverse to each other\<close>

lemma enc_map_table:
  "list_all (\<lambda>i. let c = base64_enc_map ! i in dec c = of_nat i \<and> c \<le> 127 \<and> c \<noteq> 0x0D \<and> c \<noteq> 0x0A \<and>
     c \<noteq> byte CHR '' '' \<and> c \<noteq> byte CHR ''='') [0..<64]"
  by code_simp

lemma enc_facts:
  assumes "0 \<le> v" "v < 64"
  shows "dec (enc v) = of_int v" "enc v \<le> 127" "enc v \<noteq> 0x0D" "enc v \<noteq> 0x0A"
    "enc v \<noteq> byte CHR '' ''" "enc v \<noteq> byte CHR ''=''"
proof -
  have "nat v \<in> set [0..<64]" using assms by auto
  with enc_map_table have "let c = base64_enc_map ! nat v in dec c = of_nat (nat v) \<and> c \<le> 127 \<and>
      c \<noteq> 0x0D \<and> c \<noteq> 0x0A \<and> c \<noteq> byte CHR '' '' \<and> c \<noteq> byte CHR ''=''"
    unfolding list_all_iff by blast
  moreover have "(of_nat (nat v) :: u8) = of_int v" using assms by simp
  ultimately show "dec (enc v) = of_int v" "enc v \<le> 127" "enc v \<noteq> 0x0D" "enc v \<noteq> 0x0A"
    "enc v \<noteq> byte CHR '' ''" "enc v \<noteq> byte CHR ''=''"
    by (simp_all add: enc_def Let_def)
qed

lemma dec_table:
  "list_all (\<lambda>i. let v = base64_dec_map ! i in v = 127 \<or> v < 64 \<or> v = 64 \<and> i = 61) [0..<128]"
  by code_simp

lemma dec_cases:
  assumes "c \<le> 127"
  shows "dec c = 127 \<or> dec c < 64 \<or> dec c = 64 \<and> c = byte CHR ''=''"
proof -
  have "unat c \<in> set [0..<128]" using assms by (simp add: word_le_nat_alt)
  with dec_table have "dec c = 127 \<or> dec c < 64 \<or> dec c = 64 \<and> unat c = 61"
    unfolding list_all_iff dec_def Let_def by blast
  moreover have "unat c = 61 \<Longrightarrow> c = byte CHR ''=''"
    by (simp add: byte_def uchar_def word_unat_eq_iff)
  ultimately show ?thesis by blast
qed

lemma pad_facts:
  "dec (byte CHR ''='') = 64" "byte CHR ''='' \<le> 127" "byte CHR ''='' \<noteq> 0x0D" "byte CHR ''='' \<noteq> 0x0A"
  "byte CHR ''='' \<noteq> byte CHR '' ''"
  by code_simp+



section \<open>Six-bit groups\<close>

lemma and_low_int:
  "(v :: int) AND 3 = v mod 4" "v AND 15 = v mod 16" "v AND 63 = v mod 64"
  using take_bit_eq_mask [of 2 v] take_bit_eq_mask [of 4 v] take_bit_eq_mask [of 6 v]
  by (simp_all add: take_bit_eq_mod mask_eq_exp_minus_1)

text \<open>The four indices of a group, as numbers.\<close>

definition s1 :: "nat \<Rightarrow> nat" where "s1 a = a div 4"
definition s2 :: "nat \<Rightarrow> nat \<Rightarrow> nat" where "s2 a b = (a mod 4) * 16 + b div 16"
definition s3 :: "nat \<Rightarrow> nat \<Rightarrow> nat" where "s3 b c = (b mod 16) * 4 + c div 64"
definition s4 :: "nat \<Rightarrow> nat" where "s4 c = c mod 64"

lemmas sextet_defs = s1_def s2_def s3_def s4_def

lemma sextet_bounds:
  assumes "a < 256" "b < 256" "c < 256"
  shows "s1 a < 64" "s2 a b < 64" "s3 b c < 64" "s4 c < 64"
  using assms by (simp_all add: sextet_defs)

lemma sextet_sum:
  "s1 a * 262144 + s2 a b * 4096 + s3 b c * 64 + s4 c = a * 65536 + b * 256 + c"
proof -
  have split: "\<exists>q r. n = q * k + r \<and> r < k" if "0 < k" for n k :: nat
    using that by (intro exI [of _ "n div k"] exI [of _ "n mod k"]) simp
  obtain a1 a0 where "a = a1 * 4 + a0" "a0 < 4" using split [of 4 a] by auto
  moreover obtain b1 b0 where "b = b1 * 16 + b0" "b0 < 16" using split [of 16 b] by auto
  moreover obtain c1 c0 where "c = c1 * 64 + c0" "c0 < 64" using split [of 64 c] by auto
  ultimately show ?thesis by (simp add: sextet_defs)
qed

lemma uint_unat_byte: "uint (b :: u8) = int (unat b)" "unat b < 256"
  using unsigned_less [of b, where ?'a = nat] by simp_all

lemma sextet_int:
  assumes "a < 256" "b < 256" "c < 256"
  shows "drop_bit 2 (int a) AND 0x3F = int (s1 a)"
    "(push_bit 4 (int a AND 3) + drop_bit 4 (int b)) AND 0x3F = int (s2 a b)"
    "(push_bit 2 (int b AND 15) + drop_bit 6 (int c)) AND 0x3F = int (s3 b c)"
    "int c AND 0x3F = int (s4 c)"
proof -
  have m: "int n mod 64 = int n" if "n < 64" for n using that by simp
  note b = sextet_bounds [OF assms]
  show "drop_bit 2 (int a) AND 0x3F = int (s1 a)"
    using m [OF b(1)] by (simp only: and_low_int drop_bit_eq_div s1_def zdiv_int power2_eq_square) simp
  show "(push_bit 4 (int a AND 3) + drop_bit 4 (int b)) AND 0x3F = int (s2 a b)"
    using m [OF b(2)] by (simp add: and_low_int drop_bit_eq_div push_bit_eq_mult s2_def zdiv_int zmod_int)
  show "(push_bit 2 (int b AND 15) + drop_bit 6 (int c)) AND 0x3F = int (s3 b c)"
    using m [OF b(3)] by (simp add: and_low_int drop_bit_eq_div push_bit_eq_mult s3_def zdiv_int zmod_int)
  show "int c AND 0x3F = int (s4 c)" by (simp add: and_low_int s4_def zmod_int)
qed

lemma enc_indices:
  fixes a b c :: u8
  shows "drop_bit 2 (uint a) AND 0x3F = int (s1 (unat a))"
    "(push_bit 4 (uint a AND 3) + drop_bit 4 (uint b)) AND 0x3F = int (s2 (unat a) (unat b))"
    "(push_bit 2 (uint b AND 15) + drop_bit 6 (uint c)) AND 0x3F = int (s3 (unat b) (unat c))"
    "uint c AND 0x3F = int (s4 (unat c))"
    "push_bit 2 (uint b AND 15) AND 0x3F = int (s3 (unat b) 0)"
    "(push_bit 4 (uint a AND 3) + drop_bit 4 (0 :: int)) AND 0x3F = int (s2 (unat a) 0)"
  using sextet_int [of "unat a" "unat b" "unat c"] sextet_int(2) [of "unat a" 0 0] sextet_int(3) [of 0 "unat b" 0]
  by (simp_all only: uint_unat_byte) simp_all

text \<open>The accumulator of the decoder after one character: \<open>(x << 6) | v\<close> adds.\<close>

lemma shift_or:
  assumes "v < 64"
  shows "push_bit 6 (x :: u32) OR (ucast (of_nat v :: u8) AND 0x3F) = x * 64 + of_nat v"
proof -
  have t: "take_bit 6 (of_nat v :: u32) = of_nat v"
    unfolding take_bit_of_nat using assms by (simp add: take_bit_nat_eq_self)
  have "(ucast (of_nat v :: u8) :: u32) = of_nat v"
    using assms by (simp add: unsigned_of_nat take_bit_nat_eq_self)
  moreover have "(of_nat v :: u32) AND 0x3F = of_nat v"
  proof -
    have "(of_nat v :: u32) AND mask 6 = take_bit 6 (of_nat v)" by (simp add: take_bit_eq_mask)
    also have "\<dots> = of_nat v" by (rule t)
    finally show ?thesis by (simp add: mask_eq_exp_minus_1)
  qed
  moreover have "push_bit 6 x OR of_nat v = push_bit 6 x + of_nat v"
  proof -
    have "push_bit 6 x AND of_nat v = 0"
    proof (rule bit_eqI)
      fix n
      have "\<not> bit (of_nat v :: u32) n" if "6 \<le> n"
        using that t by (metis bit_take_bit_iff linorder_not_less)
      then show "bit (push_bit 6 x AND of_nat v) n = bit 0 n" by (auto simp: bit_simps)
    qed
    then show ?thesis by (simp add: disjunctive_add_eq_or)
  qed
  ultimately show ?thesis by (simp add: push_bit_eq_mult)
qed


definition acc6 :: "u32 \<Rightarrow> nat \<Rightarrow> u32" where
  "acc6 x v = x * 64 + of_nat v"

lemmas shift_or_acc6 = shift_or [folded acc6_def]

text \<open>The three bytes the accumulator holds after four characters, whatever it held before.\<close>

lemma sextets_bytes:
  assumes "v1 < 64" "v2 < 64" "v3 < 64" "v4 < 64"
    and sum: "v1 * 262144 + v2 * 4096 + v3 * 64 + v4 = a * 65536 + b * 256 + c"
    and bytes: "a < 256" "b < 256" "c < 256"
    and y_def: "y = acc6 (acc6 (acc6 (acc6 x v1) v2) v3) v4"
  shows "(ucast (drop_bit 16 y) :: u8) = of_nat a" "(ucast (drop_bit 8 y) :: u8) = of_nat b"
    "(ucast y :: u8) = of_nat c"
proof -
  define K where "K = a * 65536 + b * 256 + c"
  have "y = x * 16777216 + of_nat (v1 * 262144 + v2 * 4096 + v3 * 64 + v4)"
    by (simp add: y_def acc6_def algebra_simps)
  then have y: "y = of_nat (unat x * 16777216 + K)" by (simp add: sum K_def)
  define N where "N = unat x * 16777216 + K"
  have u: "unat y = N mod 4294967296" unfolding y N_def [symmetric] unat_of_nat by simp
  have e: "N = (unat x * 256 + a) * 65536 + (b * 256 + c)" "N = ((unat x * 256 + a) * 256 + b) * 256 + c"
    by (simp_all add: N_def K_def)
  have q1: "N mod 4294967296 div 65536 mod 256 = N div 65536 mod 256"
    using mod_mult2_eq [of N 65536 65536] by (simp add: mod_mod_cancel)
  have q2: "N mod 4294967296 div 256 mod 256 = N div 256 mod 256"
    using mod_mult2_eq [of N 256 16777216] by (simp add: mod_mod_cancel)
  have q3: "N mod 4294967296 mod 256 = N mod 256" by (simp add: mod_mod_cancel)
  have d: "N div 65536 = unat x * 256 + a" "N div 256 = (unat x * 256 + a) * 256 + b"
    using bytes by (simp_all only: e(1), simp_all add: e(2))
  have w: "(ucast (z :: u32) :: u8) = of_nat (unat z mod 256)" for z
    by (simp add: word_unat_eq_iff unat_of_nat unsigned_ucast_eq take_bit_eq_mod)
  have s: "unat (drop_bit k y) = unat y div 2 ^ k" for k
    unfolding unat_drop_bit_eq by (rule drop_bit_eq_div)
  show "(ucast (drop_bit 16 y) :: u8) = of_nat a"
    unfolding w s u using bytes d q1 by simp
  have "N div 256 mod 256 = b" unfolding d(2) using bytes by (simp only: mod_mult_self3 mod_less)
  then show "(ucast (drop_bit 8 y) :: u8) = of_nat b"
    unfolding w s u using q2 by simp
  have "N mod 256 = c" unfolding e(2) using bytes by (simp only: mod_mult_self3 mod_less)
  then show "(ucast y :: u8) = of_nat c"
    unfolding w u using q3 by simp
qed


text \<open>One character: \<open>emit\<close> is what the loop writes after the fourth of a group.\<close>

definition emit :: "u32 \<Rightarrow> u32 \<Rightarrow> u8 list" where
  "emit j x = (if 0 < j then [ucast (drop_bit 16 x)] else []) @ (if 1 < j then [ucast (drop_bit 8 x)] else []) @
     (if 2 < j then [ucast x] else [])"

lemma emit_simps:
  "emit 3 x = [ucast (drop_bit 16 x), ucast (drop_bit 8 x), ucast x]"
  "emit 2 x = [ucast (drop_bit 16 x), ucast (drop_bit 8 x)]" "emit 1 x = [ucast (drop_bit 16 x)]"
  by (simp_all add: emit_def word_less_nat_alt)

lemma decode_step:
  assumes "v < 64"
  shows "base64_decode_loop (enc (int v) # src) j n x =
      (if n = 3 then emit j (acc6 x v) @ base64_decode_loop src j 0 (acc6 x v)
       else base64_decode_loop src j (n + 1) (acc6 x v))"
proof -
  have "(of_nat v :: u8) \<noteq> 64" using assms by (simp add: word_unat_eq_iff unat_of_nat)
  with enc_facts [of "int v"] shift_or_acc6 [OF assms, of x] assms show ?thesis by (simp add: emit_def Let_def)
qed

text \<open>The padding decodes as zero bits.\<close>

lemma decode_pad:
  "base64_decode_loop (byte CHR ''='' # src) j n x =
     (if n = 3 then emit (j - 1) (acc6 x 0) @ base64_decode_loop src (j - 1) 0 (acc6 x 0)
      else base64_decode_loop src (j - 1) (n + 1) (acc6 x 0))"
  using shift_or_acc6 [of 0 x] by (simp add: pad_facts emit_def Let_def)

lemma encode_loop_sextets:
  "base64_encode_loop (a # b # c # src) =
     enc (int (s1 (unat a))) # enc (int (s2 (unat a) (unat b))) # enc (int (s3 (unat b) (unat c))) #
     enc (int (s4 (unat c))) # base64_encode_loop src"
  "base64_encode_loop [a, b] =
     [enc (int (s1 (unat a))), enc (int (s2 (unat a) (unat b))), enc (int (s3 (unat b) 0)), byte CHR ''='']"
  "base64_encode_loop [a] = [enc (int (s1 (unat a))), enc (int (s2 (unat a) 0)), byte CHR ''='', byte CHR ''='']"
  by (simp_all only: base64_encode_loop.simps Let_def enc_indices append_Cons append_Nil)

lemma encode_decode: "base64_decode_loop (base64_encode_loop src) 3 0 x = src"
proof (induction src arbitrary: x rule: base64_encode_loop.induct)
  case (1 a b c src)
  note s = sextet_bounds [OF uint_unat_byte(2) [of a] uint_unat_byte(2) [of b] uint_unat_byte(2) [of c]]
  note b = sextets_bytes [OF s sextet_sum uint_unat_byte(2) uint_unat_byte(2) uint_unat_byte(2) refl, of x]
  show ?case
    by (simp add: encode_loop_sextets decode_step s emit_simps b 1 del: base64_decode_loop.simps base64_encode_loop.simps)
next
  case (2 a b)
  have s: "s1 (unat a) < 64" "s2 (unat a) (unat b) < 64" "s3 (unat b) 0 < 64"
    using sextet_bounds [OF uint_unat_byte(2) [of a] uint_unat_byte(2) [of b], of 0] by auto
  from sextet_sum [of "unat a" "unat b" 0] have "s1 (unat a) * 262144 + s2 (unat a) (unat b) * 4096 +
      s3 (unat b) 0 * 64 + 0 = unat a * 65536 + unat b * 256 + 0" by (simp add: s4_def)
  note b = sextets_bytes [OF s _ this uint_unat_byte(2) uint_unat_byte(2) _ refl, of x]
  show ?case
    by (simp add: encode_loop_sextets decode_step decode_pad s emit_simps b
        del: base64_decode_loop.simps(2) base64_encode_loop.simps)
next
  case (3 a)
  have s: "s1 (unat a) < 64" "s2 (unat a) 0 < 64"
    using sextet_bounds [OF uint_unat_byte(2) [of a], of 0 0] by auto
  from sextet_sum [of "unat a" 0 0] have "s1 (unat a) * 262144 + s2 (unat a) 0 * 4096 + 0 * 64 + 0 =
      unat a * 65536 + 0 * 256 + 0" by (simp add: s4_def s3_def)
  note b = sextets_bytes [OF s _ _ this uint_unat_byte(2) _ _ refl, of x]
  show ?case
    by (simp add: encode_loop_sextets decode_step decode_pad s emit_simps b
        del: base64_decode_loop.simps(2) base64_encode_loop.simps)
next
  case 4
  show ?case by simp
qed



section \<open>The first pass\<close>

text \<open>A character that is neither white space nor padding.\<close>

definition symbol :: "u8 \<Rightarrow> bool" where
  "symbol c \<longleftrightarrow> c \<noteq> 0x0D \<and> c \<noteq> 0x0A \<and> c \<noteq> byte CHR '' ''"

lemma not_symbol [simp]: "\<not> symbol 0x0D" "\<not> symbol 0x0A" "\<not> symbol (byte CHR '' '')"
  by (simp_all add: symbol_def)

lemma scan_symbol:
  assumes "symbol c"
  shows "base64_scan (c # cs) n j =
    (let j' = (if c = byte CHR ''='' then j + 1 else j) in
     if c = byte CHR ''='' \<and> 2 < j' then None else if 127 < c \<or> dec c = 127 then None
     else if dec c < 64 \<and> j' \<noteq> 0 then None else base64_scan cs (n + 1) j')"
  using assms by (subst base64_scan.simps) (simp add: symbol_def)

lemma scan_enc: "v < 64 \<Longrightarrow> base64_scan (enc (int v) # cs) n 0 = base64_scan cs (n + 1) 0"
proof -
  assume v: "v < 64"
  note e = enc_facts [of "int v"]
  have "symbol (enc (int v))" using v e by (simp add: symbol_def)
  moreover have "(of_nat v :: u8) < 64" "(of_nat v :: u8) \<noteq> 127"
    using v by (simp_all add: word_less_nat_alt word_unat_eq_iff unat_of_nat)
  moreover have "\<not> 127 < enc (int v)" using v e(2) by (simp add: not_less)
  ultimately show ?thesis using v e by (simp add: scan_symbol)
qed

lemma scan_pad: "j < 2 \<Longrightarrow> base64_scan (byte CHR ''='' # cs) n j = base64_scan cs (n + 1) (j + 1)"
proof -
  assume j: "j < 2"
  have "symbol (byte CHR ''='')" using pad_facts by (simp add: symbol_def)
  moreover have "\<not> 2 < j + 1" using j by (simp add: word_less_nat_alt unat_word_ariths)
  moreover have "\<not> 127 < byte CHR ''=''" using pad_facts by (simp add: not_less)
  ultimately show ?thesis
    using pad_facts by (simp add: scan_symbol Let_def)
qed

lemma scan_Nil [simp]: "base64_scan [] n j = Some (n, j)"
  by (simp add: base64_scan.simps)

lemma scan_encoded:
  "\<exists>j. base64_scan (base64_encode_loop src) n 0 = Some (n + length (base64_encode_loop src), j) \<and>
     unat j = (3 - length src mod 3) mod 3"
proof (induction src arbitrary: n rule: base64_encode_loop.induct)
  case (1 a b c src)
  note s = sextet_bounds [OF uint_unat_byte(2) [of a] uint_unat_byte(2) [of b] uint_unat_byte(2) [of c]]
  have "length (a # b # c # src) = length src + 3" by simp
  then have m: "length (a # b # c # src) mod 3 = length src mod 3" by (simp only: mod_add_self2)
  from 1 [OF refl refl refl, of "Suc (Suc (Suc (Suc n)))"] show ?case
    unfolding m by (simp add: encode_loop_sextets scan_enc s add.commute del: base64_encode_loop.simps)
next
  case (2 a b)
  have s: "s1 (unat a) < 64" "s2 (unat a) (unat b) < 64" "s3 (unat b) 0 < 64"
    using sextet_bounds [OF uint_unat_byte(2) [of a] uint_unat_byte(2) [of b], of 0] by auto
  show ?case
    by (simp add: encode_loop_sextets scan_enc scan_pad s word_less_nat_alt del: base64_encode_loop.simps)
next
  case (3 a)
  have s: "s1 (unat a) < 64" "s2 (unat a) 0 < 64"
    using sextet_bounds [OF uint_unat_byte(2) [of a], of 0 0] by auto
  show ?case
    by (simp add: encode_loop_sextets scan_enc scan_pad s word_less_nat_alt del: base64_encode_loop.simps)
next
  case 4
  show ?case by simp
qed

lemma length_encode_loop:
  "length (base64_encode_loop src) = 4 * (length src div 3 + (if length src mod 3 \<noteq> 0 then 1 else 0))"
proof (induction src rule: base64_encode_loop.induct)
  case (1 a b c src)
  have "length (a # b # c # src) = length src + 3" by simp
  then have "length (a # b # c # src) mod 3 = length src mod 3" "length (a # b # c # src) div 3 = length src div 3 + 1"
    by (simp_all only: mod_add_self2 div_add_self2 zero_neq_numeral not_False_eq_True)
  with 1 show ?case by (simp only: encode_loop_sextets) simp
qed (simp_all add: encode_loop_sextets del: base64_encode_loop.simps(1-3))

text \<open>The size computed without overflow is \<open>(6 n + 7) div 8\<close>, less the padding.\<close>

lemma decoded_length_eq: "decoded_length n j = (6 * n + 7) div 8 - unat j"
proof -
  have "n AND 7 = n mod 8"
    using take_bit_eq_mask [of 3 n] by (simp add: take_bit_eq_mod mask_eq_exp_minus_1)
  moreover have "6 * n + 7 = 6 * (n div 8) * 8 + (6 * (n mod 8) + 7)"
    using div_mult_mod_eq [of n 8] by linarith
  then have "(6 * n + 7) div 8 = 6 * (n div 8) + (6 * (n mod 8) + 7) div 8"
    by (metis div_mult_self3 zero_neq_numeral)
  ultimately show ?thesis by (simp add: decoded_length_def drop_bit_eq_div)
qed



section \<open>What the second pass writes\<close>

text \<open>What a successful first pass says: data, then at most two padding characters.\<close>

lemma scan_Some:
  assumes "base64_scan src n j = Some (N, J)" "unat j \<le> 2"
  shows "\<exists>data k. filter symbol src = data @ replicate k (byte CHR ''='') \<and>
    (\<forall>c \<in> set data. dec c < 64) \<and> N = n + length data + k \<and> unat J = unat j + k \<and> unat j + k \<le> 2 \<and>
    (j \<noteq> 0 \<longrightarrow> data = [])"
  using assms
proof (induction src n j rule: base64_scan.induct)
  case (1 src n j)
  define rest where "rest = dropWhile (\<lambda>c. c = byte CHR '' '') src"
  have f: "filter symbol src = filter symbol rest"
    unfolding rest_def by (induction src) (auto simp: symbol_def)
  show ?case
  proof (cases rest)
    case Nil
    with 1(4,5) f show ?thesis by (subst (asm) base64_scan.simps) (simp add: rest_def [symmetric] Let_def)
  next
    case (Cons c cs)
    note r = rest_def [symmetric]
    show ?thesis
    proof (cases "c = 0x0D \<and> cs \<noteq> [] \<and> hd cs = 0x0A")
      case True
      with 1(4) Cons have "base64_scan cs n j = Some (N, J)"
        by (subst (asm) base64_scan.simps) (simp add: r Let_def)
      with 1(1) [OF rest_def refl Cons True _ 1(5)] True Cons f show ?thesis by simp
    next
      case no_crlf: False
      show ?thesis
      proof (cases "c = 0x0A")
        case True
        with 1(4) Cons no_crlf have "base64_scan cs n j = Some (N, J)"
          by (subst (asm) base64_scan.simps) (simp add: r Let_def)
        with 1(2) [OF rest_def refl Cons no_crlf True _ 1(5)] True Cons f show ?thesis by simp
      next
        case False
        define j' where "j' = (if c = byte CHR ''='' then j + 1 else j)"
        have c: "(of_nat (length src - length rest) :: u32) = 0" "\<not> (c = byte CHR ''='' \<and> 2 < j')"
          "\<not> (127 < c \<or> dec c = 127)" "\<not> (dec c < 64 \<and> j' \<noteq> 0)" "base64_scan cs (n + 1) j' = Some (N, J)"
          using 1(4) Cons no_crlf False
          by (subst (asm) base64_scan.simps, simp add: r Let_def j'_def split: if_splits)+
        have sp: "c \<noteq> byte CHR '' ''" using Cons unfolding rest_def
          by (metis (mono_tags, lifting) hd_dropWhile list.distinct(1) list.sel(1))
        have "c \<noteq> 0x0D" using c(3) by (auto simp: dec_def base64_dec_map_def)
        then have sym: "symbol c" using sp False by (simp add: symbol_def)
        have uj: "unat j' \<le> 2"
        proof (cases "c = byte CHR ''=''")
          case True
          with c(2) show ?thesis by (simp add: word_less_nat_alt)
        qed (simp add: j'_def 1(5))
        from 1(3) [OF rest_def refl Cons no_crlf False _ j'_def c(2) c(3) c(4) c(5) uj] c(1)
        obtain data k where d: "filter symbol cs = data @ replicate k (byte CHR ''='')"
          "\<forall>c \<in> set data. dec c < 64" "N = n + 1 + length data + k" "unat J = unat j' + k" "unat j' + k \<le> 2"
          "j' \<noteq> 0 \<longrightarrow> data = []" by auto
        show ?thesis
        proof (cases "c = byte CHR ''=''")
          case True
          have "unat j' = unat j + 1" using True 1(5) by (simp add: j'_def unat_word_ariths)
          then have "data = []" using d(6) by auto
          with d True f Cons sym \<open>unat j' = unat j + 1\<close> show ?thesis
            by (intro exI [of _ "[]"] exI [of _ "Suc k"]) auto
        next
          case data: False
          with dec_cases [of c] c(3) have "dec c < 64" by (auto simp: not_less)
          with c(4) data have "j = 0" by (auto simp: j'_def)
          with d data f Cons sym \<open>dec c < 64\<close> show ?thesis
            by (intro exI [of _ "c # data"] exI [of _ k]) (auto simp: j'_def)
        qed
      qed
    qed
  qed
qed


lemma decode_filter: "base64_decode_loop src j n x = base64_decode_loop (filter symbol src) j n x"
  by (induction src j n x rule: base64_decode_loop.induct) (auto simp: symbol_def Let_def)

text \<open>The length of the output does not depend on the characters, only on their number.\<close>

lemma decode_data_length:
  assumes "\<forall>c \<in> set data. dec c < 64 \<and> symbol c" "n < 4"
  shows "\<exists>x'. length (base64_decode_loop (data @ rest) 3 n x) =
    3 * ((n + length data) div 4) + length (base64_decode_loop rest 3 ((n + length data) mod 4) x')"
  using assms
proof (induction data arbitrary: n x)
  case Nil
  then show ?case by auto
next
  case (Cons c data)
  define y where "y = push_bit 6 x OR (ucast (dec c) AND 0x3F)"
  have c: "symbol c" "dec c \<noteq> 64" using Cons.prems by auto
  have step: "base64_decode_loop ((c # data) @ rest) 3 n x =
      (if n = 3 then emit 3 y @ base64_decode_loop (data @ rest) 3 0 y
       else base64_decode_loop (data @ rest) 3 (n + 1) y)"
    using c by (simp add: symbol_def Let_def y_def emit_def)
  show ?case
  proof (cases "n = 3")
    case True
    from Cons.IH [of 0 y] Cons.prems obtain x' where
      "length (base64_decode_loop (data @ rest) 3 0 y) =
        3 * (length data div 4) + length (base64_decode_loop rest 3 (length data mod 4) x')" by auto
    with True show ?thesis unfolding step by (auto simp: emit_simps div_add_self1 intro!: exI [of _ x'])
  next
    case False
    with Cons.IH [of "n + 1" y] Cons.prems show ?thesis unfolding step by auto
  qed
qed

lemma decode_pads_length:
  assumes "k = 0 \<or> k = 1 \<or> k = 2" "r < 4"
  shows "length (base64_decode_loop (replicate k (byte CHR ''='')) 3 r x) = (if r + k < 4 then 0 else r - 1)"
proof -
  have "r = 0 \<or> r = 1 \<or> r = 2 \<or> r = 3" using assms(2) by auto
  moreover have j: "(3 :: u32) - 1 = 2" "(2 :: u32) - 1 = 1" by simp_all
  ultimately show ?thesis
    using assms(1) by (elim disjE) (simp_all add: decode_pad emit_simps j numeral_2_eq_2 del: base64_decode_loop.simps(2))
qed

lemma decode_writes:
  assumes "base64_scan src 0 0 = Some (N, J)"
  shows "length (base64_decode_loop src 3 0 x) \<le> decoded_length N J" "unat J \<le> (6 * N + 7) div 8"
proof -
  from scan_Some [OF assms] obtain data k where
    d: "filter symbol src = data @ replicate k (byte CHR ''='')" "\<forall>c \<in> set data. dec c < 64"
      "N = length data + k" "unat J = k" "k \<le> 2" by auto
  have "symbol c" if "c \<in> set data" for c
  proof -
    have "c \<in> set (filter symbol src)" using that d(1) by simp
    then show ?thesis by simp
  qed
  with d(2) have data: "\<forall>c \<in> set data. dec c < 64 \<and> symbol c" by blast
  define q where "q = length data div 4"
  define r where "r = length data mod 4"
  have l: "length data = 4 * q + r" "r < 4" by (simp_all add: q_def r_def)
  have k: "k = 0 \<or> k = 1 \<or> k = 2" using d(5) by auto
  from decode_data_length [OF data, of 0 "replicate k (byte CHR ''='')" x]
    decode_pads_length [OF k l(2)]
  have len: "length (base64_decode_loop src 3 0 x) = 3 * q + (if r + k < 4 then 0 else r - 1)"
    unfolding decode_filter [of src 3 0 x] d(1) by (auto simp: q_def r_def)
  have N: "6 * N + 7 = 8 * (3 * q) + (6 * (r + k) + 7)" using d(3) l by simp
  then have "(6 * N + 7) div 8 = 3 * q + (6 * (r + k) + 7) div 8"
    by (metis div_mult_self4 zero_neq_numeral)
  moreover have "r = 0 \<or> r = 1 \<or> r = 2 \<or> r = 3" using l(2) by auto
  ultimately show "length (base64_decode_loop src 3 0 x) \<le> decoded_length N J" "unat J \<le> (6 * N + 7) div 8"
    using k len d(4) by (auto simp: decoded_length_eq)
qed

text \<open>The number of groups, and the encoder without its overflow test.\<close>

lemma group_count: "(n :: nat) div 3 + (if n mod 3 \<noteq> 0 then 1 else 0) = (n + 2) div 3"
proof -
  define q r where "q = n div 3" and "r = n mod 3"
  have "n = 3 * q + r" "r < 3" by (simp_all add: q_def r_def)
  then have "(n + 2) div 3 = q + (r + 2) div 3" by simp
  moreover have "r = 0 \<or> r = 1 \<or> r = 2" using \<open>r < 3\<close> by auto
  ultimately show ?thesis by (auto simp: q_def [symmetric] r_def [symmetric])
qed

lemma length_encoded: "length (base64_encode_loop src) = 4 * ((length src + 2) div 3)"
  unfolding length_encode_loop group_count ..

lemma encode_eq:
  assumes "src \<noteq> []" "length src < 2 ^ 63"
  shows "mbedtls_base64_encode dst_null dlen src =
    (let n = 4 * ((length src + 2) div 3) in
     if dst_null \<or> dlen < n + 1
     then \<lparr>rc = MBEDTLS_ERR_BASE64_BUFFER_TOO_SMALL, olen = Some (n + 1), written = []\<rparr>
     else \<lparr>rc = 0, olen = Some n, written = base64_encode_loop src @ [0]\<rparr>)"
proof -
  have "\<not> (BASE64_SIZE_T_MAX - 1) div 4 < (length src + 2) div 3"
    using assms(2) by (simp add: BASE64_SIZE_T_MAX_def)
  then show ?thesis
    using assms(1) unfolding mbedtls_base64_encode_def group_count Let_def length_encoded
    by (auto simp: mult.commute)
qed

text \<open>Decoding the output of the encoder.\<close>

lemma decode_encoded:
  assumes "src \<noteq> []" "length src \<le> dlen'"
  shows "mbedtls_base64_decode False dlen' (base64_encode_loop src) =
    \<lparr>rc = 0, olen = Some (length src), written = src\<rparr>"
proof -
  define out where "out = base64_encode_loop src"
  have len: "length out = 4 * ((length src + 2) div 3)" by (simp add: out_def length_encoded)
  have "0 < length src" using assms(1) by simp
  then have ne: "length out \<noteq> 0" by (simp add: len div_greater_zero_iff Suc_le_eq)
  obtain j where j: "base64_scan out 0 0 = Some (length out, j)" "unat j = (3 - length src mod 3) mod 3"
    using scan_encoded [of src 0] by (auto simp: out_def)
  have "decoded_length (length out) j = length src"
  proof -
    define q r where "q = length src div 3" and "r = length src mod 3"
    have l: "length src = 3 * q + r" "r = 0 \<or> r = 1 \<or> r = 2" by (auto simp: q_def r_def)
    have "(3 * q + (r + 2)) div 3 = q + (r + 2) div 3" by simp
    then have "(length src + 2) div 3 = q + (r + 2) div 3" unfolding l(1) by (simp only: add.assoc)
    then have "6 * length out + 7 = 8 * (3 * q) + (24 * ((r + 2) div 3) + 7)" by (simp add: len)
    then have "(6 * length out + 7) div 8 = 3 * q + (24 * ((r + 2) div 3) + 7) div 8"
      by (metis div_mult_self4 zero_neq_numeral)
    with l show ?thesis
      unfolding decoded_length_eq j(2) by (auto simp: r_def [symmetric])
  qed
  with j ne assms(2) encode_decode [of src 0] show ?thesis
    by (simp add: mbedtls_base64_decode_def out_def)
qed


section \<open>Properties\<close>

text \<open>
  C38: decoding what \<open>mbedtls_base64_encode\<close> wrote gives the input back: for every non-empty input
  and large enough buffers both calls succeed and the decoder writes exactly the input.
\<close>

theorem base64_roundtrip:
  assumes "src \<noteq> []" "length src < 2 ^ 63" "4 * ((length src + 2) div 3) + 1 \<le> dlen" "length src \<le> dlen'"
    and "mbedtls_base64_encode False dlen src = r"
  shows "rc r = 0 \<and> (\<exists>n. olen r = Some n \<and>
    mbedtls_base64_decode False dlen' (take n (written r)) =
      \<lparr>rc = 0, olen = Some (length src), written = src\<rparr>)"
proof -
  let ?out = "base64_encode_loop src"
  have "r = \<lparr>rc = 0, olen = Some (length ?out), written = ?out @ [0]\<rparr>"
    using assms(3,5) encode_eq [OF assms(1,2), of False dlen] by (auto simp: length_encoded Let_def)
  with decode_encoded [OF assms(1,4)] show ?thesis by simp
qed

theorem base64_roundtrip_witness:
  "\<exists>n. written (mbedtls_base64_decode False 2 (take n (written (mbedtls_base64_encode False 5 [0x68, 0x65])))) =
     [0x68, 0x65]"
proof -
  let ?d = "\<lambda>n. mbedtls_base64_decode False 2 (take n (written (mbedtls_base64_encode False 5 [0x68, 0x65])))"
  from base64_roundtrip [of "[0x68, 0x65]" 5 2, OF _ _ _ _ refl]
  obtain n where "?d n = \<lparr>rc = 0, olen = Some (length [0x68 :: u8, 0x65]), written = [0x68, 0x65]\<rparr>"
    by auto
  then have "written (?d n) = [0x68, 0x65]" by simp
  then show ?thesis ..
qed

text \<open>
  The decoder never writes past the buffer it was given, and the length it stores is the number
  of bytes it wrote: the bound it computes before the second pass is enough for any accepted input,
  with white space, line breaks and incomplete groups.
\<close>

theorem base64_decode_in_buffer:
  "length (written (mbedtls_base64_decode dst_null dlen src)) \<le> (if dst_null then 0 else dlen) \<and>
   (rc (mbedtls_base64_decode dst_null dlen src) = 0 \<longrightarrow>
      olen (mbedtls_base64_decode dst_null dlen src) =
        Some (length (written (mbedtls_base64_decode dst_null dlen src))))"
proof (cases "base64_scan src 0 0")
  case (Some p)
  obtain N J where p: "p = (N, J)" by fastforce
  from decode_writes(1) [OF Some [unfolded p], of 0] Some p show ?thesis
    by (auto simp: mbedtls_base64_decode_def Let_def MBEDTLS_ERR_BASE64_BUFFER_TOO_SMALL_def)
qed (simp add: mbedtls_base64_decode_def MBEDTLS_ERR_BASE64_INVALID_CHARACTER_def)

theorem base64_decode_in_buffer_witness:
  "length (written (mbedtls_base64_decode False 1 (map byte ''aG8=''))) \<le> 1"
  using base64_decode_in_buffer [of False 1 "map byte ''aG8=''"] by simp

text \<open>
  The encoder succeeds exactly when the buffer has room for four characters per group of
  three bytes and the terminator; it then writes exactly that many bytes, the last one zero, and
  otherwise nothing, reporting the size it needs.
\<close>

theorem base64_encode_length:
  assumes "src \<noteq> []" "length src < 2 ^ 63"
  shows "mbedtls_base64_encode dst_null dlen src =
    (let n = 4 * ((length src + 2) div 3) in
     if dst_null \<or> dlen < n + 1
     then \<lparr>rc = MBEDTLS_ERR_BASE64_BUFFER_TOO_SMALL, olen = Some (n + 1), written = []\<rparr>
     else \<lparr>rc = 0, olen = Some n, written = base64_encode_loop src @ [0]\<rparr>) \<and>
    length (base64_encode_loop src) = 4 * ((length src + 2) div 3)"
  using encode_eq [OF assms] length_encoded by blast

theorem base64_encode_length_witness:
  "olen (mbedtls_base64_encode False 4 [7]) = Some 5 \<and> rc (mbedtls_base64_encode False 5 [7]) = 0"
  using base64_encode_length [of "[7]" False 4] base64_encode_length [of "[7]" False 5] by (simp add: Let_def)

text \<open>
  A byte that is no character of the alphabet, no padding and no white space makes the decoder
  return \<open>MBEDTLS_ERR_BASE64_INVALID_CHARACTER\<close>, wherever it stands; nothing is written.
\<close>

theorem base64_decode_rejects:
  assumes "c \<in> set src" "c \<noteq> 0x0D" "c \<noteq> 0x0A" "c \<noteq> byte CHR '' ''" "c \<noteq> byte CHR ''=''" "64 \<le> dec c"
  shows "mbedtls_base64_decode dst_null dlen src =
    \<lparr>rc = MBEDTLS_ERR_BASE64_INVALID_CHARACTER, olen = None, written = []\<rparr>"
proof (cases "base64_scan src 0 0")
  case (Some p)
  obtain N J where p: "p = (N, J)" by fastforce
  from scan_Some [OF Some [unfolded p]] obtain data k where
    d: "filter symbol src = data @ replicate k (byte CHR ''='')" "\<forall>c \<in> set data. dec c < 64" by auto
  have "c \<in> set (filter symbol src)" using assms by (simp add: symbol_def)
  with d(1) assms(5) have "c \<in> set data" by (auto split: if_splits)
  with d(2) assms(6) show ?thesis by auto
qed (simp add: mbedtls_base64_decode_def)

theorem base64_decode_rejects_witness:
  "rc (mbedtls_base64_decode False 9 (map byte ''aG!=bG8='')) = MBEDTLS_ERR_BASE64_INVALID_CHARACTER"
proof -
  have "64 \<le> dec (byte CHR ''!'')" by code_simp
  then show ?thesis
    using base64_decode_rejects [of "byte CHR ''!''" "map byte ''aG!=bG8=''" False 9]
    by (simp add: byte_def uchar_def)
qed

end
