(* ===== verification/Md_Stream.thy ===== *)
theory Md_Stream
  imports Prelude
begin

text \<open>
  What \<open>md5.c\<close>, \<open>sha1.c\<close> and \<open>sha256.c\<close> under \<open>src/mwnet_mt/crypto\<close> share: the context structure,
  the byte-order macros and the bodies of the functions \<open>mbedtls_..._update_ret\<close> and
  \<open>mbedtls_..._finish_ret\<close>, which the three files repeat with their own block function. They are
  given here once, over the block function, and instantiated by the theories of the three files.
  The locale \<open>md_hash\<close> states what the block function promises; inside it the streaming
  interface is shown to compute the iterated hash of the padded message, however the message is
  cut into calls.
\<close>

section \<open>Byte order\<close>

abbreviation u32_of :: "u8 \<Rightarrow> u32" where
  "u32_of \<equiv> ucast"

abbreviation u8_of :: "u32 \<Rightarrow> u8" where
  "u8_of \<equiv> ucast"

definition GET_UINT32_LE :: "u8 list \<Rightarrow> nat \<Rightarrow> u32" where
  "GET_UINT32_LE b i = u32_of (b ! i) OR push_bit 8 (u32_of (b ! (i + 1))) OR
     push_bit 16 (u32_of (b ! (i + 2))) OR push_bit 24 (u32_of (b ! (i + 3)))"

definition PUT_UINT32_LE :: "u32 \<Rightarrow> u8 list" where
  "PUT_UINT32_LE n = [u8_of (n AND 0xFF), u8_of (drop_bit 8 n AND 0xFF),
     u8_of (drop_bit 16 n AND 0xFF), u8_of (drop_bit 24 n AND 0xFF)]"

definition GET_UINT32_BE :: "u8 list \<Rightarrow> nat \<Rightarrow> u32" where
  "GET_UINT32_BE b i = push_bit 24 (u32_of (b ! i)) OR push_bit 16 (u32_of (b ! (i + 1))) OR
     push_bit 8 (u32_of (b ! (i + 2))) OR u32_of (b ! (i + 3))"

definition PUT_UINT32_BE :: "u32 \<Rightarrow> u8 list" where
  "PUT_UINT32_BE n = [u8_of (drop_bit 24 n), u8_of (drop_bit 16 n),
     u8_of (drop_bit 8 n), u8_of n]"


lemma and_ones: "(w :: u32) AND 0xFFFFFFFF = w"
proof -
  have "(0xFFFFFFFF :: u32) = mask 32" by (simp add: mask_eq_exp_minus_1)
  then show ?thesis
    by (simp only: take_bit_eq_mask [symmetric]) (simp add: take_bit_word_eq_self)
qed

text \<open>The two shifts of the rotation macros are a rotation.\<close>

lemma shifts_rotr:
  fixes x :: u32
  assumes "0 < n" "n < 32"
  shows "drop_bit n x OR push_bit (32 - n) x = word_rotr n x"
proof (rule bit_word_eqI)
  fix k assume "k < LENGTH(32)"
  then have k: "k < 32" by simp
  show "bit (drop_bit n x OR push_bit (32 - n) x) k = bit (word_rotr n x) k"
  proof (cases "k + n < 32")
    case True
    with assms k show ?thesis by (auto simp: bit_simps add.commute)
  next
    case False
    then have "(k + n) mod 32 = k + n - 32" "\<not> bit x (n + k)" "k - (32 - n) = k + n - 32"
      using k assms bit_imp_le_length [of x "n + k"] by (auto simp: le_mod_geq)
    with assms k False show ?thesis by (auto simp: bit_simps add.commute)
  qed
qed

lemma shifts_rotl:
  fixes x :: u32
  assumes "0 < n" "n < 32"
  shows "push_bit n x OR drop_bit (32 - n) x = word_rotl n x"
  using shifts_rotr [of "32 - n" x] assms by (simp add: word_rotl_eq_word_rotr or.commute)

text \<open>The words the macros read.\<close>

lemma bit_word_rcat:
  "bit (word_rcat ws :: u32) k \<longleftrightarrow> k < 32 \<and> k div 8 < length ws \<and> bit (rev ws ! (k div 8)) (k mod 8)"
  for ws :: "u8 list"
  using bit_horner_sum_uint_exp_iff [of "rev ws" k]
  by (simp add: word_rcat_def bit_word_of_int_iff)

lemma bytes_of_word:
  fixes b0 b1 b2 b3 :: u8
  shows "u32_of b0 OR push_bit 8 (u32_of b1) OR push_bit 16 (u32_of b2) OR push_bit 24 (u32_of b3) =
    word_rcat [b3, b2, b1, b0]"
proof (rule bit_word_eqI)
  fix k assume "k < LENGTH(32)"
  then have k: "k < 32" by simp
  define q r where "q = k div 8" and "r = k mod 8"
  have kq: "k = 8 * q + r" "r < 8" by (simp_all add: q_def r_def)
  moreover have "q = 0 \<or> q = 1 \<or> q = 2 \<or> q = 3" using k unfolding q_def by auto
  ultimately show "bit (u32_of b0 OR push_bit 8 (u32_of b1) OR push_bit 16 (u32_of b2) OR push_bit 24 (u32_of b3)) k =
      bit (word_rcat [b3, b2, b1, b0] :: u32) k"
    unfolding bit_word_rcat q_def [symmetric] r_def [symmetric]
    by (elim disjE) (auto simp: bit_simps dest: bit_imp_le_length)
qed

lemma GET_UINT32_LE_word:
  "i + 4 \<le> length b \<Longrightarrow> GET_UINT32_LE b i = word_rcat (rev (take 4 (drop i b)))"
  unfolding GET_UINT32_LE_def bytes_of_word
  by (simp add: eval_nat_numeral take_Suc_conv_app_nth)

lemma GET_UINT32_BE_word:
  "i + 4 \<le> length b \<Longrightarrow> GET_UINT32_BE b i = word_rcat (take 4 (drop i b))"
  using bytes_of_word [of "b ! (i + 3)" "b ! (i + 2)" "b ! (i + 1)" "b ! i"]
  unfolding GET_UINT32_BE_def
  by (simp add: eval_nat_numeral take_Suc_conv_app_nth or.commute or.left_commute)


section \<open>Context\<close>

record md_context =
  total0 :: u32
  total1 :: u32
  state :: "u32 list"
  buffer :: "u8 list"

text \<open>\<open>memcpy (dst + off, src, n)\<close> with \<open>src\<close> the \<open>n\<close> bytes; past the end of \<open>dst\<close> the result would be longer.\<close>

definition memcpy_at :: "u8 list \<Rightarrow> nat \<Rightarrow> u8 list \<Rightarrow> u8 list" where
  "memcpy_at dst off src = take off dst @ src @ drop (off + length src) dst"


section \<open>Update\<close>

text \<open>The loop \<open>while (ilen >= 64)\<close>: the return value, the context and the input left over.\<close>

function md_blocks :: "('a md_context_scheme \<Rightarrow> u8 list \<Rightarrow> int \<times> 'a md_context_scheme) \<Rightarrow>
    'a md_context_scheme \<Rightarrow> u8 list \<Rightarrow> int \<times> 'a md_context_scheme \<times> u8 list" where
  "md_blocks process ctx input =
     (if 64 \<le> length input then
        (case process ctx (take 64 input) of
           (ret, ctx') \<Rightarrow> if ret \<noteq> 0 then (ret, ctx', input) else md_blocks process ctx' (drop 64 input))
      else (0, ctx, input))"
  by pat_completeness auto

termination md_blocks
  by (relation "measure (\<lambda>(_, _, input). length input)") auto

declare md_blocks.simps [simp del]

definition md_rest :: "('a md_context_scheme \<Rightarrow> u8 list \<Rightarrow> int \<times> 'a md_context_scheme) \<Rightarrow>
    'a md_context_scheme \<Rightarrow> nat \<Rightarrow> u8 list \<Rightarrow> int \<times> 'a md_context_scheme" where
  "md_rest process ctx left input =
     (case md_blocks process ctx input of
        (ret, ctx', rest) \<Rightarrow>
          if ret \<noteq> 0 then (ret, ctx')
          else if rest \<noteq> [] then (0, ctx'\<lparr>buffer := memcpy_at (buffer ctx') left rest\<rparr>)
          else (0, ctx'))"

definition md_count :: "'a md_context_scheme \<Rightarrow> nat \<Rightarrow> 'a md_context_scheme" where
  "md_count ctx ilen =
     (let ctx1 = ctx\<lparr>total0 := (total0 ctx + of_nat ilen) AND 0xFFFFFFFF\<rparr> in
      if total0 ctx1 < of_nat ilen then ctx1\<lparr>total1 := total1 ctx1 + 1\<rparr> else ctx1)"

definition md_update :: "('a md_context_scheme \<Rightarrow> u8 list \<Rightarrow> int \<times> 'a md_context_scheme) \<Rightarrow>
    'a md_context_scheme \<Rightarrow> u8 list \<Rightarrow> int \<times> 'a md_context_scheme" where
  "md_update process ctx input =
     (if length input = 0 then (0, ctx)
      else
        let left = unat (total0 ctx AND 0x3F);
            fill = 64 - left;
            ctx1 = md_count ctx (length input)
        in if left \<noteq> 0 \<and> fill \<le> length input then
             (let ctx2 = ctx1\<lparr>buffer := memcpy_at (buffer ctx1) left (take fill input)\<rparr> in
              case process ctx2 (buffer ctx2) of
                (ret, ctx3) \<Rightarrow> if ret \<noteq> 0 then (ret, ctx3) else md_rest process ctx3 0 (drop fill input))
           else md_rest process ctx1 left input)"


section \<open>Finish\<close>

definition md_padding :: "u8 list" where
  "md_padding = 0x80 # replicate 63 0"

text \<open>
  The return value, the context and the output; \<open>msglen\<close> orders the two halves of the bit count
  and \<open>put_output\<close> writes the state out.
\<close>

definition md_finish :: "('a md_context_scheme \<Rightarrow> u8 list \<Rightarrow> int \<times> 'a md_context_scheme) \<Rightarrow>
    (u32 \<Rightarrow> u32 \<Rightarrow> u8 list) \<Rightarrow> ('a md_context_scheme \<Rightarrow> u8 list) \<Rightarrow>
    'a md_context_scheme \<Rightarrow> int \<times> 'a md_context_scheme \<times> u8 list" where
  "md_finish update msglen put_output ctx =
     (let high = drop_bit 29 (total0 ctx) OR push_bit 3 (total1 ctx);
          low = push_bit 3 (total0 ctx);
          last = unat (total0 ctx AND 0x3F);
          padn = (if last < 56 then 56 - last else 120 - last)
      in case update ctx (take padn md_padding) of
           (ret, ctx1) \<Rightarrow>
             if ret \<noteq> 0 then (ret, ctx1, [])
             else case update ctx1 (msglen high low) of
               (ret, ctx2) \<Rightarrow> if ret \<noteq> 0 then (ret, ctx2, []) else (0, ctx2, put_output ctx2))"

text \<open>The one-call functions: \<open>exit\<close> is reached with the return value of the call that failed, or 0.\<close>

definition md_oneshot :: "(int \<times> 'c) \<Rightarrow> ('c \<Rightarrow> u8 list \<Rightarrow> int \<times> 'c) \<Rightarrow> ('c \<Rightarrow> int \<times> 'c \<times> u8 list) \<Rightarrow>
    u8 list \<Rightarrow> int \<times> u8 list" where
  "md_oneshot started update finish input =
     (case started of (ret, ctx) \<Rightarrow>
        if ret \<noteq> 0 then (ret, [])
        else case update ctx input of (ret, ctx) \<Rightarrow>
          if ret \<noteq> 0 then (ret, [])
          else case finish ctx of (ret, _, output) \<Rightarrow> if ret \<noteq> 0 then (ret, []) else (0, output))"


text \<open>A sequence of calls of \<open>update\<close>, stopped by the first that fails.\<close>

fun md_feed :: "('c \<Rightarrow> u8 list \<Rightarrow> int \<times> 'c) \<Rightarrow> 'c \<Rightarrow> u8 list list \<Rightarrow> int \<times> 'c" where
  "md_feed update ctx [] = (0, ctx)"
| "md_feed update ctx (c # cs) =
     (case update ctx c of (ret, ctx') \<Rightarrow> if ret \<noteq> 0 then (ret, ctx') else md_feed update ctx' cs)"


section \<open>The specification: iterated hashing of the padded message\<close>

function full_blocks :: "u8 list \<Rightarrow> u8 list list" where
  "full_blocks m = (if 64 \<le> length m then take 64 m # full_blocks (drop 64 m) else [])"
  by pat_completeness auto

termination full_blocks
  by (relation "measure length") auto

declare full_blocks.simps [simp del]

text \<open>The bytes after the last full block.\<close>

definition tail_block :: "u8 list \<Rightarrow> u8 list" where
  "tail_block m = drop (64 * (length m div 64)) m"

text \<open>The 64-bit count of bits, least significant byte first.\<close>

definition bit_count_le :: "nat \<Rightarrow> u8 list" where
  "bit_count_le n = map (\<lambda>i. of_nat (8 * n div 256 ^ i)) [0..<8]"

definition md_pad :: "(nat \<Rightarrow> u8 list) \<Rightarrow> u8 list \<Rightarrow> u8 list" where
  "md_pad count m = m @ 0x80 # replicate ((119 - length m mod 64) mod 64) 0 @ count (length m)"

definition md_spec :: "(u32 list \<Rightarrow> u8 list \<Rightarrow> u32 list) \<Rightarrow> u32 list \<Rightarrow> (nat \<Rightarrow> u8 list) \<Rightarrow>
    u8 list \<Rightarrow> u32 list" where
  "md_spec compress iv count m = foldl compress iv (full_blocks (md_pad count m))"


section \<open>Blocks\<close>

lemma full_blocks_short [simp]: "length m < 64 \<Longrightarrow> full_blocks m = []"
  by (subst full_blocks.simps) simp

lemma full_blocks_step: "64 \<le> length m \<Longrightarrow> full_blocks m = take 64 m # full_blocks (drop 64 m)"
  by (subst full_blocks.simps) simp

lemma full_blocks_one: "length b = 64 \<Longrightarrow> full_blocks (b @ m) = b # full_blocks m"
  by (subst full_blocks_step) simp_all

lemma full_blocks_append:
  "length a mod 64 = 0 \<Longrightarrow> full_blocks (a @ b) = full_blocks a @ full_blocks b"
proof (induction a rule: full_blocks.induct)
  case (1 a)
  show ?case
  proof (cases "64 \<le> length a")
    case True
    moreover from this 1(2) have "length (drop 64 a) mod 64 = 0" by (simp add: le_mod_geq)
    ultimately show ?thesis
      using 1(1) full_blocks_step [of a] full_blocks_step [of "a @ b"] by simp
  next
    case False
    with 1(2) show ?thesis by simp
  qed
qed

lemma length_tail_block: "length (tail_block m) = length m mod 64"
  by (simp add: tail_block_def minus_mult_div_eq_mod)

lemma tail_block_split: "take (64 * (length m div 64)) m @ tail_block m = m"
  by (simp add: tail_block_def)

lemma tail_block_append:
  "length a mod 64 = 0 \<Longrightarrow> tail_block (a @ b) = tail_block b"
  by (auto simp: tail_block_def mod_eq_0_iff_dvd elim!: dvdE)

lemma tail_block_short: "length m < 64 \<Longrightarrow> tail_block m = m"
  by (simp add: tail_block_def)

text \<open>Appending to a message only touches what follows its last full block.\<close>

lemma blocks_of_append:
  "full_blocks (m @ x) = full_blocks m @ full_blocks (tail_block m @ x)"
  "tail_block (m @ x) = tail_block (tail_block m @ x)"
proof -
  define a where "a = take (64 * (length m div 64)) m"
  have m: "m = a @ tail_block m" by (simp add: a_def tail_block_split)
  have "length a = 64 * (length m div 64)" by (simp add: a_def)
  then have a: "length a mod 64 = 0" by simp
  have "full_blocks m = full_blocks a"
    by (subst m, subst full_blocks_append [OF a]) (simp add: length_tail_block)
  then show "full_blocks (m @ x) = full_blocks m @ full_blocks (tail_block m @ x)"
    by (metis a append.assoc full_blocks_append m)
  show "tail_block (m @ x) = tail_block (tail_block m @ x)"
    by (metis a append.assoc tail_block_append m)
qed

lemma tail_block_drop: "64 \<le> length m \<Longrightarrow> tail_block (drop 64 m) = tail_block m"
  using tail_block_append [of "take 64 m" "drop 64 m"] by simp


section \<open>The byte counter\<close>

lemma carry_iff:
  assumes "(i :: nat) < M"
  shows "(n + i) div M = n div M + (if (n + i) mod M < i then 1 else 0)"
proof -
  define q r where "q = n div M" and "r = n mod M"
  have n: "n = M * q + r" and r: "r < M" using assms by (simp_all add: q_def r_def)
  have *: "(n + i) div M = q + (r + i) div M" "(n + i) mod M = (r + i) mod M"
    using assms by (simp_all add: n add.assoc)
  show ?thesis
  proof (cases "r + i < M")
    case True
    with * show ?thesis by (simp add: q_def [symmetric])
  next
    case False
    then have "(r + i) div M = 1" "(r + i) mod M = r + i - M"
      using r assms by (simp_all add: div_nat_eqI le_mod_geq)
    with * r False show ?thesis by (simp add: q_def [symmetric])
  qed
qed

lemma md_count_total:
  assumes "total0 ctx = of_nat n" "total1 ctx = of_nat (n div 2 ^ 32)" "ilen < 2 ^ 32"
  shows "total0 (md_count ctx ilen) = of_nat (n + ilen)"
    "total1 (md_count ctx ilen) = of_nat ((n + ilen) div 2 ^ 32)"
proof -
  have less: "(of_nat n + of_nat ilen :: u32) < of_nat ilen \<longleftrightarrow> (n + ilen) mod 2 ^ 32 < ilen"
    using assms(3) by (simp add: word_less_nat_alt unat_of_nat flip: of_nat_add)
  show "total0 (md_count ctx ilen) = of_nat (n + ilen)"
    using assms(1) by (simp add: md_count_def and_ones Let_def)
  have "(of_nat ((n + ilen) div 2 ^ 32) :: u32) =
      of_nat (n div 2 ^ 32) + (if (n + ilen) mod 2 ^ 32 < ilen then 1 else 0)"
    by (subst carry_iff [OF assms(3)]) simp
  then show "total1 (md_count ctx ilen) = of_nat ((n + ilen) div 2 ^ 32)"
    using assms(1,2) by (simp add: md_count_def and_ones less Let_def)
qed

lemma md_count_keeps [simp]:
  "state (md_count ctx n) = state ctx" "buffer (md_count ctx n) = buffer ctx"
  "md_context.more (md_count ctx n) = md_context.more ctx"
  by (simp_all add: md_count_def Let_def)

lemma count_left: "unat ((of_nat n :: u32) AND 0x3F) = n mod 64"
proof -
  have "(0x3F :: u32) = mask 6" by (simp add: mask_eq_exp_minus_1)
  then have "unat ((of_nat n :: u32) AND 0x3F) = take_bit 6 (unat (of_nat n :: u32))"
    by (simp only: take_bit_eq_mask [symmetric] unsigned_take_bit_eq)
  then show ?thesis by (simp add: unat_of_nat take_bit_eq_mod mod_mod_cancel)
qed


section \<open>The contract of a block function\<close>

text \<open>
  \<open>process\<close> succeeds on every block of 64 bytes and replaces the \<open>words\<close> words of the state by what
  \<open>compress\<close> makes of them; the rest of the context is kept.
\<close>

locale md_hash =
  fixes process :: "'a md_context_scheme \<Rightarrow> u8 list \<Rightarrow> int \<times> 'a md_context_scheme"
    and compress :: "u32 list \<Rightarrow> u8 list \<Rightarrow> u32 list"
    and words :: nat
  assumes process_eq: "length (state ctx) = words \<Longrightarrow> length data = 64 \<Longrightarrow>
      process ctx data = (0, ctx\<lparr>state := compress (state ctx) data\<rparr>)"
    and length_compress: "length st = words \<Longrightarrow> length (compress st data) = words"
begin

lemma md_blocks_eq:
  "length (state ctx) = words \<Longrightarrow> md_blocks process ctx input =
     (0, ctx\<lparr>state := foldl compress (state ctx) (full_blocks input)\<rparr>, tail_block input)"
proof (induction "length input" arbitrary: ctx input rule: less_induct)
  case less
  show ?case
  proof (cases "64 \<le> length input")
    case True
    let ?ctx = "ctx\<lparr>state := compress (state ctx) (take 64 input)\<rparr>"
    have "process ctx (take 64 input) = (0, ?ctx)" using True less(2) process_eq by simp
    moreover have "md_blocks process ?ctx (drop 64 input) =
        (0, ?ctx\<lparr>state := foldl compress (state ?ctx) (full_blocks (drop 64 input))\<rparr>, tail_block (drop 64 input))"
      using True less(2) length_compress by (intro less(1)) simp_all
    ultimately show ?thesis
      using True by (subst md_blocks.simps) (simp add: full_blocks_step [OF True] tail_block_drop)
  next
    case False
    then show ?thesis by (subst md_blocks.simps) (simp add: tail_block_short)
  qed
qed

text \<open>
  The abstraction: a context stands for the message \<open>m\<close> when it counts its bytes (modulo
  \<open>2 ^ 64\<close>), its state is the hash of the full blocks and its buffer begins with the rest.
\<close>

definition represents :: "u32 list \<Rightarrow> 'a \<Rightarrow> u8 list \<Rightarrow> 'a md_context_scheme \<Rightarrow> bool" where
  "represents iv ex m ctx \<longleftrightarrow> length iv = words \<and> md_context.more ctx = ex \<and>
     total0 ctx = of_nat (length m) \<and> total1 ctx = of_nat (length m div 2 ^ 32) \<and>
     state ctx = foldl compress iv (full_blocks m) \<and>
     length (buffer ctx) = 64 \<and> take (length m mod 64) (buffer ctx) = tail_block m"

lemma length_foldl: "length iv = words \<Longrightarrow> length (foldl compress iv bs) = words"
  by (induction bs arbitrary: iv) (simp_all add: length_compress)

text \<open>The work after the partial block: \<open>t\<close> is what the buffer already holds.\<close>

lemma md_rest_eq:
  assumes "length (state ctx) = words" "length (buffer ctx) = 64" "left < 64"
    and "left + length input < 64 \<or> left = 0"
  obtains ctx' where "md_rest process ctx left input = (0, ctx')" "total0 ctx' = total0 ctx"
    "total1 ctx' = total1 ctx" "md_context.more ctx' = md_context.more ctx" "length (buffer ctx') = 64"
    "state ctx' = foldl compress (state ctx) (full_blocks input)"
    "take (left + length (tail_block input)) (buffer ctx') = take left (buffer ctx) @ tail_block input"
proof -
  have t: "left + length (tail_block input) < 64"
    using assms(3,4) by (auto simp: length_tail_block)
  show thesis
  proof (cases "tail_block input = []")
    case True
    then show thesis
      by (intro that [of "ctx\<lparr>state := foldl compress (state ctx) (full_blocks input)\<rparr>"])
        (simp_all add: md_rest_def md_blocks_eq [OF assms(1)] assms(2))
  next
    case False
    let ?ctx = "ctx\<lparr>state := foldl compress (state ctx) (full_blocks input)\<rparr>"
    from False t assms(2) show thesis
      by (intro that [of "?ctx\<lparr>buffer := memcpy_at (buffer ctx) left (tail_block input)\<rparr>"])
        (simp_all add: md_rest_def md_blocks_eq [OF assms(1)] memcpy_at_def)
  qed
qed

lemma update_represents:
  assumes rep: "represents iv ex m ctx" and len: "length input < 2 ^ 32"
  obtains ctx' where "md_update process ctx input = (0, ctx')" "represents iv ex (m @ input) ctx'"
proof (cases "input = []")
  case True
  with rep that show thesis by (simp add: md_update_def)
next
  case ne: False
  define left where "left = length m mod 64"
  define ctx1 where "ctx1 = md_count ctx (length input)"
  have left: "unat (total0 ctx AND 0x3F) = left" "left < 64" "length (tail_block m) = left"
    using rep by (simp_all add: represents_def count_left left_def length_tail_block)
  have tot: "total0 ctx1 = of_nat (length (m @ input))"
    "total1 ctx1 = of_nat (length (m @ input) div 2 ^ 32)"
    using rep md_count_total [OF _ _ len, of ctx "length m"] by (simp_all add: represents_def ctx1_def)
  have keep: "state ctx1 = foldl compress iv (full_blocks m)" "take left (buffer ctx1) = tail_block m"
    "length (buffer ctx1) = 64" "md_context.more ctx1 = ex" "length iv = words"
    using rep by (simp_all add: ctx1_def represents_def left_def)
  have st: "length (state ctx1) = words" using keep length_foldl by simp
  note app = blocks_of_append [of m input]
  show thesis
  proof (cases "left \<noteq> 0 \<and> 64 - left \<le> length input")
    case True
    let ?b = "tail_block m @ take (64 - left) input" and ?r = "drop (64 - left) input"
    let ?ctx = "ctx1\<lparr>buffer := ?b, state := compress (state ctx1) ?b\<rparr>"
    have b: "memcpy_at (buffer ctx1) left (take (64 - left) input) = ?b" "length ?b = 64"
      using True left keep by (simp_all add: memcpy_at_def)
    have split: "tail_block m @ input = ?b @ ?r" by simp
    have rest: "length (state ?ctx) = words" "length (buffer ?ctx) = 64"
      using st b(2) length_compress by simp_all
    from md_rest_eq [OF rest, of 0 ?r] obtain ctx' where ctx': "md_rest process ?ctx 0 ?r = (0, ctx')"
      "total0 ctx' = total0 ctx1" "total1 ctx' = total1 ctx1" "md_context.more ctx' = ex"
      "length (buffer ctx') = 64" "state ctx' = foldl compress (state ?ctx) (full_blocks ?r)"
      "take (length (tail_block ?r)) (buffer ctx') = tail_block ?r"
      using keep by auto
    have "md_update process ctx input = (0, ctx')"
      using True ne left b ctx'(1) st process_eq [of "ctx1\<lparr>buffer := ?b\<rparr>" ?b]
      by (simp add: md_update_def Let_def ctx1_def [symmetric])
    moreover have "tail_block (m @ input) = tail_block ?r"
      unfolding app(2) split by (rule tail_block_append) (simp only: b(2), simp)
    moreover have "full_blocks (m @ input) = full_blocks m @ ?b # full_blocks ?r"
      unfolding app(1) split full_blocks_one [OF b(2)] ..
    ultimately show thesis
      using that ctx' tot keep length_tail_block [of "m @ input"]
      by (simp add: represents_def)
  next
    case False
    have "left + length input < 64 \<or> left = 0" using False left(2) by auto
    from md_rest_eq [OF st keep(3) left(2) this] obtain ctx' where ctx':
      "md_rest process ctx1 left input = (0, ctx')"
      "total0 ctx' = total0 ctx1" "total1 ctx' = total1 ctx1" "md_context.more ctx' = ex"
      "length (buffer ctx') = 64" "state ctx' = foldl compress (state ctx1) (full_blocks input)"
      "take (left + length (tail_block input)) (buffer ctx') = tail_block m @ tail_block input"
      using keep by auto
    have "md_update process ctx input = (0, ctx')"
      using False ne left ctx'(1) by (auto simp: md_update_def Let_def ctx1_def [symmetric])
    moreover have "full_blocks (tail_block m @ input) = full_blocks input"
      "tail_block (tail_block m @ input) = tail_block m @ tail_block input"
      using \<open>left + length input < 64 \<or> left = 0\<close> left(3) by (auto simp: tail_block_short)
    ultimately show thesis
      using that ctx' tot keep left(3) length_tail_block [of "m @ input"] app
      by (simp add: represents_def)
  qed
qed

text \<open>The counter after a call, whatever the length of the input.\<close>

lemma md_rest_total:
  assumes "length (state ctx) = words"
  shows "total0 (snd (md_rest process ctx left input)) = total0 ctx"
    "total1 (snd (md_rest process ctx left input)) = total1 ctx"
  by (simp_all add: md_rest_def md_blocks_eq [OF assms])

lemma update_total:
  assumes "length (state ctx) = words" "length (buffer ctx) = 64" "input \<noteq> []"
  shows "total0 (snd (md_update process ctx input)) = total0 (md_count ctx (length input))"
    "total1 (snd (md_update process ctx input)) = total1 (md_count ctx (length input))"
proof -
  define ctx1 where "ctx1 = md_count ctx (length input)"
  define left where "left = unat (total0 ctx AND 0x3F)"
  define b where "b = memcpy_at (buffer ctx1) left (take (64 - left) input)"
  have "left \<le> 63"
    unfolding left_def using word_and_le1 [of "total0 ctx" "0x3F"] by (simp add: word_le_nat_alt and.commute)
  then have b: "length b = 64" if "64 - left \<le> length input"
    using that assms(2) by (simp add: b_def memcpy_at_def ctx1_def)
  have "process (ctx1\<lparr>buffer := b\<rparr>) b = (0, ctx1\<lparr>buffer := b, state := compress (state ctx1) b\<rparr>)"
    if "64 - left \<le> length input"
    using process_eq [of "ctx1\<lparr>buffer := b\<rparr>" b] assms(1) b [OF that] by (simp add: ctx1_def)
  then show "total0 (snd (md_update process ctx input)) = total0 (md_count ctx (length input))"
    "total1 (snd (md_update process ctx input)) = total1 (md_count ctx (length input))"
    using assms(1,3) length_compress
    by (simp_all add: md_update_def Let_def ctx1_def [symmetric] left_def [symmetric] b_def [symmetric] md_rest_total)
      (simp_all add: md_rest_total ctx1_def)
qed

lemma feed_represents:
  assumes "represents iv ex m ctx" "\<forall>c \<in> set chunks. length c < 2 ^ 32"
  obtains ctx' where "md_feed (md_update process) ctx chunks = (0, ctx')" "represents iv ex (m @ concat chunks) ctx'"
proof -
  have "\<exists>ctx'. md_feed (md_update process) ctx chunks = (0, ctx') \<and> represents iv ex (m @ concat chunks) ctx'"
    using assms
  proof (induction chunks arbitrary: m ctx)
    case (Cons c cs)
    then have "length c < 2 ^ 32" by simp
    from update_represents [OF Cons.prems(1) this] obtain ctx1
      where "md_update process ctx c = (0, ctx1)" "represents iv ex (m @ c) ctx1" .
    with Cons.IH [of "m @ c" ctx1] Cons.prems(2) show ?case by simp
  qed simp
  with that show thesis by blast
qed

lemma represents_start:
  assumes "length iv = words" "total0 ctx = 0" "total1 ctx = 0" "state ctx = iv" "length (buffer ctx) = 64"
  shows "represents iv (md_context.more ctx) [] ctx"
  using assms by (simp add: represents_def tail_block_def)

end


section \<open>The contract of a digest\<close>

text \<open>
  Beside the block function: \<open>msglen\<close> lays out the two halves of the bit count as \<open>count\<close> does, and
  \<open>put_output\<close> depends on the state and on the fields a structure adds to the common ones.
\<close>

locale md_digest = md_hash process compress words
  for process :: "'a md_context_scheme \<Rightarrow> u8 list \<Rightarrow> int \<times> 'a md_context_scheme"
    and compress :: "u32 list \<Rightarrow> u8 list \<Rightarrow> u32 list"
    and words :: nat +
  fixes msglen :: "u32 \<Rightarrow> u32 \<Rightarrow> u8 list"
    and count :: "nat \<Rightarrow> u8 list"
    and put_output :: "'a md_context_scheme \<Rightarrow> u8 list"
    and digest :: "'a \<Rightarrow> u32 list \<Rightarrow> u8 list"
  assumes msglen_eq: "msglen (drop_bit 29 (of_nat n) OR push_bit 3 (of_nat (n div 2 ^ 32))) (push_bit 3 (of_nat n)) = count n"
    and length_count: "length (count n) = 8"
    and put_output_eq: "length (state ctx) = words \<Longrightarrow> put_output ctx = digest (md_context.more ctx) (state ctx)"
begin

lemma padding_eq:
  fixes r n :: nat
  assumes "r = n mod 64" "padn = (if r < 56 then 56 - r else 120 - r)"
  shows "take padn md_padding = 0x80 # replicate ((119 - n mod 64) mod 64) 0"
proof -
  have l: "r < 64" using assms(1) by simp
  have "padn = Suc ((119 - r) mod 64)"
  proof (cases "r < 56")
    case True
    then have "(119 - r) mod 64 = 55 - r" by (simp add: le_mod_geq)
    with True assms(2) show ?thesis by simp
  next
    case False
    with l have "(119 - r) mod 64 = 119 - r" by simp
    with False l assms(2) show ?thesis by simp
  qed
  moreover have "(119 - r) mod 64 \<le> 63" by (simp flip: less_Suc_eq_le)
  ultimately show ?thesis
    using assms(1) by (simp add: md_padding_def min_def)
qed

lemma finish_correct:
  assumes rep: "represents iv ex m ctx"
  obtains ctx' where "md_finish (md_update process) msglen put_output ctx =
    (0, ctx', digest ex (md_spec compress iv count m))"
proof -
  define pad where "pad = (0x80 :: u8) # replicate ((119 - length m mod 64) mod 64) 0"
  have tot: "total0 ctx = of_nat (length m)" "total1 ctx = of_nat (length m div 2 ^ 32)"
    using rep by (simp_all add: represents_def)
  have len: "msglen (drop_bit 29 (total0 ctx) OR push_bit 3 (total1 ctx)) (push_bit 3 (total0 ctx)) = count (length m)"
    unfolding tot by (rule msglen_eq)
  have r: "unat (total0 ctx AND 0x3F) = length m mod 64" by (simp add: tot count_left)
  have "(119 - length m mod 64) mod 64 < 64" by simp
  then have short: "length pad < 2 ^ 32" unfolding pad_def by (simp del: mod_less_divisor)
  from update_represents [OF rep this] obtain ctx1 where
    1: "md_update process ctx pad = (0, ctx1)" "represents iv ex (m @ pad) ctx1" .
  have "length (count (length m)) < 2 ^ 32" by (simp add: length_count)
  from update_represents [OF 1(2) this] obtain ctx2 where
    2: "md_update process ctx1 (count (length m)) = (0, ctx2)"
       "represents iv ex ((m @ pad) @ count (length m)) ctx2" .
  have st: "state ctx2 = md_spec compress iv count m" "length (state ctx2) = words" "md_context.more ctx2 = ex"
    using 2(2) length_foldl by (simp_all add: represents_def md_spec_def md_pad_def pad_def)
  have "take (if length m mod 64 < 56 then 56 - length m mod 64 else 120 - length m mod 64) md_padding = pad"
    unfolding pad_def by (rule padding_eq [OF refl refl])
  then show thesis
    using that [of ctx2] 1(1) 2(1) st put_output_eq [OF st(2)] len r
    by (simp add: md_finish_def Let_def)
qed

text \<open>However the message is cut into calls, the digest is that of the whole message.\<close>

lemma stream_correct:
  assumes "length iv = words" "total0 ctx = 0" "total1 ctx = 0" "state ctx = iv" "length (buffer ctx) = 64"
    and "\<forall>c \<in> set chunks. length c < 2 ^ 32"
  obtains ctx1 ctx2 where "md_feed (md_update process) ctx chunks = (0, ctx1)"
    "md_finish (md_update process) msglen put_output ctx1 =
       (0, ctx2, digest (md_context.more ctx) (md_spec compress iv count (concat chunks)))"
  using feed_represents [OF represents_start [OF assms(1-5)] assms(6)] finish_correct
  by (metis append_Nil)

lemma oneshot_correct:
  assumes "length iv = words" "total0 ctx = 0" "total1 ctx = 0" "state ctx = iv" "length (buffer ctx) = 64"
    and "length input < 2 ^ 32"
  shows "md_oneshot (0, ctx) (md_update process) (md_finish (md_update process) msglen put_output) input =
    (0, digest (md_context.more ctx) (md_spec compress iv count input))"
proof -
  from update_represents [OF represents_start [OF assms(1-5)] assms(6)] obtain ctx1 where
    1: "md_update process ctx input = (0, ctx1)" "represents iv (md_context.more ctx) ([] @ input) ctx1" .
  from finish_correct [OF 1(2)] obtain ctx2 where "md_finish (md_update process) msglen put_output ctx1 =
    (0, ctx2, digest (md_context.more ctx) (md_spec compress iv count ([] @ input)))" .
  with 1(1) show ?thesis by (simp add: md_oneshot_def)
qed

end


section \<open>The bit count in the two byte orders\<close>

lemma bit_of_count: "bit (of_nat (8 * n div 256 ^ i) :: u8) k \<longleftrightarrow> k < 8 \<and> 3 \<le> 8 * i + k \<and> bit n (8 * i + k - 3)"
proof -
  have "(256 :: nat) ^ i = 2 ^ (8 * i)" by (simp add: power_mult)
  then have "8 * n div 256 ^ i = drop_bit (8 * i) (push_bit 3 n)"
    by (simp add: drop_bit_eq_div push_bit_eq_mult mult.commute)
  then show ?thesis by (auto simp: bit_simps)
qed

lemma bit_of_high: "bit (drop_bit 29 (of_nat n) OR push_bit 3 (of_nat (n div 2 ^ 32)) :: u32) k \<longleftrightarrow> k < 32 \<and> bit n (29 + k)"
proof -
  have "n div 2 ^ 32 = drop_bit 32 n" by (simp add: drop_bit_eq_div)
  then have "bit (push_bit 3 (of_nat (n div 2 ^ 32)) :: u32) k \<longleftrightarrow> k < 32 \<and> 3 \<le> k \<and> bit n (29 + k)"
    by (auto simp: bit_simps)
  moreover have "bit (drop_bit 29 (of_nat n) :: u32) k \<longleftrightarrow> k < 3 \<and> bit n (29 + k)"
    by (auto simp: bit_simps)
  ultimately show ?thesis by (auto simp: bit_or_iff)
qed

lemma byte_of_low:
  assumes "i < 4"
  shows "u8_of (drop_bit (8 * i) (push_bit 3 (of_nat n))) = of_nat (8 * n div 256 ^ i)"
proof (rule bit_word_eqI)
  fix k assume "k < LENGTH(8)"
  then have "k < 8" by simp
  with assms show "bit (u8_of (drop_bit (8 * i) (push_bit 3 (of_nat n)))) k = bit (of_nat (8 * n div 256 ^ i) :: u8) k"
    unfolding bit_of_count by (auto simp: bit_simps)
qed

lemma byte_of_high:
  assumes "i < 4"
  shows "u8_of (drop_bit (8 * i) (drop_bit 29 (of_nat n) OR push_bit 3 (of_nat (n div 2 ^ 32)))) =
    of_nat (8 * n div 256 ^ (4 + i))"
proof (rule bit_word_eqI)
  fix k assume "k < LENGTH(8)"
  then have k: "k < 8" by simp
  have "8 * (4 + i) + k - 3 = 29 + (8 * i + k)" by simp
  with k assms show "bit (u8_of (drop_bit (8 * i) (drop_bit 29 (of_nat n) OR push_bit 3 (of_nat (n div 2 ^ 32))))) k =
      bit (of_nat (8 * n div 256 ^ (4 + i)) :: u8) k"
    unfolding bit_of_count bit_ucast_iff bit_drop_bit_eq comp_def bit_of_high by auto
qed

lemma byte_mask: "u8_of (w AND 0xFF) = u8_of w"
proof -
  have "(0xFF :: u32) = mask 8" by (simp add: mask_eq_exp_minus_1)
  then show ?thesis
    by (simp only: take_bit_eq_mask [symmetric]) (rule bit_word_eqI, auto simp: bit_simps)
qed

lemma bit_count_bytes:
  "bit_count_le n = map (\<lambda>i. u8_of (drop_bit (8 * i) (push_bit 3 (of_nat n)))) [0, 1, 2, 3] @
     map (\<lambda>i. u8_of (drop_bit (8 * i) (drop_bit 29 (of_nat n) OR push_bit 3 (of_nat (n div 2 ^ 32))))) [0, 1, 2, 3]"
proof -
  have "map f [0..<8] = map f [0, 1, 2, 3] @ map (\<lambda>i. f (4 + i)) [0, 1, 2, 3]" for f :: "nat \<Rightarrow> u8"
    by (simp add: upt_rec eval_nat_numeral)
  then show ?thesis
    unfolding bit_count_le_def by (simp only:) (intro arg_cong2 [of _ _ _ _ "(@)"] map_cong refl; force simp only: byte_of_low byte_of_high list.set)
qed

lemma msglen_le:
  "PUT_UINT32_LE (push_bit 3 (of_nat n)) @ PUT_UINT32_LE (drop_bit 29 (of_nat n) OR push_bit 3 (of_nat (n div 2 ^ 32))) =
   bit_count_le n"
  unfolding bit_count_bytes PUT_UINT32_LE_def byte_mask by simp

lemma msglen_be:
  "PUT_UINT32_BE (drop_bit 29 (of_nat n) OR push_bit 3 (of_nat (n div 2 ^ 32))) @ PUT_UINT32_BE (push_bit 3 (of_nat n)) =
   rev (bit_count_le n)"
  unfolding bit_count_bytes PUT_UINT32_BE_def by simp

lemma length_bit_count [simp]: "length (bit_count_le n) = 8"
  by (simp add: bit_count_le_def)

end
