(* ===== verification/Md5.thy ===== *)
theory Md5
  imports Md_Stream
begin

text \<open>
  \<open>src/mwnet_mt/crypto/md5.c\<close>. The block function is written as the source has it, sixty-four calls
  of the macro \<open>P\<close> on the variables \<open>A\<close> to \<open>D\<close> whose roles rotate from call to call; it is shown equal
  to the description of RFC 1321, where one step formula with index tables is iterated and the
  registers shift. The streaming functions are the shared ones of \<open>Md_Stream\<close>.
\<close>

section \<open>The code\<close>

type_synonym mbedtls_md5_context = md_context

definition mbedtls_md5_init :: mbedtls_md5_context where
  "mbedtls_md5_init = \<lparr>total0 = 0, total1 = 0, state = replicate 4 0, buffer = replicate 64 0\<rparr>"

definition mbedtls_md5_free :: "mbedtls_md5_context option \<Rightarrow> mbedtls_md5_context option" where
  "mbedtls_md5_free ctx = map_option (\<lambda>_. mbedtls_md5_init) ctx"

definition mbedtls_md5_clone :: "mbedtls_md5_context \<Rightarrow> mbedtls_md5_context" where
  "mbedtls_md5_clone src = src"

definition mbedtls_md5_starts_ret :: "mbedtls_md5_context \<Rightarrow> int \<times> mbedtls_md5_context" where
  "mbedtls_md5_starts_ret ctx =
     (0, ctx\<lparr>total0 := 0, total1 := 0,
       state := (state ctx)[0 := 0x67452301, 1 := 0xEFCDAB89, 2 := 0x98BADCFE, 3 := 0x10325476]\<rparr>)"

text \<open>The local variables of the block function and the calls of its macro \<open>P\<close>.\<close>

datatype md5_var = vA | vB | vC | vD

type_synonym md5_regs = "u32 \<times> u32 \<times> u32 \<times> u32"

fun md5_get :: "md5_regs \<Rightarrow> md5_var \<Rightarrow> u32" where
  "md5_get (a, b, c, d) vA = a"
| "md5_get (a, b, c, d) vB = b"
| "md5_get (a, b, c, d) vC = c"
| "md5_get (a, b, c, d) vD = d"

fun md5_set :: "md5_regs \<Rightarrow> md5_var \<Rightarrow> u32 \<Rightarrow> md5_regs" where
  "md5_set (a, b, c, d) vA x = (x, b, c, d)"
| "md5_set (a, b, c, d) vB x = (a, x, c, d)"
| "md5_set (a, b, c, d) vC x = (a, b, x, d)"
| "md5_set (a, b, c, d) vD x = (a, b, c, x)"

type_synonym md5_op = "md5_var \<times> md5_var \<times> md5_var \<times> md5_var \<times> nat \<times> nat \<times> u32"

definition md5_S :: "u32 \<Rightarrow> nat \<Rightarrow> u32" where
  "md5_S x n = push_bit n x OR drop_bit (32 - n) (x AND 0xFFFFFFFF)"

definition md5_F1 :: "u32 \<Rightarrow> u32 \<Rightarrow> u32 \<Rightarrow> u32" where
  "md5_F1 x y z = z XOR (x AND (y XOR z))"

definition md5_F2 :: "u32 \<Rightarrow> u32 \<Rightarrow> u32 \<Rightarrow> u32" where
  "md5_F2 x y z = y XOR (z AND (x XOR y))"

definition md5_F3 :: "u32 \<Rightarrow> u32 \<Rightarrow> u32 \<Rightarrow> u32" where
  "md5_F3 x y z = x XOR y XOR z"

definition md5_F4 :: "u32 \<Rightarrow> u32 \<Rightarrow> u32 \<Rightarrow> u32" where
  "md5_F4 x y z = y XOR (x OR NOT z)"

definition md5_P :: "(u32 \<Rightarrow> u32 \<Rightarrow> u32 \<Rightarrow> u32) \<Rightarrow> u32 list \<Rightarrow> md5_regs \<Rightarrow> md5_op \<Rightarrow> md5_regs" where
  "md5_P F X v op =
     (case op of (a, b, c, d, k, s, t) \<Rightarrow>
        let v1 = md5_set v a (md5_get v a + (F (md5_get v b) (md5_get v c) (md5_get v d) + X ! k + t))
        in md5_set v1 a (md5_S (md5_get v1 a) s + md5_get v1 b))"

definition md5_round1 :: "md5_op list" where
  "md5_round1 = [
    (vA, vB, vC, vD, 0, 7, 0xD76AA478),
    (vD, vA, vB, vC, 1, 12, 0xE8C7B756),
    (vC, vD, vA, vB, 2, 17, 0x242070DB),
    (vB, vC, vD, vA, 3, 22, 0xC1BDCEEE),
    (vA, vB, vC, vD, 4, 7, 0xF57C0FAF),
    (vD, vA, vB, vC, 5, 12, 0x4787C62A),
    (vC, vD, vA, vB, 6, 17, 0xA8304613),
    (vB, vC, vD, vA, 7, 22, 0xFD469501),
    (vA, vB, vC, vD, 8, 7, 0x698098D8),
    (vD, vA, vB, vC, 9, 12, 0x8B44F7AF),
    (vC, vD, vA, vB, 10, 17, 0xFFFF5BB1),
    (vB, vC, vD, vA, 11, 22, 0x895CD7BE),
    (vA, vB, vC, vD, 12, 7, 0x6B901122),
    (vD, vA, vB, vC, 13, 12, 0xFD987193),
    (vC, vD, vA, vB, 14, 17, 0xA679438E),
    (vB, vC, vD, vA, 15, 22, 0x49B40821)]"

definition md5_round2 :: "md5_op list" where
  "md5_round2 = [
    (vA, vB, vC, vD, 1, 5, 0xF61E2562),
    (vD, vA, vB, vC, 6, 9, 0xC040B340),
    (vC, vD, vA, vB, 11, 14, 0x265E5A51),
    (vB, vC, vD, vA, 0, 20, 0xE9B6C7AA),
    (vA, vB, vC, vD, 5, 5, 0xD62F105D),
    (vD, vA, vB, vC, 10, 9, 0x02441453),
    (vC, vD, vA, vB, 15, 14, 0xD8A1E681),
    (vB, vC, vD, vA, 4, 20, 0xE7D3FBC8),
    (vA, vB, vC, vD, 9, 5, 0x21E1CDE6),
    (vD, vA, vB, vC, 14, 9, 0xC33707D6),
    (vC, vD, vA, vB, 3, 14, 0xF4D50D87),
    (vB, vC, vD, vA, 8, 20, 0x455A14ED),
    (vA, vB, vC, vD, 13, 5, 0xA9E3E905),
    (vD, vA, vB, vC, 2, 9, 0xFCEFA3F8),
    (vC, vD, vA, vB, 7, 14, 0x676F02D9),
    (vB, vC, vD, vA, 12, 20, 0x8D2A4C8A)]"

definition md5_round3 :: "md5_op list" where
  "md5_round3 = [
    (vA, vB, vC, vD, 5, 4, 0xFFFA3942),
    (vD, vA, vB, vC, 8, 11, 0x8771F681),
    (vC, vD, vA, vB, 11, 16, 0x6D9D6122),
    (vB, vC, vD, vA, 14, 23, 0xFDE5380C),
    (vA, vB, vC, vD, 1, 4, 0xA4BEEA44),
    (vD, vA, vB, vC, 4, 11, 0x4BDECFA9),
    (vC, vD, vA, vB, 7, 16, 0xF6BB4B60),
    (vB, vC, vD, vA, 10, 23, 0xBEBFBC70),
    (vA, vB, vC, vD, 13, 4, 0x289B7EC6),
    (vD, vA, vB, vC, 0, 11, 0xEAA127FA),
    (vC, vD, vA, vB, 3, 16, 0xD4EF3085),
    (vB, vC, vD, vA, 6, 23, 0x04881D05),
    (vA, vB, vC, vD, 9, 4, 0xD9D4D039),
    (vD, vA, vB, vC, 12, 11, 0xE6DB99E5),
    (vC, vD, vA, vB, 15, 16, 0x1FA27CF8),
    (vB, vC, vD, vA, 2, 23, 0xC4AC5665)]"

definition md5_round4 :: "md5_op list" where
  "md5_round4 = [
    (vA, vB, vC, vD, 0, 6, 0xF4292244),
    (vD, vA, vB, vC, 7, 10, 0x432AFF97),
    (vC, vD, vA, vB, 14, 15, 0xAB9423A7),
    (vB, vC, vD, vA, 5, 21, 0xFC93A039),
    (vA, vB, vC, vD, 12, 6, 0x655B59C3),
    (vD, vA, vB, vC, 3, 10, 0x8F0CCC92),
    (vC, vD, vA, vB, 10, 15, 0xFFEFF47D),
    (vB, vC, vD, vA, 1, 21, 0x85845DD1),
    (vA, vB, vC, vD, 8, 6, 0x6FA87E4F),
    (vD, vA, vB, vC, 15, 10, 0xFE2CE6E0),
    (vC, vD, vA, vB, 6, 15, 0xA3014314),
    (vB, vC, vD, vA, 13, 21, 0x4E0811A1),
    (vA, vB, vC, vD, 4, 6, 0xF7537E82),
    (vD, vA, vB, vC, 11, 10, 0xBD3AF235),
    (vC, vD, vA, vB, 2, 15, 0x2AD7D2BB),
    (vB, vC, vD, vA, 9, 21, 0xEB86D391)]"

definition mbedtls_internal_md5_process :: "mbedtls_md5_context \<Rightarrow> u8 list \<Rightarrow> int \<times> mbedtls_md5_context" where
  "mbedtls_internal_md5_process ctx data =
     (let X = map (\<lambda>i. GET_UINT32_LE data (4 * i)) [0..<16];
          s = state ctx;
          v0 = (s ! 0, s ! 1, s ! 2, s ! 3);
          v1 = foldl (md5_P md5_F1 X) v0 md5_round1;
          v2 = foldl (md5_P md5_F2 X) v1 md5_round2;
          v3 = foldl (md5_P md5_F3 X) v2 md5_round3;
          v4 = foldl (md5_P md5_F4 X) v3 md5_round4
      in case v4 of (A, B, C, D) \<Rightarrow>
           (0, ctx\<lparr>state := s[0 := s ! 0 + A, 1 := s ! 1 + B, 2 := s ! 2 + C, 3 := s ! 3 + D]\<rparr>))"

definition mbedtls_md5_update_ret :: "mbedtls_md5_context \<Rightarrow> u8 list \<Rightarrow> int \<times> mbedtls_md5_context" where
  "mbedtls_md5_update_ret = md_update mbedtls_internal_md5_process"

definition md5_msglen :: "u32 \<Rightarrow> u32 \<Rightarrow> u8 list" where
  "md5_msglen high low = PUT_UINT32_LE low @ PUT_UINT32_LE high"

definition md5_output :: "mbedtls_md5_context \<Rightarrow> u8 list" where
  "md5_output ctx = PUT_UINT32_LE (state ctx ! 0) @ PUT_UINT32_LE (state ctx ! 1) @
     PUT_UINT32_LE (state ctx ! 2) @ PUT_UINT32_LE (state ctx ! 3)"

definition mbedtls_md5_finish_ret :: "mbedtls_md5_context \<Rightarrow> int \<times> mbedtls_md5_context \<times> u8 list" where
  "mbedtls_md5_finish_ret = md_finish mbedtls_md5_update_ret md5_msglen md5_output"

definition mbedtls_md5_ret :: "u8 list \<Rightarrow> int \<times> u8 list" where
  "mbedtls_md5_ret input =
     md_oneshot (mbedtls_md5_starts_ret mbedtls_md5_init) mbedtls_md5_update_ret mbedtls_md5_finish_ret input"

definition mbedtls_md5 :: "u8 list \<Rightarrow> u8 list" where
  "mbedtls_md5 input = snd (mbedtls_md5_ret input)"


section \<open>RFC 1321\<close>

definition rfc1321_f :: "nat \<Rightarrow> u32 \<Rightarrow> u32 \<Rightarrow> u32 \<Rightarrow> u32" where
  "rfc1321_f i x y z =
     (if i < 16 then (x AND y) OR (NOT x AND z)
      else if i < 32 then (x AND z) OR (y AND NOT z)
      else if i < 48 then x XOR y XOR z
      else y XOR (x OR NOT z))"

definition rfc1321_k :: "nat \<Rightarrow> nat" where
  "rfc1321_k i = (if i < 16 then i else if i < 32 then (5 * i + 1) mod 16
     else if i < 48 then (3 * i + 5) mod 16 else 7 * i mod 16)"

definition rfc1321_s :: "nat \<Rightarrow> nat" where
  "rfc1321_s i = [[7, 12, 17, 22], [5, 9, 14, 20], [4, 11, 16, 23], [6, 10, 15, 21]] ! (i div 16) ! (i mod 4)"

text \<open>The sixty-four constants, as the source tabulates them.\<close>

definition rfc1321_T :: "nat \<Rightarrow> u32" where
  "rfc1321_T i = (case (md5_round1 @ md5_round2 @ md5_round3 @ md5_round4) ! i of (_, _, _, _, _, _, t) \<Rightarrow> t)"

definition rfc1321_step :: "u32 list \<Rightarrow> md5_regs \<Rightarrow> nat \<Rightarrow> md5_regs" where
  "rfc1321_step X r i =
     (case r of (a, b, c, d) \<Rightarrow>
        (d, b + word_rotl (rfc1321_s i) (a + rfc1321_f i b c d + X ! rfc1321_k i + rfc1321_T i), b, c))"

definition le_words :: "u8 list \<Rightarrow> u32 list" where
  "le_words data = map (\<lambda>i. word_rcat (rev (take 4 (drop (4 * i) data)))) [0..<16]"

definition rfc1321_compress :: "u32 list \<Rightarrow> u8 list \<Rightarrow> u32 list" where
  "rfc1321_compress st data =
     (case foldl (rfc1321_step (le_words data)) (st ! 0, st ! 1, st ! 2, st ! 3) [0..<64] of
        (a, b, c, d) \<Rightarrow> [st ! 0 + a, st ! 1 + b, st ! 2 + c, st ! 3 + d])"

definition md5_iv :: "u32 list" where
  "md5_iv = [0x67452301, 0xEFCDAB89, 0x98BADCFE, 0x10325476]"

text \<open>The digest of a message: the four words of the final state, least significant byte first.\<close>

definition md5_digest :: "u32 list \<Rightarrow> u8 list" where
  "md5_digest st = concat (map PUT_UINT32_LE st)"

definition md5_spec :: "u8 list \<Rightarrow> u8 list" where
  "md5_spec m = md5_digest (md_spec rfc1321_compress md5_iv bit_count_le m)"


section \<open>Equivalence of the block function\<close>

lemma md5_S_rotl: "0 < n \<Longrightarrow> n < 32 \<Longrightarrow> md5_S x n = word_rotl n x"
  by (simp only: md5_S_def and_ones shifts_rotl)

lemma md5_F_rfc:
  "i < 16 \<Longrightarrow> md5_F1 = rfc1321_f i" "16 \<le> i \<Longrightarrow> i < 32 \<Longrightarrow> md5_F2 = rfc1321_f i"
  "32 \<le> i \<Longrightarrow> i < 48 \<Longrightarrow> md5_F3 = rfc1321_f i" "48 \<le> i \<Longrightarrow> md5_F4 = rfc1321_f i"
  by (auto intro!: ext bit_word_eqI
      simp: md5_F1_def md5_F2_def md5_F3_def md5_F4_def rfc1321_f_def bit_simps)

text \<open>The roles of the variables in step \<open>i\<close>, and the registers they hold.\<close>

definition md5_roles :: "nat \<Rightarrow> md5_var \<times> md5_var \<times> md5_var \<times> md5_var" where
  "md5_roles i = [(vA, vB, vC, vD), (vD, vA, vB, vC), (vC, vD, vA, vB), (vB, vC, vD, vA)] ! (i mod 4)"

definition md5_view :: "nat \<Rightarrow> md5_regs \<Rightarrow> md5_regs" where
  "md5_view i v = (case md5_roles i of (a, b, c, d) \<Rightarrow> (md5_get v a, md5_get v b, md5_get v c, md5_get v d))"

definition md5_op_at :: "nat \<Rightarrow> md5_op" where
  "md5_op_at i = (case md5_roles i of (a, b, c, d) \<Rightarrow> (a, b, c, d, rfc1321_k i, rfc1321_s i, rfc1321_T i))"

lemma md5_rounds:
  "md5_round1 = map md5_op_at [0..<16]" "md5_round2 = map md5_op_at [16..<32]"
  "md5_round3 = map md5_op_at [32..<48]" "md5_round4 = map md5_op_at [48..<64]"
  by code_simp+

lemma mod4_cases: "(i :: nat) mod 4 \<in> {0, 1, 2, 3}"
  by auto

lemma rfc1321_s_bounds: "i < 64 \<Longrightarrow> 0 < rfc1321_s i \<and> rfc1321_s i < 32"
proof -
  assume "i < 64"
  then have "i div 16 \<in> {0, 1, 2, 3}" by auto
  with mod4_cases [of i] show ?thesis by (elim insertE emptyE) (simp_all add: rfc1321_s_def)
qed

lemma md5_step:
  assumes "F = rfc1321_f i" "i < 64"
  shows "md5_view (Suc i) (md5_P F X v (md5_op_at i)) = rfc1321_step X (md5_view i v) i"
proof -
  have "md5_S x (rfc1321_s i) = word_rotl (rfc1321_s i) x" for x
    using rfc1321_s_bounds [OF assms(2)] md5_S_rotl by simp
  then show ?thesis
    using mod4_cases [of i] assms(1) 
    by (cases v; elim insertE emptyE) (simp_all add: md5_view_def md5_roles_def md5_op_at_def md5_P_def rfc1321_step_def
        mod_Suc Let_def algebra_simps)
qed

lemma md5_fold:
  assumes "a \<le> b" "b \<le> 64" "\<And>i. a \<le> i \<Longrightarrow> i < b \<Longrightarrow> F = rfc1321_f i"
  shows "md5_view b (foldl (md5_P F X) v (map md5_op_at [a..<b])) = foldl (rfc1321_step X) (md5_view a v) [a..<b]"
  using assms
proof (induction b)
  case (Suc b)
  then show ?case using md5_step [of F b X] by (cases "a = Suc b") simp_all
qed simp

lemma md5_process_eq:
  assumes "length (state ctx) = 4" "length data = 64"
  shows "mbedtls_internal_md5_process ctx data = (0, ctx\<lparr>state := rfc1321_compress (state ctx) data\<rparr>)"
proof -
  define X where "X = map (\<lambda>i. GET_UINT32_LE data (4 * i)) [0..<16]"
  have X: "X = le_words data"
    unfolding X_def le_words_def using assms(2) by (intro map_cong refl GET_UINT32_LE_word) auto
  obtain a b c d where s: "state ctx = [a, b, c, d]"
    using assms(1) by (auto simp: length_Suc_conv eval_nat_numeral)
  define v0 where "v0 = (a, b, c, d)"
  define v1 where "v1 = foldl (md5_P md5_F1 X) v0 md5_round1"
  define v2 where "v2 = foldl (md5_P md5_F2 X) v1 md5_round2"
  define v3 where "v3 = foldl (md5_P md5_F3 X) v2 md5_round3"
  define v4 where "v4 = foldl (md5_P md5_F4 X) v3 md5_round4"
  have upt: "[0..<64] = [0..<16] @ [16..<32] @ [32..<48] @ [48..<64]"
    by (simp add: upt_add_eq_append [of _ _ 16, simplified] upt_rec)
  have "md5_view 64 v4 = foldl (rfc1321_step X) (md5_view 0 v0) [0..<64]"
    unfolding upt foldl_append v4_def v3_def v2_def v1_def md5_rounds
    by (simp only: md5_fold md5_F_rfc)
  moreover have "md5_view 64 v4 = v4" "md5_view 0 v0 = v0"
    by (cases v4, simp_all add: md5_view_def md5_roles_def v0_def)
  ultimately have "foldl (rfc1321_step X) v0 [0..<64] = v4" by simp
  then show ?thesis
    by (simp add: mbedtls_internal_md5_process_def Let_def s rfc1321_compress_def X [symmetric] X_def [symmetric]
        v0_def [symmetric] v1_def [symmetric] v2_def [symmetric] v3_def [symmetric] v4_def [symmetric]
        split: prod.split)
qed


section \<open>The streaming interface\<close>

interpretation md5: md_digest mbedtls_internal_md5_process rfc1321_compress 4 md5_msglen bit_count_le
  md5_output "\<lambda>_. md5_digest"
proof unfold_locales
  show "length (rfc1321_compress st data) = 4" for st data
    by (simp add: rfc1321_compress_def split: prod.split)
  show "md5_msglen (drop_bit 29 (of_nat n) OR push_bit 3 (of_nat (n div 2 ^ 32))) (push_bit 3 (of_nat n)) =
    bit_count_le n" for n
    unfolding md5_msglen_def by (rule msglen_le)
  show "md5_output ctx = md5_digest (state ctx)" if "length (state ctx) = 4" for ctx
    using that by (auto simp: md5_output_def md5_digest_def length_Suc_conv eval_nat_numeral)
qed (simp_all add: md5_process_eq)

lemma md5_started:
  "mbedtls_md5_starts_ret mbedtls_md5_init =
     (0, \<lparr>total0 = 0, total1 = 0, state = md5_iv, buffer = replicate 64 0\<rparr>)"
  by (simp add: mbedtls_md5_starts_ret_def mbedtls_md5_init_def md5_iv_def eval_nat_numeral)

lemma md5_oneshot:
  assumes "length input < 2 ^ 32"
  shows "mbedtls_md5_ret input = (0, md5_spec input)"
proof -
  let ?ctx = "\<lparr>total0 = 0, total1 = 0, state = md5_iv, buffer = replicate 64 0\<rparr>"
  have "length md5_iv = 4" "total0 ?ctx = 0" "total1 ?ctx = 0" "state ?ctx = md5_iv" "length (buffer ?ctx) = 64"
    by (simp_all add: md5_iv_def)
  from md5.oneshot_correct [OF this assms] show ?thesis
    unfolding mbedtls_md5_ret_def md5_started mbedtls_md5_update_ret_def mbedtls_md5_finish_ret_def md5_spec_def .
qed


section \<open>Properties\<close>





text \<open>
  The one-call function returns 0 and the MD5 digest for every input of less than 4 GiB. For the
  input \<open>abc\<close> the digest is the value of the self test's table.
\<close>

theorem md5_ret_correct:
  assumes "length input < 2 ^ 32"
  shows "mbedtls_md5_ret input = (0, md5_spec input)"
  using assms by (rule md5_oneshot)

theorem md5_ret_correct_witness:
  "md5_spec [0x61, 0x62, 0x63] =
     [0x90, 0x01, 0x50, 0x98, 0x3C, 0xD2, 0x4F, 0xB0, 0xD6, 0x96, 0x3F, 0x7D, 0x28, 0xE1, 0x7F, 0x72]"
proof -
  have "mbedtls_md5_ret [0x61, 0x62, 0x63] =
     (0, [0x90, 0x01, 0x50, 0x98, 0x3C, 0xD2, 0x4F, 0xB0, 0xD6, 0x96, 0x3F, 0x7D, 0x28, 0xE1, 0x7F, 0x72])"
    by code_simp
  then show ?thesis using md5_ret_correct [of "[0x61, 0x62, 0x63]"] by simp
qed

text \<open>
  An input of exactly 4 GiB in one call is not counted: \<open>mbedtls_md5_update_ret\<close> adds only the low 32
  bits of \<open>ilen\<close> to its 64-bit counter, so that \<open>mbedtls_md5_finish_ret\<close> would encode a wrong length.
\<close>

theorem md5_update_counter_4GiB:
  assumes "length (state ctx) = 4" "length (buffer ctx) = 64" "length input = 2 ^ 32"
  shows "total0 (snd (mbedtls_md5_update_ret ctx input)) = total0 ctx \<and>
    total1 (snd (mbedtls_md5_update_ret ctx input)) = total1 ctx"
proof -
  have "(2 :: u32) ^ 32 = 0" by simp
  then have "(of_nat (length input) :: u32) = 0" unfolding assms(3) by simp
  then have "md_count ctx (length input) = ctx\<lparr>total0 := total0 ctx AND 0xFFFFFFFF\<rparr>"
    by (simp add: md_count_def)
  moreover have "input \<noteq> []" using assms(3) by auto
  ultimately show ?thesis
    using md5.update_total [OF assms(1,2)] unfolding mbedtls_md5_update_ret_def and_ones by simp
qed

theorem md5_update_counter_4GiB_witness:
  "\<exists>input. length input = 2 ^ 32 \<and> total0 (snd (mbedtls_md5_update_ret mbedtls_md5_init input)) = 0"
proof -
  have "length (state mbedtls_md5_init) = 4" "length (buffer mbedtls_md5_init) = 64" "total0 mbedtls_md5_init = 0"
    by (simp_all add: mbedtls_md5_init_def)
  with md5_update_counter_4GiB [OF _ _ length_replicate [of "2 ^ 32" 0], of mbedtls_md5_init]
  show ?thesis by (intro exI [of _ "replicate (2 ^ 32) 0"]) (simp only: length_replicate simp_thms)
qed

end
