(* ===== verification/Sha1.thy ===== *)
theory Sha1
  imports Md_Stream
begin

text \<open>
  \<open>src/mwnet_mt/crypto/sha1.c\<close>. The block function is written as the source has it: eighty calls of
  the macro \<open>P\<close> on rotating variables, with the message schedule kept in a circular array of
  sixteen words that the macro \<open>R\<close> overwrites. It is shown equal to the description of FIPS 180
  with its schedule of eighty words.
\<close>

section \<open>The code\<close>

type_synonym mbedtls_sha1_context = md_context

definition mbedtls_sha1_init :: mbedtls_sha1_context where
  "mbedtls_sha1_init = \<lparr>total0 = 0, total1 = 0, state = replicate 5 0, buffer = replicate 64 0\<rparr>"

definition mbedtls_sha1_free :: "mbedtls_sha1_context option \<Rightarrow> mbedtls_sha1_context option" where
  "mbedtls_sha1_free ctx = map_option (\<lambda>_. mbedtls_sha1_init) ctx"

definition mbedtls_sha1_clone :: "mbedtls_sha1_context \<Rightarrow> mbedtls_sha1_context" where
  "mbedtls_sha1_clone src = src"

definition mbedtls_sha1_starts_ret :: "mbedtls_sha1_context \<Rightarrow> int \<times> mbedtls_sha1_context" where
  "mbedtls_sha1_starts_ret ctx =
     (0, ctx\<lparr>total0 := 0, total1 := 0,
       state := (state ctx)[0 := 0x67452301, 1 := 0xEFCDAB89, 2 := 0x98BADCFE, 3 := 0x10325476, 4 := 0xC3D2E1F0]\<rparr>)"

text \<open>The local variables, and the two forms of the last argument of \<open>P\<close>: \<open>W[t]\<close> and \<open>R(t)\<close>.\<close>

datatype sha1_var = sA | sB | sC | sD | sE

datatype sha1_arg = W_at nat | R_at nat

type_synonym sha1_op = "sha1_var \<times> sha1_var \<times> sha1_var \<times> sha1_var \<times> sha1_var \<times> sha1_arg"

type_synonym sha1_regs = "u32 \<times> u32 \<times> u32 \<times> u32 \<times> u32"

fun sha1_get :: "sha1_regs \<Rightarrow> sha1_var \<Rightarrow> u32" where
  "sha1_get (a, b, c, d, e) sA = a"
| "sha1_get (a, b, c, d, e) sB = b"
| "sha1_get (a, b, c, d, e) sC = c"
| "sha1_get (a, b, c, d, e) sD = d"
| "sha1_get (a, b, c, d, e) sE = e"

fun sha1_set :: "sha1_regs \<Rightarrow> sha1_var \<Rightarrow> u32 \<Rightarrow> sha1_regs" where
  "sha1_set (a, b, c, d, e) sA x = (x, b, c, d, e)"
| "sha1_set (a, b, c, d, e) sB x = (a, x, c, d, e)"
| "sha1_set (a, b, c, d, e) sC x = (a, b, x, d, e)"
| "sha1_set (a, b, c, d, e) sD x = (a, b, c, x, e)"
| "sha1_set (a, b, c, d, e) sE x = (a, b, c, d, x)"

definition sha1_S :: "u32 \<Rightarrow> nat \<Rightarrow> u32" where
  "sha1_S x n = push_bit n x OR drop_bit (32 - n) (x AND 0xFFFFFFFF)"

text \<open>\<open>R(t)\<close> stores the new word of the schedule and is its value.\<close>

definition sha1_R :: "u32 list \<Rightarrow> nat \<Rightarrow> u32 list \<times> u32" where
  "sha1_R W t =
     (let temp = W ! ((t - 3) AND 0x0F) XOR W ! ((t - 8) AND 0x0F) XOR W ! ((t - 14) AND 0x0F) XOR W ! (t AND 0x0F)
      in (W[t AND 0x0F := sha1_S temp 1], sha1_S temp 1))"

fun sha1_arg_value :: "u32 list \<Rightarrow> sha1_arg \<Rightarrow> u32 list \<times> u32" where
  "sha1_arg_value W (W_at t) = (W, W ! t)"
| "sha1_arg_value W (R_at t) = sha1_R W t"

definition sha1_P :: "(u32 \<Rightarrow> u32 \<Rightarrow> u32 \<Rightarrow> u32) \<Rightarrow> u32 \<Rightarrow> u32 list \<times> sha1_regs \<Rightarrow> sha1_op \<Rightarrow> u32 list \<times> sha1_regs" where
  "sha1_P F K w op = (case w of (W, v) \<Rightarrow> case op of (a, b, c, d, e, x) \<Rightarrow>
     (case sha1_arg_value W x of (W', xv) \<Rightarrow>
        let v1 = sha1_set v e (sha1_get v e + (sha1_S (sha1_get v a) 5 +
                   F (sha1_get v b) (sha1_get v c) (sha1_get v d) + K + xv))
        in (W', sha1_set v1 b (sha1_S (sha1_get v1 b) 30))))"

definition sha1_F1 :: "u32 \<Rightarrow> u32 \<Rightarrow> u32 \<Rightarrow> u32" where
  "sha1_F1 x y z = z XOR (x AND (y XOR z))"

definition sha1_F2 :: "u32 \<Rightarrow> u32 \<Rightarrow> u32 \<Rightarrow> u32" where
  "sha1_F2 x y z = x XOR y XOR z"

definition sha1_F3 :: "u32 \<Rightarrow> u32 \<Rightarrow> u32 \<Rightarrow> u32" where
  "sha1_F3 x y z = (x AND y) OR (z AND (x OR y))"

definition sha1_round1 :: "sha1_op list" where
  "sha1_round1 = [
    (sA, sB, sC, sD, sE, W_at 0), (sE, sA, sB, sC, sD, W_at 1),
    (sD, sE, sA, sB, sC, W_at 2), (sC, sD, sE, sA, sB, W_at 3),
    (sB, sC, sD, sE, sA, W_at 4), (sA, sB, sC, sD, sE, W_at 5),
    (sE, sA, sB, sC, sD, W_at 6), (sD, sE, sA, sB, sC, W_at 7),
    (sC, sD, sE, sA, sB, W_at 8), (sB, sC, sD, sE, sA, W_at 9),
    (sA, sB, sC, sD, sE, W_at 10), (sE, sA, sB, sC, sD, W_at 11),
    (sD, sE, sA, sB, sC, W_at 12), (sC, sD, sE, sA, sB, W_at 13),
    (sB, sC, sD, sE, sA, W_at 14), (sA, sB, sC, sD, sE, W_at 15),
    (sE, sA, sB, sC, sD, R_at 16), (sD, sE, sA, sB, sC, R_at 17),
    (sC, sD, sE, sA, sB, R_at 18), (sB, sC, sD, sE, sA, R_at 19)]"

definition sha1_round2 :: "sha1_op list" where
  "sha1_round2 = [
    (sA, sB, sC, sD, sE, R_at 20), (sE, sA, sB, sC, sD, R_at 21),
    (sD, sE, sA, sB, sC, R_at 22), (sC, sD, sE, sA, sB, R_at 23),
    (sB, sC, sD, sE, sA, R_at 24), (sA, sB, sC, sD, sE, R_at 25),
    (sE, sA, sB, sC, sD, R_at 26), (sD, sE, sA, sB, sC, R_at 27),
    (sC, sD, sE, sA, sB, R_at 28), (sB, sC, sD, sE, sA, R_at 29),
    (sA, sB, sC, sD, sE, R_at 30), (sE, sA, sB, sC, sD, R_at 31),
    (sD, sE, sA, sB, sC, R_at 32), (sC, sD, sE, sA, sB, R_at 33),
    (sB, sC, sD, sE, sA, R_at 34), (sA, sB, sC, sD, sE, R_at 35),
    (sE, sA, sB, sC, sD, R_at 36), (sD, sE, sA, sB, sC, R_at 37),
    (sC, sD, sE, sA, sB, R_at 38), (sB, sC, sD, sE, sA, R_at 39)]"

definition sha1_round3 :: "sha1_op list" where
  "sha1_round3 = [
    (sA, sB, sC, sD, sE, R_at 40), (sE, sA, sB, sC, sD, R_at 41),
    (sD, sE, sA, sB, sC, R_at 42), (sC, sD, sE, sA, sB, R_at 43),
    (sB, sC, sD, sE, sA, R_at 44), (sA, sB, sC, sD, sE, R_at 45),
    (sE, sA, sB, sC, sD, R_at 46), (sD, sE, sA, sB, sC, R_at 47),
    (sC, sD, sE, sA, sB, R_at 48), (sB, sC, sD, sE, sA, R_at 49),
    (sA, sB, sC, sD, sE, R_at 50), (sE, sA, sB, sC, sD, R_at 51),
    (sD, sE, sA, sB, sC, R_at 52), (sC, sD, sE, sA, sB, R_at 53),
    (sB, sC, sD, sE, sA, R_at 54), (sA, sB, sC, sD, sE, R_at 55),
    (sE, sA, sB, sC, sD, R_at 56), (sD, sE, sA, sB, sC, R_at 57),
    (sC, sD, sE, sA, sB, R_at 58), (sB, sC, sD, sE, sA, R_at 59)]"

definition sha1_round4 :: "sha1_op list" where
  "sha1_round4 = [
    (sA, sB, sC, sD, sE, R_at 60), (sE, sA, sB, sC, sD, R_at 61),
    (sD, sE, sA, sB, sC, R_at 62), (sC, sD, sE, sA, sB, R_at 63),
    (sB, sC, sD, sE, sA, R_at 64), (sA, sB, sC, sD, sE, R_at 65),
    (sE, sA, sB, sC, sD, R_at 66), (sD, sE, sA, sB, sC, R_at 67),
    (sC, sD, sE, sA, sB, R_at 68), (sB, sC, sD, sE, sA, R_at 69),
    (sA, sB, sC, sD, sE, R_at 70), (sE, sA, sB, sC, sD, R_at 71),
    (sD, sE, sA, sB, sC, R_at 72), (sC, sD, sE, sA, sB, R_at 73),
    (sB, sC, sD, sE, sA, R_at 74), (sA, sB, sC, sD, sE, R_at 75),
    (sE, sA, sB, sC, sD, R_at 76), (sD, sE, sA, sB, sC, R_at 77),
    (sC, sD, sE, sA, sB, R_at 78), (sB, sC, sD, sE, sA, R_at 79)]"

definition mbedtls_internal_sha1_process :: "mbedtls_sha1_context \<Rightarrow> u8 list \<Rightarrow> int \<times> mbedtls_sha1_context" where
  "mbedtls_internal_sha1_process ctx data =
     (let W = map (\<lambda>i. GET_UINT32_BE data (4 * i)) [0..<16];
          s = state ctx;
          w0 = (W, s ! 0, s ! 1, s ! 2, s ! 3, s ! 4);
          w1 = foldl (sha1_P sha1_F1 0x5A827999) w0 sha1_round1;
          w2 = foldl (sha1_P sha1_F2 0x6ED9EBA1) w1 sha1_round2;
          w3 = foldl (sha1_P sha1_F3 0x8F1BBCDC) w2 sha1_round3;
          w4 = foldl (sha1_P sha1_F2 0xCA62C1D6) w3 sha1_round4
      in case w4 of (_, A, B, C, D, E) \<Rightarrow>
           (0, ctx\<lparr>state := s[0 := s ! 0 + A, 1 := s ! 1 + B, 2 := s ! 2 + C, 3 := s ! 3 + D, 4 := s ! 4 + E]\<rparr>))"

definition mbedtls_sha1_update_ret :: "mbedtls_sha1_context \<Rightarrow> u8 list \<Rightarrow> int \<times> mbedtls_sha1_context" where
  "mbedtls_sha1_update_ret = md_update mbedtls_internal_sha1_process"

definition sha1_msglen :: "u32 \<Rightarrow> u32 \<Rightarrow> u8 list" where
  "sha1_msglen high low = PUT_UINT32_BE high @ PUT_UINT32_BE low"

definition sha1_output :: "mbedtls_sha1_context \<Rightarrow> u8 list" where
  "sha1_output ctx = PUT_UINT32_BE (state ctx ! 0) @ PUT_UINT32_BE (state ctx ! 1) @
     PUT_UINT32_BE (state ctx ! 2) @ PUT_UINT32_BE (state ctx ! 3) @ PUT_UINT32_BE (state ctx ! 4)"

definition mbedtls_sha1_finish_ret :: "mbedtls_sha1_context \<Rightarrow> int \<times> mbedtls_sha1_context \<times> u8 list" where
  "mbedtls_sha1_finish_ret = md_finish mbedtls_sha1_update_ret sha1_msglen sha1_output"

definition mbedtls_sha1_ret :: "u8 list \<Rightarrow> int \<times> u8 list" where
  "mbedtls_sha1_ret input =
     md_oneshot (mbedtls_sha1_starts_ret mbedtls_sha1_init) mbedtls_sha1_update_ret mbedtls_sha1_finish_ret input"

definition mbedtls_sha1 :: "u8 list \<Rightarrow> u8 list" where
  "mbedtls_sha1 input = snd (mbedtls_sha1_ret input)"


section \<open>FIPS 180\<close>

definition sha1_f :: "nat \<Rightarrow> u32 \<Rightarrow> u32 \<Rightarrow> u32 \<Rightarrow> u32" where
  "sha1_f t x y z =
     (if t < 20 then (x AND y) XOR (NOT x AND z)
      else if 40 \<le> t \<and> t < 60 then (x AND y) XOR (x AND z) XOR (y AND z)
      else x XOR y XOR z)"

definition sha1_K :: "nat \<Rightarrow> u32" where
  "sha1_K t = [0x5A827999, 0x6ED9EBA1, 0x8F1BBCDC, 0xCA62C1D6] ! (t div 20)"

text \<open>The message schedule of a block.\<close>

fun sha1_schedule :: "u8 list \<Rightarrow> nat \<Rightarrow> u32" where
  "sha1_schedule data t =
     (if t < 16 then word_rcat (take 4 (drop (4 * t) data))
      else word_rotl 1 (sha1_schedule data (t - 3) XOR sha1_schedule data (t - 8) XOR
             sha1_schedule data (t - 14) XOR sha1_schedule data (t - 16)))"

declare sha1_schedule.simps [simp del]

definition fips_sha1_step :: "u8 list \<Rightarrow> sha1_regs \<Rightarrow> nat \<Rightarrow> sha1_regs" where
  "fips_sha1_step data r t =
     (case r of (a, b, c, d, e) \<Rightarrow>
        (word_rotl 5 a + sha1_f t b c d + e + sha1_K t + sha1_schedule data t, a, word_rotl 30 b, c, d))"

definition fips_sha1_compress :: "u32 list \<Rightarrow> u8 list \<Rightarrow> u32 list" where
  "fips_sha1_compress st data =
     (case foldl (fips_sha1_step data) (st ! 0, st ! 1, st ! 2, st ! 3, st ! 4) [0..<80] of
        (a, b, c, d, e) \<Rightarrow> [st ! 0 + a, st ! 1 + b, st ! 2 + c, st ! 3 + d, st ! 4 + e])"

definition sha1_iv :: "u32 list" where
  "sha1_iv = [0x67452301, 0xEFCDAB89, 0x98BADCFE, 0x10325476, 0xC3D2E1F0]"

definition sha1_digest :: "u32 list \<Rightarrow> u8 list" where
  "sha1_digest st = concat (map PUT_UINT32_BE st)"

definition sha1_spec :: "u8 list \<Rightarrow> u8 list" where
  "sha1_spec m = sha1_digest (md_spec fips_sha1_compress sha1_iv (rev \<circ> bit_count_le) m)"


section \<open>Equivalence of the block function\<close>

lemma sha1_S_rotl: "0 < n \<Longrightarrow> n < 32 \<Longrightarrow> sha1_S x n = word_rotl n x"
  by (simp only: sha1_S_def and_ones shifts_rotl)

lemma sha1_F_fips:
  "t < 20 \<Longrightarrow> sha1_F1 = sha1_f t" "20 \<le> t \<Longrightarrow> t < 40 \<Longrightarrow> sha1_F2 = sha1_f t"
  "40 \<le> t \<Longrightarrow> t < 60 \<Longrightarrow> sha1_F3 = sha1_f t" "60 \<le> t \<Longrightarrow> sha1_F2 = sha1_f t"
  by (auto intro!: ext bit_word_eqI simp: sha1_F1_def sha1_F2_def sha1_F3_def sha1_f_def bit_simps)

lemma sha1_K_values:
  "t < 20 \<Longrightarrow> sha1_K t = 0x5A827999" "20 \<le> t \<Longrightarrow> t < 40 \<Longrightarrow> sha1_K t = 0x6ED9EBA1"
  "40 \<le> t \<Longrightarrow> t < 60 \<Longrightarrow> sha1_K t = 0x8F1BBCDC" "60 \<le> t \<Longrightarrow> t < 80 \<Longrightarrow> sha1_K t = 0xCA62C1D6"
  by (simp_all add: sha1_K_def div_nat_eqI [of 1] div_nat_eqI [of 2] div_nat_eqI [of 3])

definition sha1_roles :: "nat \<Rightarrow> sha1_var list" where
  "sha1_roles t = [[sA, sB, sC, sD, sE], [sE, sA, sB, sC, sD], [sD, sE, sA, sB, sC],
     [sC, sD, sE, sA, sB], [sB, sC, sD, sE, sA]] ! (t mod 5)"

definition sha1_view :: "nat \<Rightarrow> sha1_regs \<Rightarrow> sha1_regs" where
  "sha1_view t v = (let r = sha1_roles t in
     (sha1_get v (r ! 0), sha1_get v (r ! 1), sha1_get v (r ! 2), sha1_get v (r ! 3), sha1_get v (r ! 4)))"

definition sha1_op_at :: "nat \<Rightarrow> sha1_op" where
  "sha1_op_at t = (let r = sha1_roles t in
     (r ! 0, r ! 1, r ! 2, r ! 3, r ! 4, if t < 16 then W_at t else R_at t))"

lemma sha1_rounds:
  "sha1_round1 = map sha1_op_at [0..<20]" "sha1_round2 = map sha1_op_at [20..<40]"
  "sha1_round3 = map sha1_op_at [40..<60]" "sha1_round4 = map sha1_op_at [60..<80]"
  by code_simp+

lemma mod5_cases: "(i :: nat) mod 5 \<in> {0, 1, 2, 3, 4}"
  by auto

text \<open>The sixteen words of the array are the last sixteen of the schedule.\<close>

definition sha1_window :: "u8 list \<Rightarrow> nat \<Rightarrow> u32 list \<Rightarrow> bool" where
  "sha1_window data t W \<longleftrightarrow> length W = 16 \<and>
     (\<forall>j. (j < 16 \<or> j < t) \<longrightarrow> t \<le> j + 16 \<longrightarrow> W ! (j mod 16) = sha1_schedule data j)"

lemma and_15: "(n :: nat) AND 0x0F = n mod 16"
proof -
  have "(0x0F :: nat) = mask 4" by (simp add: mask_eq_exp_minus_1)
  then show ?thesis by (simp only: take_bit_eq_mask [symmetric] take_bit_eq_mod) simp
qed

lemma sha1_window_step:
  assumes "sha1_window data t W" "sha1_arg_value W (if t < 16 then W_at t else R_at t) = (W', x)"
  shows "sha1_window data (Suc t) W'" "x = sha1_schedule data t"
proof -
  have w: "length W = 16" "\<And>j. (j < 16 \<or> j < t) \<Longrightarrow> t \<le> j + 16 \<Longrightarrow> W ! (j mod 16) = sha1_schedule data j"
    using assms(1) by (auto simp: sha1_window_def)
  have "sha1_window data (Suc t) W' \<and> x = sha1_schedule data t"
  proof (cases "t < 16")
    case True
    have "W ! j = sha1_schedule data j" if "j < 16" for j using w(2) [of j] True that by simp
    with assms(2) w(1) True show ?thesis by (auto simp: sha1_window_def)
  next
    case False
    define y where "y = sha1_schedule data t"
    have "W ! ((t - 3) mod 16) = sha1_schedule data (t - 3)" "W ! ((t - 8) mod 16) = sha1_schedule data (t - 8)"
      "W ! ((t - 14) mod 16) = sha1_schedule data (t - 14)" "W ! ((t - 16) mod 16) = sha1_schedule data (t - 16)"
      using False by (auto intro!: w(2))
    moreover have "(t - 16) mod 16 = t mod 16" using False by (simp add: le_mod_geq)
    moreover have "y = word_rotl 1 (sha1_schedule data (t - 3) XOR sha1_schedule data (t - 8) XOR
        sha1_schedule data (t - 14) XOR sha1_schedule data (t - 16))"
      unfolding y_def using False by (subst sha1_schedule.simps) simp
    ultimately have r: "W' = W[t mod 16 := y]" "x = y"
      using assms(2) False by (auto simp: sha1_R_def and_15 sha1_S_rotl Let_def)
    have "W' ! (j mod 16) = sha1_schedule data j" if "j < Suc t" "Suc t \<le> j + 16" for j
    proof (cases "j = t")
      case False
      then have "0 < t - j" "t - j < 16" using that by auto
      then have "\<not> 16 dvd t - j" by (rule nat_dvd_not_less)
      then have "j mod 16 \<noteq> t mod 16" using that mod_eq_dvd_iff_nat [of j t 16] by auto
      with False that r(1) w(2) [of j] show ?thesis by simp
    qed (simp add: r(1) w(1) y_def)
    then have "W' ! (j mod 16) = sha1_schedule data j" if "j < 16 \<or> j < Suc t" "Suc t \<le> j + 16" for j
      using that False by (metis leI less_le_trans less_SucI)
    with r w(1) show ?thesis by (simp add: sha1_window_def y_def)
  qed
  then show "sha1_window data (Suc t) W'" "x = sha1_schedule data t" by blast+
qed

text \<open>The simulation: the variables of the code before step \<open>t\<close> and the registers of the standard.\<close>

definition sha1_sim :: "u8 list \<Rightarrow> nat \<Rightarrow> u32 list \<times> sha1_regs \<Rightarrow> sha1_regs \<Rightarrow> bool" where
  "sha1_sim data t w r \<longleftrightarrow> sha1_window data t (fst w) \<and> sha1_view t (snd w) = r"

lemma sha1_step:
  assumes "F = sha1_f t" "K = sha1_K t" "sha1_sim data t w r"
  shows "sha1_sim data (Suc t) (sha1_P F K w (sha1_op_at t)) (fips_sha1_step data r t)"
proof -
  obtain W a b c d e where w: "w = (W, a, b, c, d, e)" by (cases w) auto
  obtain W' x where x: "sha1_arg_value W (if t < 16 then W_at t else R_at t) = (W', x)" by fastforce
  have win: "sha1_window data (Suc t) W'" "x = sha1_schedule data t"
    using assms(3) w sha1_window_step [OF _ x] by (auto simp: sha1_sim_def)
  have "sha1_view t (a, b, c, d, e) = r" using assms(3) w by (simp add: sha1_sim_def)
  with mod5_cases [of t] x win show ?thesis
    by (elim insertE emptyE) (auto simp: w sha1_sim_def sha1_P_def sha1_op_at_def sha1_view_def sha1_roles_def
        fips_sha1_step_def Let_def mod_Suc sha1_S_rotl assms(1,2) algebra_simps)
qed

lemma sha1_fold:
  assumes "a \<le> b" "\<And>t. a \<le> t \<Longrightarrow> t < b \<Longrightarrow> F = sha1_f t \<and> K = sha1_K t" "sha1_sim data a w r"
  shows "sha1_sim data b (foldl (sha1_P F K) w (map sha1_op_at [a..<b])) (foldl (fips_sha1_step data) r [a..<b])"
  using assms(1,2)
proof (induction b)
  case (Suc b)
  show ?case
  proof (cases "a = Suc b")
    case False
    with Suc.prems have b: "F = sha1_f b" "K = sha1_K b" "a \<le> b" by auto
    have "sha1_sim data b (foldl (sha1_P F K) w (map sha1_op_at [a..<b])) (foldl (fips_sha1_step data) r [a..<b])"
      by (rule Suc.IH [OF b(3)]) (rule Suc.prems(2), auto)
    from sha1_step [OF b(1,2) this] b(3) show ?thesis by simp
  qed (use assms(3) in simp)
qed (use assms(3) in simp)

lemma sha1_process_eq:
  assumes "length (state ctx) = 5" "length data = 64"
  shows "mbedtls_internal_sha1_process ctx data = (0, ctx\<lparr>state := fips_sha1_compress (state ctx) data\<rparr>)"
proof -
  define W where "W = map (\<lambda>i. GET_UINT32_BE data (4 * i)) [0..<16]"
  obtain a b c d e where s: "state ctx = [a, b, c, d, e]"
    using assms(1) by (auto simp: length_Suc_conv eval_nat_numeral)
  have "W ! j = sha1_schedule data j" if "j < 16" for j
    using that assms(2) by (simp add: W_def GET_UINT32_BE_word sha1_schedule.simps [of data j])
  then have w0: "sha1_sim data 0 (W, a, b, c, d, e) (a, b, c, d, e)"
    by (simp add: sha1_sim_def sha1_window_def W_def sha1_view_def sha1_roles_def)
  define w1 where "w1 = foldl (sha1_P sha1_F1 0x5A827999) (W, a, b, c, d, e) sha1_round1"
  define w2 where "w2 = foldl (sha1_P sha1_F2 0x6ED9EBA1) w1 sha1_round2"
  define w3 where "w3 = foldl (sha1_P sha1_F3 0x8F1BBCDC) w2 sha1_round3"
  define w4 where "w4 = foldl (sha1_P sha1_F2 0xCA62C1D6) w3 sha1_round4"
  have "sha1_sim data 20 w1 (foldl (fips_sha1_step data) (a, b, c, d, e) [0..<20])"
    unfolding w1_def sha1_rounds using w0 by (rule sha1_fold [rotated 2]) (simp_all add: sha1_F_fips sha1_K_values)
  then have "sha1_sim data 40 w2 (foldl (fips_sha1_step data) (foldl (fips_sha1_step data) (a, b, c, d, e) [0..<20]) [20..<40])"
    unfolding w2_def sha1_rounds by (rule sha1_fold [rotated 2]) (simp_all add: sha1_F_fips sha1_K_values)
  then have "sha1_sim data 60 w3 (foldl (fips_sha1_step data) (foldl (fips_sha1_step data) (foldl (fips_sha1_step data)
      (a, b, c, d, e) [0..<20]) [20..<40]) [40..<60])"
    unfolding w3_def sha1_rounds by (rule sha1_fold [rotated 2]) (simp_all add: sha1_F_fips sha1_K_values)
  then have "sha1_sim data 80 w4 (foldl (fips_sha1_step data) (foldl (fips_sha1_step data) (foldl (fips_sha1_step data)
      (foldl (fips_sha1_step data) (a, b, c, d, e) [0..<20]) [20..<40]) [40..<60]) [60..<80])"
    unfolding w4_def sha1_rounds by (rule sha1_fold [rotated 2]) (simp_all add: sha1_F_fips sha1_K_values)
  then have "sha1_sim data 80 w4 (foldl (fips_sha1_step data) (a, b, c, d, e) ([0..<20] @ [20..<40] @ [40..<60] @ [60..<80]))"
    by (simp only: foldl_append)
  moreover have "[0..<20] @ [20..<40] @ [40..<60] @ [60..<80] = [0..<80]" by code_simp
  ultimately have "sha1_sim data 80 w4 (foldl (fips_sha1_step data) (a, b, c, d, e) [0..<80])" by (simp only:)
  moreover have "sha1_sim data 80 w4 r \<longleftrightarrow> sha1_window data 80 (fst w4) \<and> snd w4 = r" for r
    by (cases w4) (simp add: sha1_sim_def sha1_view_def sha1_roles_def)
  ultimately have fin: "foldl (fips_sha1_step data) (a, b, c, d, e) [0..<80] = snd w4" by (simp only:)
  have "fips_sha1_compress (state ctx) data = (case snd w4 of (A, B, C, D, E) \<Rightarrow> [a + A, b + B, c + C, d + D, e + E])"
    unfolding s fips_sha1_compress_def by (simp add: fin split: prod.split del: upt_Suc upt.simps)
  then show ?thesis
    by (simp add: mbedtls_internal_sha1_process_def Let_def s W_def [symmetric] w1_def [symmetric] w2_def [symmetric] w3_def [symmetric] w4_def [symmetric] split: prod.split)
qed


section \<open>The streaming interface\<close>

interpretation sha1: md_digest mbedtls_internal_sha1_process fips_sha1_compress 5 sha1_msglen "rev \<circ> bit_count_le"
  sha1_output "\<lambda>_. sha1_digest"
proof unfold_locales
  show "length (fips_sha1_compress st data) = 5" for st data
    by (simp add: fips_sha1_compress_def split: prod.split)
  show "sha1_msglen (drop_bit 29 (of_nat n) OR push_bit 3 (of_nat (n div 2 ^ 32))) (push_bit 3 (of_nat n)) =
    (rev \<circ> bit_count_le) n" for n
    unfolding sha1_msglen_def comp_def by (rule msglen_be)
  show "sha1_output ctx = sha1_digest (state ctx)" if "length (state ctx) = 5" for ctx
    using that by (auto simp: sha1_output_def sha1_digest_def length_Suc_conv eval_nat_numeral)
qed (simp_all add: sha1_process_eq)

lemma sha1_started:
  "mbedtls_sha1_starts_ret mbedtls_sha1_init =
     (0, \<lparr>total0 = 0, total1 = 0, state = sha1_iv, buffer = replicate 64 0\<rparr>)"
  by (simp add: mbedtls_sha1_starts_ret_def mbedtls_sha1_init_def sha1_iv_def eval_nat_numeral)

lemma sha1_oneshot:
  assumes "length input < 2 ^ 32"
  shows "mbedtls_sha1_ret input = (0, sha1_spec input)"
proof -
  let ?ctx = "\<lparr>total0 = 0, total1 = 0, state = sha1_iv, buffer = replicate 64 0\<rparr>"
  have "length sha1_iv = 5" "total0 ?ctx = 0" "total1 ?ctx = 0" "state ?ctx = sha1_iv" "length (buffer ?ctx) = 64"
    by (simp_all add: sha1_iv_def)
  from sha1.oneshot_correct [OF this assms] show ?thesis
    unfolding mbedtls_sha1_ret_def sha1_started mbedtls_sha1_update_ret_def mbedtls_sha1_finish_ret_def sha1_spec_def .
qed


section \<open>Properties\<close>

text \<open>
  C36: the unrolled block function of \<open>sha1.c\<close>, with its rotating variables, its circular schedule
  of sixteen words and its rewritten boolean functions, computes the compression function of FIPS 180 on every state and block, and
  changes nothing else of the context.
\<close>

theorem sha1_process_refines_fips180:
  assumes "length (state ctx) = 5" "length data = 64"
  shows "mbedtls_internal_sha1_process ctx data = (0, ctx\<lparr>state := fips_sha1_compress (state ctx) data\<rparr>)"
  using assms by (rule sha1_process_eq)

theorem sha1_process_refines_fips180_witness:
  "fst (mbedtls_internal_sha1_process mbedtls_sha1_init (replicate 64 0)) = 0"
  using sha1_process_refines_fips180 [of mbedtls_sha1_init "replicate 64 0"] by (simp add: mbedtls_sha1_init_def)

text \<open>
  C33: starting a context, feeding it a message in any sequence of calls of \<open>mbedtls_sha1_update_ret\<close>
  (each of less than 4 GiB, empty ones included) and finishing succeeds and yields the SHA-1 digest
  of the whole message as FIPS 180 defines it; the way the message was cut does not matter.
\<close>

theorem sha1_streaming:
  assumes "\<forall>c \<in> set chunks. length c < 2 ^ 32"
    and "mbedtls_sha1_starts_ret mbedtls_sha1_init = (ret, ctx)"
  shows "ret = 0 \<and> (\<exists>ctx1 ctx2. md_feed mbedtls_sha1_update_ret ctx chunks = (0, ctx1) \<and>
    mbedtls_sha1_finish_ret ctx1 = (0, ctx2, sha1_spec (concat chunks)))"
proof -
  have ctx: "ret = 0" "ctx = \<lparr>total0 = 0, total1 = 0, state = sha1_iv, buffer = replicate 64 0\<rparr>"
    using assms(2) by (simp_all add: sha1_started)
  have "length sha1_iv = 5" "total0 ctx = 0" "total1 ctx = 0" "state ctx = sha1_iv" "length (buffer ctx) = 64"
    by (simp_all add: ctx sha1_iv_def)
  from sha1.stream_correct [OF this assms(1)] ctx(1) show ?thesis
    unfolding mbedtls_sha1_update_ret_def mbedtls_sha1_finish_ret_def sha1_spec_def by metis
qed

theorem sha1_streaming_witness:
  "\<exists>ctx1 ctx2. md_feed mbedtls_sha1_update_ret (snd (mbedtls_sha1_starts_ret mbedtls_sha1_init)) [[1, 2], [], [3]] = (0, ctx1) \<and>
     mbedtls_sha1_finish_ret ctx1 = (0, ctx2, sha1_spec [1, 2, 3])"
  using sha1_streaming [of "[[1, 2], [], [3]]" "fst (mbedtls_sha1_starts_ret mbedtls_sha1_init)"
      "snd (mbedtls_sha1_starts_ret mbedtls_sha1_init)"] by simp

text \<open>
  The one-call function returns 0 and the SHA-1 digest for every input of less
  than 4 GiB.
\<close>

theorem sha1_ret_correct:
  assumes "length input < 2 ^ 32"
  shows "mbedtls_sha1_ret input = (0, sha1_spec input)"
  using assms by (rule sha1_oneshot)

theorem sha1_ret_correct_witness:
  "mbedtls_sha1_ret [0x61, 0x62, 0x63] = (0, sha1_spec [0x61, 0x62, 0x63])"
  using sha1_ret_correct [of "[0x61, 0x62, 0x63]"] by simp

end
