(* ===== verification/Sha256.thy ===== *)
theory Sha256
  imports Md_Stream
begin

text \<open>
  \<open>src/mwnet_mt/crypto/sha256.c\<close>, for SHA-256 and SHA-224. The block function is written as the source
  has it without \<open>MBEDTLS_SHA256_SMALLER\<close>: two loops over groups of eight calls of the macro \<open>P\<close> with
  rotating roles of the array \<open>A\<close>, the second one extending the schedule with \<open>R\<close>. It is shown equal
  to the description of FIPS 180.
\<close>

section \<open>The code\<close>

record mbedtls_sha256_context = md_context +
  is224 :: int

definition mbedtls_sha256_init :: mbedtls_sha256_context where
  "mbedtls_sha256_init =
     \<lparr>total0 = 0, total1 = 0, state = replicate 8 0, buffer = replicate 64 0, is224 = 0\<rparr>"

definition mbedtls_sha256_free :: "mbedtls_sha256_context option \<Rightarrow> mbedtls_sha256_context option" where
  "mbedtls_sha256_free ctx = map_option (\<lambda>_. mbedtls_sha256_init) ctx"

definition mbedtls_sha256_clone :: "mbedtls_sha256_context \<Rightarrow> mbedtls_sha256_context" where
  "mbedtls_sha256_clone src = src"

definition mbedtls_sha256_starts_ret :: "mbedtls_sha256_context \<Rightarrow> int \<Rightarrow> int \<times> mbedtls_sha256_context" where
  "mbedtls_sha256_starts_ret ctx i224 =
     (let ctx1 = ctx\<lparr>total0 := 0, total1 := 0\<rparr>;
          ctx2 = (if i224 = 0
            then ctx1\<lparr>state := (state ctx1)
              [0 := 0x6A09E667, 1 := 0xBB67AE85, 2 := 0x3C6EF372, 3 := 0xA54FF53A,
               4 := 0x510E527F, 5 := 0x9B05688C, 6 := 0x1F83D9AB, 7 := 0x5BE0CD19]\<rparr>
            else ctx1\<lparr>state := (state ctx1)
              [0 := 0xC1059ED8, 1 := 0x367CD507, 2 := 0x3070DD17, 3 := 0xF70E5939,
               4 := 0xFFC00B31, 5 := 0x68581511, 6 := 0x64F98FA7, 7 := 0xBEFA4FA4]\<rparr>)
      in (0, ctx2\<lparr>is224 := i224\<rparr>))"

definition sha256_K :: "u32 list" where
  "sha256_K = [
    0x428A2F98, 0x71374491, 0xB5C0FBCF, 0xE9B5DBA5, 0x3956C25B, 0x59F111F1, 0x923F82A4, 0xAB1C5ED5,
    0xD807AA98, 0x12835B01, 0x243185BE, 0x550C7DC3, 0x72BE5D74, 0x80DEB1FE, 0x9BDC06A7, 0xC19BF174,
    0xE49B69C1, 0xEFBE4786, 0x0FC19DC6, 0x240CA1CC, 0x2DE92C6F, 0x4A7484AA, 0x5CB0A9DC, 0x76F988DA,
    0x983E5152, 0xA831C66D, 0xB00327C8, 0xBF597FC7, 0xC6E00BF3, 0xD5A79147, 0x06CA6351, 0x14292967,
    0x27B70A85, 0x2E1B2138, 0x4D2C6DFC, 0x53380D13, 0x650A7354, 0x766A0ABB, 0x81C2C92E, 0x92722C85,
    0xA2BFE8A1, 0xA81A664B, 0xC24B8B70, 0xC76C51A3, 0xD192E819, 0xD6990624, 0xF40E3585, 0x106AA070,
    0x19A4C116, 0x1E376C08, 0x2748774C, 0x34B0BCB5, 0x391C0CB3, 0x4ED8AA4A, 0x5B9CCA4F, 0x682E6FF3,
    0x748F82EE, 0x78A5636F, 0x84C87814, 0x8CC70208, 0x90BEFFFA, 0xA4506CEB, 0xBEF9A3F7, 0xC67178F2]"

definition SHR :: "u32 \<Rightarrow> nat \<Rightarrow> u32" where
  "SHR x n = drop_bit n (x AND 0xFFFFFFFF)"

definition ROTR :: "u32 \<Rightarrow> nat \<Rightarrow> u32" where
  "ROTR x n = SHR x n OR push_bit (32 - n) x"

definition sha256_S0 :: "u32 \<Rightarrow> u32" where
  "sha256_S0 x = ROTR x 7 XOR ROTR x 18 XOR SHR x 3"

definition sha256_S1 :: "u32 \<Rightarrow> u32" where
  "sha256_S1 x = ROTR x 17 XOR ROTR x 19 XOR SHR x 10"

definition sha256_S2 :: "u32 \<Rightarrow> u32" where
  "sha256_S2 x = ROTR x 2 XOR ROTR x 13 XOR ROTR x 22"

definition sha256_S3 :: "u32 \<Rightarrow> u32" where
  "sha256_S3 x = ROTR x 6 XOR ROTR x 11 XOR ROTR x 25"

definition sha256_F0 :: "u32 \<Rightarrow> u32 \<Rightarrow> u32 \<Rightarrow> u32" where
  "sha256_F0 x y z = (x AND y) OR (z AND (x OR y))"

definition sha256_F1 :: "u32 \<Rightarrow> u32 \<Rightarrow> u32 \<Rightarrow> u32" where
  "sha256_F1 x y z = z XOR (x AND (y XOR z))"

definition sha256_R :: "u32 list \<Rightarrow> nat \<Rightarrow> u32 list" where
  "sha256_R W t = W[t := sha256_S1 (W ! (t - 2)) + W ! (t - 7) + sha256_S0 (W ! (t - 15)) + W ! (t - 16)]"

text \<open>\<open>P\<close> on the array \<open>A\<close>: the eight arguments are indices into it.\<close>

type_synonym sha256_args = "nat \<times> nat \<times> nat \<times> nat \<times> nat \<times> nat \<times> nat \<times> nat"

definition sha256_P :: "u32 list \<Rightarrow> sha256_args \<Rightarrow> u32 \<Rightarrow> u32 \<Rightarrow> u32 list" where
  "sha256_P A args x K =
     (case args of (a, b, c, d, e, f, g, h) \<Rightarrow>
        let temp1 = A ! h + sha256_S3 (A ! e) + sha256_F1 (A ! e) (A ! f) (A ! g) + K + x;
            temp2 = sha256_S2 (A ! a) + sha256_F0 (A ! a) (A ! b) (A ! c);
            A1 = A[d := A ! d + temp1]
        in A1[h := temp1 + temp2])"

definition sha256_calls :: "sha256_args list" where
  "sha256_calls = [
     (0, 1, 2, 3, 4, 5, 6, 7), (7, 0, 1, 2, 3, 4, 5, 6), (6, 7, 0, 1, 2, 3, 4, 5), (5, 6, 7, 0, 1, 2, 3, 4),
     (4, 5, 6, 7, 0, 1, 2, 3), (3, 4, 5, 6, 7, 0, 1, 2), (2, 3, 4, 5, 6, 7, 0, 1), (1, 2, 3, 4, 5, 6, 7, 0)]"

text \<open>The body of the first loop at \<open>i\<close>: call \<open>j\<close> takes \<open>W[i+j]\<close>; the body of the second computes it first.\<close>

definition sha256_loop1 :: "u32 list \<Rightarrow> u32 list \<Rightarrow> nat \<Rightarrow> u32 list" where
  "sha256_loop1 W A i = foldl (\<lambda>A j. sha256_P A (sha256_calls ! j) (W ! (i + j)) (sha256_K ! (i + j))) A [0..<8]"

definition sha256_loop2 :: "u32 list \<times> u32 list \<Rightarrow> nat \<Rightarrow> u32 list \<times> u32 list" where
  "sha256_loop2 WA i = foldl (\<lambda>(W, A) j.
     let W' = sha256_R W (i + j)
     in (W', sha256_P A (sha256_calls ! j) (W' ! (i + j)) (sha256_K ! (i + j)))) WA [0..<8]"

text \<open>The words of \<open>W\<close> after the sixteenth are not initialised by the code; any value would do.\<close>

definition mbedtls_internal_sha256_process ::
  "mbedtls_sha256_context \<Rightarrow> u8 list \<Rightarrow> int \<times> mbedtls_sha256_context" where
  "mbedtls_internal_sha256_process ctx data =
     (let A0 = map (\<lambda>i. state ctx ! i) [0..<8];
          W0 = map (\<lambda>i. GET_UINT32_BE data (4 * i)) [0..<16] @ replicate 48 0;
          A1 = foldl (sha256_loop1 W0) A0 [0, 8];
          (W2, A2) = foldl sha256_loop2 (W0, A1) [16, 24, 32, 40, 48, 56]
      in (0, ctx\<lparr>state := foldl (\<lambda>s i. s[i := s ! i + A2 ! i]) (state ctx) [0..<8]\<rparr>))"

definition mbedtls_sha256_update_ret :: "mbedtls_sha256_context \<Rightarrow> u8 list \<Rightarrow> int \<times> mbedtls_sha256_context" where
  "mbedtls_sha256_update_ret = md_update mbedtls_internal_sha256_process"

definition sha256_msglen :: "u32 \<Rightarrow> u32 \<Rightarrow> u8 list" where
  "sha256_msglen high low = PUT_UINT32_BE high @ PUT_UINT32_BE low"

definition sha256_output :: "mbedtls_sha256_context \<Rightarrow> u8 list" where
  "sha256_output ctx = PUT_UINT32_BE (state ctx ! 0) @ PUT_UINT32_BE (state ctx ! 1) @
     PUT_UINT32_BE (state ctx ! 2) @ PUT_UINT32_BE (state ctx ! 3) @ PUT_UINT32_BE (state ctx ! 4) @
     PUT_UINT32_BE (state ctx ! 5) @ PUT_UINT32_BE (state ctx ! 6) @
     (if is224 ctx = 0 then PUT_UINT32_BE (state ctx ! 7) else [])"

definition mbedtls_sha256_finish_ret :: "mbedtls_sha256_context \<Rightarrow> int \<times> mbedtls_sha256_context \<times> u8 list" where
  "mbedtls_sha256_finish_ret = md_finish mbedtls_sha256_update_ret sha256_msglen sha256_output"

definition mbedtls_sha256_ret :: "u8 list \<Rightarrow> int \<Rightarrow> int \<times> u8 list" where
  "mbedtls_sha256_ret input i224 =
     md_oneshot (mbedtls_sha256_starts_ret mbedtls_sha256_init i224) mbedtls_sha256_update_ret
       mbedtls_sha256_finish_ret input"

definition mbedtls_sha256 :: "u8 list \<Rightarrow> int \<Rightarrow> u8 list" where
  "mbedtls_sha256 input i224 = snd (mbedtls_sha256_ret input i224)"


section \<open>FIPS 180\<close>

fun sha256_schedule :: "u8 list \<Rightarrow> nat \<Rightarrow> u32" where
  "sha256_schedule data t =
     (if t < 16 then word_rcat (take 4 (drop (4 * t) data))
      else let w = \<lambda>k. sha256_schedule data (t - Suc k) in
        (let x = w 1 in word_rotr 17 x XOR word_rotr 19 x XOR drop_bit 10 x) + w 6 +
        (let x = w 14 in word_rotr 7 x XOR word_rotr 18 x XOR drop_bit 3 x) + w 15)"

declare sha256_schedule.simps [simp del]

type_synonym sha256_regs = "u32 \<times> u32 \<times> u32 \<times> u32 \<times> u32 \<times> u32 \<times> u32 \<times> u32"

definition fips_sha256_step :: "u8 list \<Rightarrow> sha256_regs \<Rightarrow> nat \<Rightarrow> sha256_regs" where
  "fips_sha256_step data r t =
     (case r of (a, b, c, d, e, f, g, h) \<Rightarrow>
        let T1 = h + (word_rotr 6 e XOR word_rotr 11 e XOR word_rotr 25 e) +
                 ((e AND f) XOR (NOT e AND g)) + sha256_K ! t + sha256_schedule data t;
            T2 = (word_rotr 2 a XOR word_rotr 13 a XOR word_rotr 22 a) + ((a AND b) XOR (a AND c) XOR (b AND c))
        in (T1 + T2, a, b, c, d + T1, e, f, g))"

definition fips_sha256_compress :: "u32 list \<Rightarrow> u8 list \<Rightarrow> u32 list" where
  "fips_sha256_compress st data =
     (case foldl (fips_sha256_step data)
             (st ! 0, st ! 1, st ! 2, st ! 3, st ! 4, st ! 5, st ! 6, st ! 7) [0..<64] of
        (a, b, c, d, e, f, g, h) \<Rightarrow>
          [st ! 0 + a, st ! 1 + b, st ! 2 + c, st ! 3 + d, st ! 4 + e, st ! 5 + f, st ! 6 + g, st ! 7 + h])"

definition sha256_iv :: "int \<Rightarrow> u32 list" where
  "sha256_iv i224 =
     (if i224 = 0
      then [0x6A09E667, 0xBB67AE85, 0x3C6EF372, 0xA54FF53A, 0x510E527F, 0x9B05688C, 0x1F83D9AB, 0x5BE0CD19]
      else [0xC1059ED8, 0x367CD507, 0x3070DD17, 0xF70E5939, 0xFFC00B31, 0x68581511, 0x64F98FA7, 0xBEFA4FA4])"

text \<open>SHA-224 drops the last word.\<close>

definition sha256_digest :: "int \<Rightarrow> u32 list \<Rightarrow> u8 list" where
  "sha256_digest i224 st = concat (map PUT_UINT32_BE (take (if i224 = 0 then 8 else 7) st))"

definition sha256_spec :: "int \<Rightarrow> u8 list \<Rightarrow> u8 list" where
  "sha256_spec i224 m = sha256_digest i224 (md_spec fips_sha256_compress (sha256_iv i224) (rev \<circ> bit_count_le) m)"


section \<open>Equivalence of the block function\<close>

lemma ROTR_rotr: "0 < n \<Longrightarrow> n < 32 \<Longrightarrow> ROTR x n = word_rotr n x"
  by (simp only: ROTR_def SHR_def and_ones shifts_rotr)

lemma sha256_S_rotr:
  "sha256_S0 x = word_rotr 7 x XOR word_rotr 18 x XOR drop_bit 3 x"
  "sha256_S1 x = word_rotr 17 x XOR word_rotr 19 x XOR drop_bit 10 x"
  "sha256_S2 x = word_rotr 2 x XOR word_rotr 13 x XOR word_rotr 22 x"
  "sha256_S3 x = word_rotr 6 x XOR word_rotr 11 x XOR word_rotr 25 x"
  unfolding sha256_S0_def sha256_S1_def sha256_S2_def sha256_S3_def SHR_def and_ones
  by (simp_all add: ROTR_rotr)

lemma sha256_F_fips:
  "sha256_F0 x y z = (x AND y) XOR (x AND z) XOR (y AND z)"
  "sha256_F1 x y z = (x AND y) XOR (NOT x AND z)"
  by (auto intro!: bit_word_eqI simp: sha256_F0_def sha256_F1_def bit_simps)

text \<open>The registers that the array holds before the call with index \<open>j\<close>.\<close>

definition sha256_view :: "nat \<Rightarrow> u32 list \<Rightarrow> sha256_regs" where
  "sha256_view j A = (case sha256_calls ! (j mod 8) of (a, b, c, d, e, f, g, h) \<Rightarrow>
     (A ! a, A ! b, A ! c, A ! d, A ! e, A ! f, A ! g, A ! h))"

lemma mod8_cases: "(i :: nat) mod 8 \<in> {0, 1, 2, 3, 4, 5, 6, 7}"
  by auto

lemma sha256_P_step:
  assumes "length A = 8" "x = sha256_schedule data t"
  shows "length (sha256_P A (sha256_calls ! (t mod 8)) x (sha256_K ! t)) = 8"
    "sha256_view (Suc t) (sha256_P A (sha256_calls ! (t mod 8)) x (sha256_K ! t)) =
       fips_sha256_step data (sha256_view t A) t"
proof -
  show "length (sha256_P A (sha256_calls ! (t mod 8)) x (sha256_K ! t)) = 8"
    using assms(1) by (simp add: sha256_P_def Let_def split: prod.split)
  obtain a b c d e f g h where A: "A = [a, b, c, d, e, f, g, h]"
    using assms(1) by (auto simp: length_Suc_conv eval_nat_numeral)
  show "sha256_view (Suc t) (sha256_P A (sha256_calls ! (t mod 8)) x (sha256_K ! t)) =
       fips_sha256_step data (sha256_view t A) t"
    using mod8_cases [of t]
    by (elim insertE emptyE) (simp_all add: A assms(2) sha256_view_def sha256_calls_def sha256_P_def fips_sha256_step_def
        mod_Suc Let_def sha256_S_rotr sha256_F_fips algebra_simps)
qed

text \<open>The simulation: schedule, array and registers before step \<open>t\<close>.\<close>

definition sha256_sim :: "u8 list \<Rightarrow> nat \<Rightarrow> u32 list \<times> u32 list \<Rightarrow> sha256_regs \<Rightarrow> bool" where
  "sha256_sim data t WA r \<longleftrightarrow> length (fst WA) = 64 \<and> length (snd WA) = 8 \<and>
     (\<forall>j. j < 16 \<or> j < t \<longrightarrow> fst WA ! j = sha256_schedule data j) \<and> sha256_view t (snd WA) = r"

lemma sha256_step1:
  assumes "sha256_sim data t (W, A) r" "t < 16"
  shows "sha256_sim data (Suc t) (W, sha256_P A (sha256_calls ! (t mod 8)) (W ! t) (sha256_K ! t)) (fips_sha256_step data r t)"
  using assms sha256_P_step [of A "W ! t" data t] by (auto simp: sha256_sim_def less_Suc_eq)

lemma sha256_R_value:
  assumes "length W = 64" "16 \<le> t" "t < 64" "\<And>j. j < t \<Longrightarrow> W ! j = sha256_schedule data j"
  shows "sha256_R W t = W[t := sha256_schedule data t]"
  using assms by (simp add: sha256_R_def sha256_S_rotr sha256_schedule.simps [of data t] Let_def eval_nat_numeral)

lemma sha256_step2:
  assumes "sha256_sim data t (W, A) r" "16 \<le> t" "t < 64" "W' = sha256_R W t"
  shows "sha256_sim data (Suc t) (W', sha256_P A (sha256_calls ! (t mod 8)) (W' ! t) (sha256_K ! t)) (fips_sha256_step data r t)"
proof -
  have W': "W' = W[t := sha256_schedule data t]"
    using sha256_R_value [of W t data] assms by (simp add: sha256_sim_def)
  then show ?thesis
    using assms sha256_P_step [of A "W' ! t" data t] by (auto simp: sha256_sim_def less_Suc_eq nth_list_update)
qed

lemma sha256_loop1_sim:
  assumes "sha256_sim data i (W, A) r" "i mod 8 = 0" "i < 16"
  shows "sha256_sim data (i + 8) (W, sha256_loop1 W A i) (foldl (fips_sha256_step data) r [i..<i + 8])"
proof -
  have "sha256_sim data (i + n) (W, foldl (\<lambda>A j. sha256_P A (sha256_calls ! j) (W ! (i + j)) (sha256_K ! (i + j))) A [0..<n])
      (foldl (fips_sha256_step data) r [i..<i + n])" if "n \<le> 8" for n
    using that
  proof (induction n)
    case (Suc n)
    have "(i + n) mod 8 = n" "i + n < 16" using assms(2,3) Suc.prems by (auto simp: mod_add_left_eq [symmetric])
    with sha256_step1 [OF Suc.IH] Suc.prems show ?case by simp
  qed (use assms(1) in simp)
  from this [of 8] show ?thesis by (simp only: sha256_loop1_def order_refl)
qed

lemma sha256_loop2_sim:
  assumes "sha256_sim data i WA r" "i mod 8 = 0" "16 \<le> i" "i < 64"
  shows "sha256_sim data (i + 8) (sha256_loop2 WA i) (foldl (fips_sha256_step data) r [i..<i + 8])"
proof -
  have "sha256_sim data (i + n) (foldl (\<lambda>(W, A) j.
     let W' = sha256_R W (i + j)
     in (W', sha256_P A (sha256_calls ! j) (W' ! (i + j)) (sha256_K ! (i + j)))) WA [0..<n])
      (foldl (fips_sha256_step data) r [i..<i + n])" (is "sha256_sim data (i + n) (?f n) (?r n)") if "n \<le> 8" for n
    using that
  proof (induction n)
    case (Suc n)
    have t: "(i + n) mod 8 = n" "16 \<le> i + n" "i + n < 64"
      using assms(2,3,4) Suc.prems by (auto simp: mod_add_left_eq [symmetric])
    obtain W A where WA: "?f n = (W, A)" by fastforce
    have "sha256_sim data (i + n) (W, A) (?r n)" using Suc WA by simp
    from sha256_step2 [OF this t(2,3) refl] WA t(1) show ?case by (simp add: Let_def)
  qed (use assms(1) in simp)
  from this [of 8] show ?thesis by (simp only: sha256_loop2_def order_refl)
qed

lemma sha256_process_eq:
  assumes "length (state ctx) = 8" "length data = 64"
  shows "mbedtls_internal_sha256_process ctx data = (0, ctx\<lparr>state := fips_sha256_compress (state ctx) data\<rparr>)"
proof -
  define W where "W = map (\<lambda>i. GET_UINT32_BE data (4 * i)) [0..<16] @ replicate 48 0"
  define A where "A = state ctx"
  define regs where "regs = (A ! 0, A ! 1, A ! 2, A ! 3, A ! 4, A ! 5, A ! 6, A ! 7)"
  define step where "step = fips_sha256_step data"
  have A: "map (\<lambda>i. state ctx ! i) [0..<8] = A"
    using assms(1) map_nth [of "state ctx"] by (simp only: A_def)
  have "W ! j = sha256_schedule data j" if "j < 16" for j
    using that assms(2) by (simp add: W_def nth_append GET_UINT32_BE_word sha256_schedule.simps [of data j])
  then have 0: "sha256_sim data 0 (W, A) regs"
    using assms(1) by (simp add: sha256_sim_def W_def A_def regs_def sha256_view_def sha256_calls_def)
  define A1 where "A1 = foldl (sha256_loop1 W) A [0, 8]"
  define WA where "WA = foldl sha256_loop2 (W, A1) [16, 24, 32, 40, 48, 56]"
  have 1: "sha256_sim data 16 (W, A1) (foldl step regs ([0..<8] @ [8..<16]))"
    unfolding A1_def step_def foldl_append
    using sha256_loop1_sim [OF sha256_loop1_sim [OF 0]] by (simp only: foldl.simps) simp
  have 2: "sha256_sim data 64 WA (foldl step regs ([0..<8] @ [8..<16] @ [16..<24] @ [24..<32] @ [32..<40] @
      [40..<48] @ [48..<56] @ [56..<64]))"
    unfolding WA_def step_def foldl_append
    using 1 [unfolded step_def foldl_append, THEN sha256_loop2_sim, THEN sha256_loop2_sim, THEN sha256_loop2_sim,
      THEN sha256_loop2_sim, THEN sha256_loop2_sim, THEN sha256_loop2_sim] by (simp only: foldl.simps) simp
  have "[0..<8] @ [8..<16] @ [16..<24] @ [24..<32] @ [32..<40] @ [40..<48] @ [48..<56] @ [56..<64] = [0..<64]"
    by code_simp
  with 2 have "sha256_sim data 64 WA (foldl step regs [0..<64])" by (simp only:)
  moreover obtain W2 A2 where WA2: "WA = (W2, A2)" by fastforce
  ultimately have f: "length A2 = 8"
    "foldl step regs [0..<64] = (A2 ! 0, A2 ! 1, A2 ! 2, A2 ! 3, A2 ! 4, A2 ! 5, A2 ! 6, A2 ! 7)"
    by (simp_all only: sha256_sim_def fst_conv snd_conv) (simp_all add: sha256_view_def sha256_calls_def)
  obtain a b c d e f g h where s: "state ctx = [a, b, c, d, e, f, g, h]"
    using assms(1) by (auto simp: length_Suc_conv eval_nat_numeral)
  have "fips_sha256_compress (state ctx) data = foldl (\<lambda>s i. s[i := s ! i + A2 ! i]) (state ctx) [0..<8]"
    unfolding fips_sha256_compress_def f(2) [unfolded regs_def A_def step_def]
    by (simp add: s upt_rec eval_nat_numeral)
  then show ?thesis
    unfolding mbedtls_internal_sha256_process_def A Let_def W_def [symmetric] A1_def [symmetric] WA_def [symmetric] WA2
    by simp
qed


section \<open>The streaming interface\<close>

text \<open>The field that the structure adds to the common ones.\<close>

definition flag_value :: "unit mbedtls_sha256_context_ext \<Rightarrow> int" where
  "flag_value ex = is224 (md_context.extend \<lparr>total0 = 0, total1 = 0, state = [], buffer = []\<rparr> ex)"

lemma flag_value_more: "flag_value (md_context.more ctx) = is224 ctx"
  by (cases ctx) (simp add: flag_value_def md_context.extend_def)

interpretation sha256: md_digest mbedtls_internal_sha256_process fips_sha256_compress 8 sha256_msglen
  "rev \<circ> bit_count_le" sha256_output "\<lambda>ex. sha256_digest (flag_value ex)"
proof unfold_locales
  show "length (fips_sha256_compress st data) = 8" for st data
    by (simp add: fips_sha256_compress_def split: prod.split)
  show "sha256_msglen (drop_bit 29 (of_nat n) OR push_bit 3 (of_nat (n div 2 ^ 32))) (push_bit 3 (of_nat n)) =
    (rev \<circ> bit_count_le) n" for n
    unfolding sha256_msglen_def comp_def by (rule msglen_be)
  show "sha256_output ctx = sha256_digest (flag_value (md_context.more ctx)) (state ctx)"
    if "length (state ctx) = 8" for ctx
    using that by (auto simp: flag_value_more sha256_output_def sha256_digest_def length_Suc_conv eval_nat_numeral)
qed (simp_all add: sha256_process_eq)

lemma sha256_started:
  "mbedtls_sha256_starts_ret mbedtls_sha256_init i224 =
     (0, \<lparr>total0 = 0, total1 = 0, state = sha256_iv i224, buffer = replicate 64 0, is224 = i224\<rparr>)"
  by (simp add: mbedtls_sha256_starts_ret_def mbedtls_sha256_init_def sha256_iv_def eval_nat_numeral Let_def)

lemma length_sha256_iv: "length (sha256_iv i224) = 8"
  by (simp add: sha256_iv_def)

lemma sha256_oneshot:
  assumes "length input < 2 ^ 32"
  shows "mbedtls_sha256_ret input i224 = (0, sha256_spec i224 input)"
proof -
  let ?ctx = "\<lparr>total0 = 0, total1 = 0, state = sha256_iv i224, buffer = replicate 64 0, is224 = i224\<rparr>"
  have flag: "flag_value (md_context.more ?ctx) = i224" unfolding flag_value_more by simp
  have "total0 ?ctx = 0" "total1 ?ctx = 0" "state ?ctx = sha256_iv i224" "length (buffer ?ctx) = 64"
    by simp_all
  from sha256.oneshot_correct [OF length_sha256_iv this assms, unfolded flag] show ?thesis
    unfolding mbedtls_sha256_ret_def sha256_started mbedtls_sha256_update_ret_def mbedtls_sha256_finish_ret_def
      sha256_spec_def .
qed


section \<open>Properties\<close>





text \<open>
  The one-call function returns 0 and the SHA-256 (or SHA-224) digest for every input of less
  than 4 GiB; the digest has 32 (or 28) bytes.
\<close>

theorem sha256_ret_correct:
  assumes "length input < 2 ^ 32"
  shows "mbedtls_sha256_ret input i224 = (0, sha256_spec i224 input) \<and>
    length (sha256_spec i224 input) = (if i224 = 0 then 32 else 28)"
proof -
  have "length (md_spec fips_sha256_compress (sha256_iv i224) (rev \<circ> bit_count_le) input) = 8"
    unfolding md_spec_def by (rule sha256.length_foldl [OF length_sha256_iv])
  then have "length (sha256_spec i224 input) = (if i224 = 0 then 32 else 28)"
    by (auto simp: sha256_spec_def sha256_digest_def PUT_UINT32_BE_def length_Suc_conv eval_nat_numeral)
  with sha256_oneshot [OF assms] show ?thesis by blast
qed

theorem sha256_ret_correct_witness:
  "mbedtls_sha256_ret [0x61, 0x62, 0x63] 0 = (0, sha256_spec 0 [0x61, 0x62, 0x63])"
  using sha256_ret_correct [of "[0x61, 0x62, 0x63]" 0] by simp

end
