(* ===== verification/String_Codec.thy ===== *)
theory String_Codec
  imports Base64 Md5 Sha1 Sha256
begin

text \<open>
  The codecs of \<open>src/mwnet_mt/util/MWStringUtil.cc\<close>: hexadecimal text, the wrappers around
  \<open>mbedtls_base64_encode\<close> and \<open>mbedtls_base64_decode\<close> with the buffer sizes they choose, and the
  digest functions. Strings are lists of bytes; \<open>bytes_of\<close> and \<open>chars_of\<close> are the casts between
  \<open>char\<close> and \<open>uint8_t\<close>.
\<close>

section \<open>Bytes and characters\<close>

definition bytes_of :: "string \<Rightarrow> u8 list" where
  "bytes_of s = map byte s"

definition chars_of :: "u8 list \<Rightarrow> string" where
  "chars_of bs = map (\<lambda>b. char_of (unat b)) bs"

lemma chars_of_bytes_of [simp]: "chars_of (bytes_of s) = s"
  by (induction s) (simp_all add: chars_of_def bytes_of_def byte_def unat_of_nat)

lemma length_bytes_of [simp]: "length (bytes_of s) = length s"
  by (simp add: bytes_of_def)

lemma length_chars_of [simp]: "length (chars_of bs) = length bs"
  by (simp add: chars_of_def)

lemma bytes_of_Nil_iff [simp]: "bytes_of s = [] \<longleftrightarrow> s = []"
  by (simp add: bytes_of_def)

lemma bytes_of_chars_of [simp]: "bytes_of (chars_of bs) = bs"
proof (induction bs)
  case (Cons b bs)
  have "unat b < 256" using unsigned_less [of b] by simp
  with Cons show ?case by (simp add: chars_of_def bytes_of_def byte_def)
qed (simp add: chars_of_def bytes_of_def)

text \<open>\<open>std::string::resize\<close>.\<close>

definition resize :: "string \<Rightarrow> nat \<Rightarrow> string" where
  "resize s n = take n s @ replicate (n - length s) NUL"


section \<open>Hexadecimal text\<close>

text \<open>The macro \<open>ASCII2DEC\<close> on a byte; \<open>None\<close> is its \<open>return false\<close>.\<close>

definition ASCII2DEC :: "char \<Rightarrow> nat option" where
  "ASCII2DEC c =
     (let v = uchar c in
      if 48 \<le> v \<and> v \<le> 57 then Some (v - 48)
      else if 65 \<le> v \<and> v \<le> 70 then Some (v - (65 - 10))
      else if 97 \<le> v \<and> v \<le> 102 then Some (v - (97 - 10))
      else None)"

text \<open>The loop over a C string; the end of the list is its terminating NUL.\<close>

fun hex2bin_loop :: "string \<Rightarrow> string \<Rightarrow> bool \<times> string" where
  "hex2bin_loop [] bin = (True, bin)"
| "hex2bin_loop [h] bin = (if h = NUL then (True, bin) else (False, bin))"
| "hex2bin_loop (h # l # rest) bin =
     (if h = NUL then (True, bin)
      else if l = NUL then (False, bin)
      else case ASCII2DEC h of
        None \<Rightarrow> (False, bin)
      | Some high \<Rightarrow>
          (case ASCII2DEC l of
             None \<Rightarrow> (False, bin)
           | Some low \<Rightarrow> hex2bin_loop rest (bin @ [char_of (high * 16 + low)])))"

definition Hex2Bin :: "string option \<Rightarrow> string option \<Rightarrow> bool \<times> string option" where
  "Hex2Bin hexStr binStr =
     (case (hexStr, binStr) of
        (Some h, Some b) \<Rightarrow> (case hex2bin_loop h [] of (ok, bin) \<Rightarrow> (ok, Some bin))
      | _ \<Rightarrow> (False, binStr))"

definition HexStringToBytes :: "string \<Rightarrow> string" where
  "HexStringToBytes hexStr = snd (hex2bin_loop hexStr [])"

definition DEC2ASCII :: "nat \<Rightarrow> char" where
  "DEC2ASCII v = (if v \<le> 9 then char_of (v + 48) else char_of (v + (65 - 10)))"

definition Bin2Hex :: "string option \<Rightarrow> string option \<Rightarrow> bool \<times> string option" where
  "Bin2Hex binStr hexStr =
     (case (binStr, hexStr) of
        (Some b, Some h) \<Rightarrow>
          (True, Some (concat (map (\<lambda>c. [DEC2ASCII (uchar c div 16), DEC2ASCII (uchar c mod 16)]) b)))
      | _ \<Rightarrow> (False, hexStr))"

definition lowerHex :: string where
  "lowerHex = ''0123456789abcdef''"

definition upperHex :: string where
  "upperHex = ''0123456789ABCDEF''"

definition StrToHex :: "string \<Rightarrow> bool \<Rightarrow> string" where
  "StrToHex src upper =
     (if upper then concat (map (\<lambda>c. [upperHex ! (uchar c div 16), upperHex ! (uchar c mod 16)]) src)
      else concat (map (\<lambda>c. [lowerHex ! (uchar c div 16), lowerHex ! (uchar c mod 16)]) src))"

definition BytesToHexString :: "string \<Rightarrow> bool \<Rightarrow> string" where
  "BytesToHexString bytes upper = StrToHex bytes upper"


section \<open>Base64\<close>

text \<open>
  \<open>resize\<close> makes the buffer, the call writes into it, and \<open>resize\<close> cuts it to the length the call
  stored in \<open>destLen\<close>, or the result is empty when the call failed. The products are of \<open>size_t\<close>.
\<close>

definition written_to :: "nat \<Rightarrow> base64_result \<Rightarrow> string" where
  "written_to destLen r =
     (if rc r \<noteq> 0 then []
      else resize (chars_of (written r) @ drop (length (written r)) (replicate destLen NUL))
             (case olen r of Some n \<Rightarrow> n | None \<Rightarrow> destLen))"

definition BytesToBase64String :: "string \<Rightarrow> string" where
  "BytesToBase64String bytes =
     (let len = length bytes; destLen = (len * 4 mod 2 ^ 64) div 3 + 4
      in written_to destLen (mbedtls_base64_encode False destLen (bytes_of bytes)))"

definition Base64StringToBytes :: "string \<Rightarrow> string" where
  "Base64StringToBytes base64Str =
     (let len = length base64Str; destLen = (len * 3 mod 2 ^ 64) div 4 + 4
      in written_to destLen (mbedtls_base64_decode False destLen (bytes_of base64Str)))"


section \<open>Digests\<close>

text \<open>A digest is written at the beginning of a string of \<open>n\<close> zero bytes.\<close>

definition digest_into :: "nat \<Rightarrow> u8 list \<Rightarrow> string" where
  "digest_into n digest = chars_of (memcpy_at (replicate n 0) 0 digest)"

definition ToMd5Bytes :: "string \<Rightarrow> string" where
  "ToMd5Bytes bytes = digest_into 16 (mbedtls_md5 (bytes_of bytes))"

definition ToMd5HexString :: "string \<Rightarrow> bool \<Rightarrow> string" where
  "ToMd5HexString bytes upper = BytesToHexString (ToMd5Bytes bytes) upper"

definition ToSha256Bytes :: "string \<Rightarrow> string" where
  "ToSha256Bytes bytes = digest_into 32 (mbedtls_sha256 (bytes_of bytes) 0)"

definition ToSha256HexString :: "string \<Rightarrow> bool \<Rightarrow> string" where
  "ToSha256HexString bytes upper = BytesToHexString (ToSha256Bytes bytes) upper"

definition ToSha1Bytes :: "string \<Rightarrow> string" where
  "ToSha1Bytes bytes = digest_into 32 (mbedtls_sha1 (bytes_of bytes))"

definition ToSha1HexString :: "string \<Rightarrow> bool \<Rightarrow> string" where
  "ToSha1HexString bytes upper = (let sha1 = ToSha256Bytes bytes in BytesToHexString sha1 upper)"


section \<open>Hexadecimal digits\<close>

lemma hex_digit_table:
  "list_all (\<lambda>v. ASCII2DEC (lowerHex ! v) = Some v \<and> ASCII2DEC (upperHex ! v) = Some v \<and>
     DEC2ASCII v = upperHex ! v) [0..<16]"
  by code_simp

lemma hex_digit:
  assumes "v < 16"
  shows "ASCII2DEC (lowerHex ! v) = Some v" "ASCII2DEC (upperHex ! v) = Some v" "DEC2ASCII v = upperHex ! v"
  using assms hex_digit_table by (auto simp only: list_all_iff atLeastLessThan_upt [symmetric] atLeastLessThan_iff)

lemma ASCII2DEC_NUL: "ASCII2DEC NUL = None"
  by (simp add: ASCII2DEC_def)

lemma nibbles: "uchar c div 16 < 16" "uchar c mod 16 < 16" "char_of (uchar c div 16 * 16 + uchar c mod 16) = c"
  by (auto intro: less_mult_imp_div_less simp: div_mult_mod_eq)

lemma hex2bin_loop_digits:
  assumes "\<And>v. v < 16 \<Longrightarrow> ASCII2DEC (digits ! v) = Some v"
  shows "hex2bin_loop (concat (map (\<lambda>c. [digits ! (uchar c div 16), digits ! (uchar c mod 16)]) s)) bin = (True, bin @ s)"
proof (induction s arbitrary: bin)
  case (Cons c s)
  have d: "ASCII2DEC (digits ! (uchar c div 16)) = Some (uchar c div 16)"
    "ASCII2DEC (digits ! (uchar c mod 16)) = Some (uchar c mod 16)"
    using nibbles [of c] assms by auto
  then have "digits ! (uchar c div 16) \<noteq> NUL" "digits ! (uchar c mod 16) \<noteq> NUL"
    using ASCII2DEC_NUL by auto
  with d nibbles(3) [of c] Cons.IH show ?case by simp
qed simp

lemma StrToHex_Hex2Bin: "hex2bin_loop (StrToHex s upper) [] = (True, s)"
  using hex2bin_loop_digits [of lowerHex s "[]"] hex2bin_loop_digits [of upperHex s "[]"] hex_digit
  by (simp add: StrToHex_def)

lemma Bin2Hex_StrToHex: "Bin2Hex (Some s) (Some h) = (True, Some (StrToHex s True))"
  using nibbles by (simp add: Bin2Hex_def StrToHex_def hex_digit(3))

lemma hex2bin_loop_ok:
  "NUL \<notin> set h \<Longrightarrow> fst (hex2bin_loop h bin) \<longleftrightarrow> even (length h) \<and> (\<forall>c \<in> set h. ASCII2DEC c \<noteq> None)"
  by (induction h bin rule: hex2bin_loop.induct) (auto split: option.splits)


section \<open>Digests in strings\<close>

lemma length_PUT [simp]: "length (PUT_UINT32_LE w) = 4" "length (PUT_UINT32_BE w) = 4"
  by (simp_all add: PUT_UINT32_LE_def PUT_UINT32_BE_def)

lemma length_concat_words: "(\<And>w. length (f w) = 4) \<Longrightarrow> length (concat (map f ws)) = 4 * length ws"
  by (induction ws) simp_all

lemma length_specs: "length (md5_spec m) = 16" "length (sha1_spec m) = 20" "length (sha256_spec 0 m) = 32"
proof -
  have "length (md_spec rfc1321_compress md5_iv bit_count_le m) = 4"
    "length (md_spec fips_sha1_compress sha1_iv (rev \<circ> bit_count_le) m) = 5"
    "length (md_spec fips_sha256_compress (sha256_iv 0) (rev \<circ> bit_count_le) m) = 8"
    unfolding md_spec_def
    by (rule md5.length_foldl sha1.length_foldl sha256.length_foldl; simp add: md5_iv_def sha1_iv_def sha256_iv_def)+
  then show "length (md5_spec m) = 16" "length (sha1_spec m) = 20" "length (sha256_spec 0 m) = 32"
    by (simp_all add: md5_spec_def md5_digest_def sha1_spec_def sha1_digest_def sha256_spec_def sha256_digest_def
        length_concat_words)
qed

lemma digest_into_eq: "length digest \<le> n \<Longrightarrow> digest_into n digest = chars_of digest @ replicate (n - length digest) NUL"
  using char_of_uchar [of NUL] by (simp add: digest_into_def memcpy_at_def chars_of_def)

lemma length_StrToHex: "length (StrToHex s upper) = 2 * length s"
  unfolding StrToHex_def by (cases upper; induction s) simp_all


section \<open>Properties\<close>

text \<open>
  The hexadecimal text of a string, in either case, is accepted by \<open>Hex2Bin\<close> and gives the string
  back; the upper-case text is what \<open>Bin2Hex\<close> produces.
\<close>

theorem hex_roundtrip:
  "Hex2Bin (Some (StrToHex s upper)) (Some b) = (True, Some s) \<and>
   Bin2Hex (Some s) (Some h) = (True, Some (StrToHex s True))"
  by (simp add: Hex2Bin_def StrToHex_Hex2Bin Bin2Hex_StrToHex)

text \<open>
  \<open>Hex2Bin\<close> accepts exactly the texts of even length that consist of hexadecimal digits.
\<close>

theorem hex2bin_accepts:
  assumes "NUL \<notin> set h"
  shows "fst (Hex2Bin (Some h) (Some b)) \<longleftrightarrow> even (length h) \<and> (\<forall>c \<in> set h. ASCII2DEC c \<noteq> None)"
proof -
  obtain ok bin where "hex2bin_loop h [] = (ok, bin)" by fastforce
  then show ?thesis using hex2bin_loop_ok [OF assms, of "[]"] by (simp add: Hex2Bin_def)
qed

theorem hex2bin_accepts_witness: "\<not> fst (Hex2Bin (Some ''0g'') (Some []))"
  using hex2bin_accepts [of "''0g''" "[]"] by (simp add: NUL_def ASCII2DEC_def uchar_def)

text \<open>
  \<open>Base64StringToBytes\<close> undoes \<open>BytesToBase64String\<close>: the buffer sizes that the two functions choose
  are always enough for the calls they make.
\<close>

theorem base64_string_roundtrip:
  assumes "length s < 2 ^ 61"
  shows "Base64StringToBytes (BytesToBase64String s) = s"
proof (cases "s = []")
  case True
  then show ?thesis
    by (simp add: BytesToBase64String_def Base64StringToBytes_def written_to_def mbedtls_base64_encode_def
        mbedtls_base64_decode_def resize_def base64_scan.simps bytes_of_def)
next
  case False
  define src where "src = bytes_of s"
  define out where "out = base64_encode_loop src"
  define n where "n = 4 * ((length src + 2) div 3)"
  have len: "length out = n" by (simp add: out_def n_def length_encoded)
  have src: "src \<noteq> []" "length src = length s" "length src < 2 ^ 63" using False assms by (simp_all add: src_def)
  define d where "d = (length s * 4 mod 2 ^ 64) div 3 + 4"
  have "length s * 4 mod 2 ^ 64 = length s * 4" using assms by simp
  then have d: "n + 1 \<le> d" unfolding d_def n_def src(2) by simp
  have enc: "mbedtls_base64_encode False d src = \<lparr>rc = 0, olen = Some n, written = out @ [0]\<rparr>"
    using encode_eq [OF src(1,3), of False d, folded n_def out_def] d by (simp add: Let_def)
  have "BytesToBase64String s = written_to d (mbedtls_base64_encode False d src)"
    unfolding BytesToBase64String_def Let_def d_def src_def ..
  then have b64: "BytesToBase64String s = chars_of out"
    using d len by (simp add: enc written_to_def resize_def chars_of_def)
  define e where "e = (n * 3 mod 2 ^ 64) div 4 + 4"
  have "n * 3 < 2 ^ 64" using assms unfolding n_def src(2) by simp
  then have e: "length src \<le> e" unfolding e_def n_def by simp
  have "Base64StringToBytes (chars_of out) = written_to e (mbedtls_base64_decode False e out)"
    unfolding Base64StringToBytes_def Let_def e_def by (simp add: len)
  moreover have "mbedtls_base64_decode False e out = \<lparr>rc = 0, olen = Some (length src), written = src\<rparr>"
    unfolding out_def using src(1) e by (rule decode_encoded)
  ultimately show ?thesis
    unfolding b64 using e by (simp add: written_to_def resize_def src_def)
qed

theorem base64_string_roundtrip_witness: "Base64StringToBytes (BytesToBase64String ''user:pw'') = ''user:pw''"
  using base64_string_roundtrip [of "''user:pw''"] by simp

text \<open>
  \<open>ToMd5HexString\<close> and \<open>ToSha256HexString\<close> give the hexadecimal text of the digest of the input, of
  32 and 64 characters.
\<close>

theorem digest_hex_strings:
  assumes "length s < 2 ^ 32"
  shows "ToMd5HexString s upper = StrToHex (chars_of (md5_spec (bytes_of s))) upper \<and>
    ToSha256HexString s upper = StrToHex (chars_of (sha256_spec 0 (bytes_of s))) upper \<and>
    length (ToMd5HexString s upper) = 32 \<and> length (ToSha256HexString s upper) = 64"
proof -
  have "length (bytes_of s) < 2 ^ 32" using assms by simp
  from md5_oneshot [OF this] sha256_oneshot [OF this, of 0]
  have "mbedtls_md5 (bytes_of s) = md5_spec (bytes_of s)" "mbedtls_sha256 (bytes_of s) 0 = sha256_spec 0 (bytes_of s)"
    by (simp_all add: mbedtls_md5_def mbedtls_sha256_def)
  then show ?thesis
    by (simp add: ToMd5HexString_def ToMd5Bytes_def ToSha256HexString_def ToSha256Bytes_def BytesToHexString_def
        digest_into_eq length_specs length_StrToHex)
qed

theorem digest_hex_strings_witness: "length (ToMd5HexString ''abc'' True) = 32"
proof -
  have "length ''abc'' < 2 ^ 32" by simp
  from digest_hex_strings [OF this, of True] show ?thesis by blast
qed

text \<open>
  \<open>ToSha1Bytes\<close> returns 32 bytes, the twenty of the SHA-1 digest and twelve zero bytes, and
  \<open>ToSha1HexString\<close> is the text of the SHA-256 digest.
\<close>

theorem sha1_strings:
  assumes "length s < 2 ^ 32"
  shows "ToSha1Bytes s = chars_of (sha1_spec (bytes_of s)) @ replicate 12 NUL \<and>
    ToSha1HexString s upper = ToSha256HexString s upper"
proof -
  have "length (bytes_of s) < 2 ^ 32" using assms by simp
  from sha1_oneshot [OF this] have "mbedtls_sha1 (bytes_of s) = sha1_spec (bytes_of s)" by (simp add: mbedtls_sha1_def)
  then show ?thesis
    by (simp add: ToSha1Bytes_def ToSha1HexString_def ToSha256HexString_def digest_into_eq length_specs)
qed

theorem sha1_strings_witness: "ToSha1HexString ''abc'' False = ToSha256HexString ''abc'' False"
  using sha1_strings [of "''abc''" False] by simp

end
