(* ===== verification/Net_Buffer.thy ===== *)
theory Net_Buffer
  imports Prelude "HOL-Library.Monad_Syntax"
begin

text \<open>
  The network buffer (\<open>net/Buffer.h\<close>, \<open>net/Buffer.cc\<close>) and the byte order functions it calls
  (\<open>net/Endian.h\<close>): a vector of bytes with a read and a write index. The operations are translated
  one by one, with the arithmetic of \<open>size_t\<close> written out; a pointer into the buffer is its offset.
  The value \<open>None\<close> stands for a failed \<open>assert\<close> and for the exception of a vector that would exceed
  its maximal size. The locale \<open>byte_queue\<close> is the contract of the class: a first-in first-out
  queue of bytes.
\<close>

section \<open>Sizes\<close>

definition SIZE_MOD :: nat where
  "SIZE_MOD = 2 ^ 64"

text \<open>Addition and subtraction of \<open>size_t\<close>.\<close>

definition size_add :: "nat \<Rightarrow> nat \<Rightarrow> nat" where
  "size_add a b = (a + b) mod SIZE_MOD"

definition size_sub :: "nat \<Rightarrow> nat \<Rightarrow> nat" where
  "size_sub a b = (if b \<le> a then a - b else SIZE_MOD + a - b)"

lemma size_add_exact: "a + b < SIZE_MOD \<Longrightarrow> size_add a b = a + b"
  by (simp add: size_add_def)

lemma size_sub_exact [simp]: "b \<le> a \<Longrightarrow> size_sub a b = a - b"
  by (simp add: size_sub_def)

text \<open>The largest size of a \<open>std::vector<char>\<close>; a larger request throws \<open>std::length_error\<close>.\<close>

definition max_size :: nat where
  "max_size = 2 ^ 63 - 1"

lemma max_size_less: "2 * max_size < SIZE_MOD" "max_size + 8 < SIZE_MOD" "4104 < max_size" "2 ^ 32 < max_size"
  by (simp_all add: max_size_def SIZE_MOD_def)


section \<open>The buffer\<close>

definition kCheapPrepend :: nat where
  "kCheapPrepend = 8"

definition kInitialSize :: nat where
  "kInitialSize = 4096"

definition kExtraBufSize :: nat where
  "kExtraBufSize = 32768"

definition kCRLF :: string where
  "kCRLF = [CHR 0x0D, CHR 0x0A]"

record net_buffer =
  storage :: "char list"
  readerIndex :: nat
  writerIndex :: nat

definition assert_c :: "bool \<Rightarrow> unit option" where
  "assert_c P = (if P then Some () else None)"

lemma assert_c_simps [simp]: "assert_c True = Some ()" "assert_c False = None"
  by (simp_all add: assert_c_def)

text \<open>\<open>std::copy\<close> of \<open>data\<close> to offset \<open>off\<close> of the vector.\<close>

definition copy_to :: "nat \<Rightarrow> 'a list \<Rightarrow> 'a list \<Rightarrow> 'a list" where
  "copy_to off data buf = take off buf @ data @ drop (off + length data) buf"

definition resize_storage :: "nat \<Rightarrow> net_buffer \<Rightarrow> net_buffer option" where
  "resize_storage n b =
     (if max_size < n then None
      else Some (b\<lparr>storage := take n (storage b) @ replicate (n - length (storage b)) NUL\<rparr>))"

definition readableBytes :: "net_buffer \<Rightarrow> nat" where
  "readableBytes b = size_sub (writerIndex b) (readerIndex b)"

definition writableBytes :: "net_buffer \<Rightarrow> nat" where
  "writableBytes b = size_sub (length (storage b)) (writerIndex b)"

definition prependableBytes :: "net_buffer \<Rightarrow> nat" where
  "prependableBytes b = readerIndex b"

definition Buffer_new :: "nat \<Rightarrow> net_buffer option" where
  "Buffer_new initialSize = do {
     b \<leftarrow> resize_storage (size_add kCheapPrepend initialSize)
           \<lparr>storage = [], readerIndex = kCheapPrepend, writerIndex = kCheapPrepend\<rparr>;
     assert_c (readableBytes b = 0);
     assert_c (writableBytes b = initialSize);
     assert_c (prependableBytes b = kCheapPrepend);
     Some b }"

definition swap_buffers :: "net_buffer \<times> net_buffer \<Rightarrow> net_buffer \<times> net_buffer" where
  "swap_buffers p = (case p of (b, rhs) \<Rightarrow>
     (b\<lparr>storage := storage rhs, readerIndex := readerIndex rhs, writerIndex := writerIndex rhs\<rparr>,
      rhs\<lparr>storage := storage b, readerIndex := readerIndex b, writerIndex := writerIndex b\<rparr>))"

definition peek :: "net_buffer \<Rightarrow> nat" where
  "peek b = readerIndex b"

definition beginWrite :: "net_buffer \<Rightarrow> nat" where
  "beginWrite b = writerIndex b"

definition reverse_peek :: "nat \<Rightarrow> net_buffer \<Rightarrow> nat option" where
  "reverse_peek n b = (if n \<le> writerIndex b then Some (beginWrite b - n) else None)"

text \<open>
  \<open>std::search\<close> for \<open>kCRLF\<close> among the bytes from offset \<open>from\<close> up to \<open>until\<close>; when it is not
  found, the end of the range. A missing result of the search functions is \<open>None\<close>.
\<close>

fun search_from :: "string \<Rightarrow> string \<Rightarrow> nat" where
  "search_from pat [] = 0"
| "search_from pat (c # cs) = (if take (length pat) (c # cs) = pat then 0 else Suc (search_from pat cs))"

definition std_search :: "net_buffer \<Rightarrow> nat \<Rightarrow> nat \<Rightarrow> nat" where
  "std_search b from until = from + search_from kCRLF (take (until - from) (drop from (storage b)))"

definition findCRLF :: "net_buffer \<Rightarrow> nat option" where
  "findCRLF b = (let crlf = std_search b (peek b) (beginWrite b) in if crlf = beginWrite b then None else Some crlf)"

definition findCRLF_from :: "nat \<Rightarrow> net_buffer \<Rightarrow> nat option option" where
  "findCRLF_from start b = do {
     assert_c (peek b \<le> start);
     assert_c (start \<le> beginWrite b);
     Some (let crlf = std_search b start (beginWrite b) in if crlf = beginWrite b then None else Some crlf) }"

definition findEOL :: "net_buffer \<Rightarrow> nat option" where
  "findEOL b = memchr (storage b) (peek b) (CHR 0x0A) (readableBytes b)"

definition findEOL_from :: "nat \<Rightarrow> net_buffer \<Rightarrow> nat option option" where
  "findEOL_from start b = do {
     assert_c (peek b \<le> start);
     assert_c (start \<le> beginWrite b);
     Some (memchr (storage b) start (CHR 0x0A) (beginWrite b - start)) }"


subsection \<open>Reading\<close>

definition retrieveAll :: "net_buffer \<Rightarrow> net_buffer" where
  "retrieveAll b = b\<lparr>readerIndex := kCheapPrepend, writerIndex := kCheapPrepend\<rparr>"

definition retrieve :: "nat \<Rightarrow> net_buffer \<Rightarrow> net_buffer option" where
  "retrieve len b = do {
     assert_c (len \<le> readableBytes b);
     Some (if len < readableBytes b then b\<lparr>readerIndex := size_add (readerIndex b) len\<rparr> else retrieveAll b) }"

definition retrieveUntil :: "nat \<Rightarrow> net_buffer \<Rightarrow> net_buffer option" where
  "retrieveUntil end b = do {
     assert_c (peek b \<le> end);
     assert_c (end \<le> beginWrite b);
     retrieve (end - peek b) b }"

definition retrieveInt64 :: "net_buffer \<Rightarrow> net_buffer option" where "retrieveInt64 = retrieve 8"
definition retrieveInt32 :: "net_buffer \<Rightarrow> net_buffer option" where "retrieveInt32 = retrieve 4"
definition retrieveInt16 :: "net_buffer \<Rightarrow> net_buffer option" where "retrieveInt16 = retrieve 2"
definition retrieveInt8 :: "net_buffer \<Rightarrow> net_buffer option" where "retrieveInt8 = retrieve 1"

definition retrieveAsString :: "nat \<Rightarrow> net_buffer \<Rightarrow> (string \<times> net_buffer) option" where
  "retrieveAsString len b = do {
     assert_c (len \<le> readableBytes b);
     let result = take len (drop (peek b) (storage b));
     b' \<leftarrow> retrieve len b;
     Some (result, b') }"

definition retrieveAllAsString :: "net_buffer \<Rightarrow> (string \<times> net_buffer) option" where
  "retrieveAllAsString b = retrieveAsString (readableBytes b) b"


subsection \<open>Writing\<close>

definition makeSpace :: "nat \<Rightarrow> net_buffer \<Rightarrow> net_buffer option" where
  "makeSpace len b =
     (if size_add (writableBytes b) (prependableBytes b) < size_add len kCheapPrepend
      then resize_storage (size_add (writerIndex b) len) b
      else do {
        assert_c (kCheapPrepend < readerIndex b);
        let readable = readableBytes b;
        let b1 = b\<lparr>storage := copy_to kCheapPrepend (take readable (drop (readerIndex b) (storage b))) (storage b),
          readerIndex := kCheapPrepend, writerIndex := size_add kCheapPrepend readable\<rparr>;
        assert_c (readable = readableBytes b1);
        Some b1 })"

definition ensureWritableBytes :: "nat \<Rightarrow> net_buffer \<Rightarrow> net_buffer option" where
  "ensureWritableBytes len b = do {
     b' \<leftarrow> (if writableBytes b < len then makeSpace len b else Some b);
     assert_c (len \<le> writableBytes b');
     Some b' }"

definition hasWritten :: "nat \<Rightarrow> net_buffer \<Rightarrow> net_buffer option" where
  "hasWritten len b = do {
     assert_c (len \<le> writableBytes b);
     Some (b\<lparr>writerIndex := size_add (writerIndex b) len\<rparr>) }"

definition unwrite :: "nat \<Rightarrow> net_buffer \<Rightarrow> net_buffer option" where
  "unwrite len b = do {
     assert_c (len \<le> readableBytes b);
     Some (b\<lparr>writerIndex := size_sub (writerIndex b) len\<rparr>) }"

definition append_data :: "char list \<Rightarrow> net_buffer \<Rightarrow> net_buffer option" where
  "append_data data b = do {
     b1 \<leftarrow> ensureWritableBytes (length data) b;
     hasWritten (length data) (b1\<lparr>storage := copy_to (beginWrite b1) data (storage b1)\<rparr>) }"

definition prepend :: "char list \<Rightarrow> net_buffer \<Rightarrow> net_buffer option" where
  "prepend data b = do {
     assert_c (length data \<le> prependableBytes b);
     let b1 = b\<lparr>readerIndex := size_sub (readerIndex b) (length data)\<rparr>;
     Some (b1\<lparr>storage := copy_to (readerIndex b1) data (storage b1)\<rparr>) }"

text \<open>
  A \<open>StringPiece\<close> stores its length in an \<open>int\<close>: the cast keeps the low 32 bits as a signed
  number. A negative length becomes a size of almost \<open>2^64\<close> in \<open>append\<close>, which no vector has.
\<close>

definition int_cast :: "nat \<Rightarrow> int" where
  "int_cast n = sint (of_nat n :: 32 word)"

definition toStringPiece :: "net_buffer \<Rightarrow> string \<times> int" where
  "toStringPiece b = (drop (peek b) (storage b), int_cast (readableBytes b))"

definition append_piece :: "string \<times> int \<Rightarrow> net_buffer \<Rightarrow> net_buffer option" where
  "append_piece p b = (case p of (ptr, len) \<Rightarrow> if len < 0 then None else append_data (take (nat len) ptr) b)"

definition shrink :: "nat \<Rightarrow> net_buffer \<Rightarrow> net_buffer option" where
  "shrink reserve b = do {
     other \<leftarrow> Buffer_new kInitialSize;
     other \<leftarrow> ensureWritableBytes (size_add (readableBytes b) reserve) other;
     other \<leftarrow> append_piece (toStringPiece b) other;
     Some (fst (swap_buffers (b, other))) }"

definition shrink_if_need :: "nat \<Rightarrow> net_buffer \<Rightarrow> net_buffer option" where
  "shrink_if_need reserve b =
     (if writerIndex b = readerIndex b \<and> reserve < size_sub (length (storage b)) kCheapPrepend
      then shrink reserve b else Some b)"

text \<open>
  \<open>readFd\<close>: the parameter is the answer of \<open>readv\<close> to a request of so many bytes, an error number
  or the bytes it scattered over the two vectors. The result is the return value, the saved error
  number (when one is saved) and the buffer.
\<close>

definition iov_total :: "net_buffer \<Rightarrow> nat" where
  "iov_total b = (if writableBytes b < kExtraBufSize then writableBytes b + kExtraBufSize else writableBytes b)"

definition readFd :: "(nat \<Rightarrow> int + char list) \<Rightarrow> net_buffer \<Rightarrow> (int \<times> int option \<times> net_buffer) option" where
  "readFd readv b =
     (let writable = writableBytes b
      in case readv (iov_total b) of
           Inl errno \<Rightarrow> Some (- 1, Some errno, b)
         | Inr bytes \<Rightarrow>
             (let n = length bytes;
                  b1 = b\<lparr>storage := copy_to (writerIndex b) (take writable bytes) (storage b)\<rparr>
              in if n \<le> writable
                 then Some (int n, None, b1\<lparr>writerIndex := size_add (writerIndex b1) n\<rparr>)
                 else do {
                   b2 \<leftarrow> append_data (drop writable bytes) (b1\<lparr>writerIndex := length (storage b1)\<rparr>);
                   Some (int n, None, b2) }))"


subsection \<open>Integers\<close>

text \<open>
  The memory image of an integer of \<open>k\<close> bytes on the little-endian platforms of the library, and
  the byte swap that \<open>htobe64\<close> and its relatives are there. Signed integers are kept as words.
\<close>

primrec mem_bytes :: "nat \<Rightarrow> nat \<Rightarrow> char list" where
  "mem_bytes 0 n = []"
| "mem_bytes (Suc k) n = char_of (n mod 256) # mem_bytes k (n div 256)"

primrec mem_value :: "char list \<Rightarrow> nat" where
  "mem_value [] = 0"
| "mem_value (c # cs) = uchar c + 256 * mem_value cs"

definition bswap :: "nat \<Rightarrow> 'a::len word \<Rightarrow> 'a word" where
  "bswap k w = of_nat (mem_value (rev (mem_bytes k (unat w))))"

definition hostToNetwork64 :: "u64 \<Rightarrow> u64" where "hostToNetwork64 = bswap 8"
definition hostToNetwork32 :: "u32 \<Rightarrow> u32" where "hostToNetwork32 = bswap 4"
definition hostToNetwork16 :: "u16 \<Rightarrow> u16" where "hostToNetwork16 = bswap 2"
definition networkToHost64 :: "u64 \<Rightarrow> u64" where "networkToHost64 = bswap 8"
definition networkToHost32 :: "u32 \<Rightarrow> u32" where "networkToHost32 = bswap 4"
definition networkToHost16 :: "u16 \<Rightarrow> u16" where "networkToHost16 = bswap 2"

definition appendInt64 :: "u64 \<Rightarrow> net_buffer \<Rightarrow> net_buffer option" where
  "appendInt64 x = append_data (mem_bytes 8 (unat (hostToNetwork64 x)))"

definition appendInt32 :: "u32 \<Rightarrow> net_buffer \<Rightarrow> net_buffer option" where
  "appendInt32 x = append_data (mem_bytes 4 (unat (hostToNetwork32 x)))"

definition appendInt16 :: "u16 \<Rightarrow> net_buffer \<Rightarrow> net_buffer option" where
  "appendInt16 x = append_data (mem_bytes 2 (unat (hostToNetwork16 x)))"

definition appendInt8 :: "u8 \<Rightarrow> net_buffer \<Rightarrow> net_buffer option" where
  "appendInt8 x = append_data (mem_bytes 1 (unat x))"

definition peek_bytes :: "nat \<Rightarrow> net_buffer \<Rightarrow> nat option" where
  "peek_bytes k b = do {
     assert_c (k \<le> readableBytes b);
     Some (mem_value (take k (drop (peek b) (storage b)))) }"

definition peekInt64 :: "net_buffer \<Rightarrow> u64 option" where
  "peekInt64 b = do { be64 \<leftarrow> peek_bytes 8 b; Some (networkToHost64 (of_nat be64)) }"

definition peekInt32 :: "net_buffer \<Rightarrow> u32 option" where
  "peekInt32 b = do { be32 \<leftarrow> peek_bytes 4 b; Some (networkToHost32 (of_nat be32)) }"

definition peekInt16 :: "net_buffer \<Rightarrow> u16 option" where
  "peekInt16 b = do { be16 \<leftarrow> peek_bytes 2 b; Some (networkToHost16 (of_nat be16)) }"

definition peekInt8 :: "net_buffer \<Rightarrow> u8 option" where
  "peekInt8 b = do { x \<leftarrow> peek_bytes 1 b; Some (of_nat x) }"

definition readInt64 :: "net_buffer \<Rightarrow> (u64 \<times> net_buffer) option" where
  "readInt64 b = do { result \<leftarrow> peekInt64 b; b' \<leftarrow> retrieveInt64 b; Some (result, b') }"

definition readInt32 :: "net_buffer \<Rightarrow> (u32 \<times> net_buffer) option" where
  "readInt32 b = do { result \<leftarrow> peekInt32 b; b' \<leftarrow> retrieveInt32 b; Some (result, b') }"

definition readInt16 :: "net_buffer \<Rightarrow> (u16 \<times> net_buffer) option" where
  "readInt16 b = do { result \<leftarrow> peekInt16 b; b' \<leftarrow> retrieveInt16 b; Some (result, b') }"

definition readInt8 :: "net_buffer \<Rightarrow> (u8 \<times> net_buffer) option" where
  "readInt8 b = do { result \<leftarrow> peekInt8 b; b' \<leftarrow> retrieveInt8 b; Some (result, b') }"

definition prependInt64 :: "u64 \<Rightarrow> net_buffer \<Rightarrow> net_buffer option" where
  "prependInt64 x = prepend (mem_bytes 8 (unat (hostToNetwork64 x)))"

definition prependInt32 :: "u32 \<Rightarrow> net_buffer \<Rightarrow> net_buffer option" where
  "prependInt32 x = prepend (mem_bytes 4 (unat (hostToNetwork32 x)))"

definition prependInt16 :: "u16 \<Rightarrow> net_buffer \<Rightarrow> net_buffer option" where
  "prependInt16 x = prepend (mem_bytes 2 (unat (hostToNetwork16 x)))"

definition prependInt8 :: "u8 \<Rightarrow> net_buffer \<Rightarrow> net_buffer option" where
  "prependInt8 x = prepend (mem_bytes 1 (unat x))"


section \<open>Invariant and contents\<close>

text \<open>
  The picture in the comment of the class: \<open>0 \<le> readerIndex \<le> writerIndex \<le> size\<close>. The vector never
  shrinks below the prepend area; the read index may lie inside it after a \<open>prepend\<close>.
\<close>

definition buffer_inv :: "net_buffer \<Rightarrow> bool" where
  "buffer_inv b \<longleftrightarrow> readerIndex b \<le> writerIndex b \<and> writerIndex b \<le> length (storage b) \<and>
     kCheapPrepend \<le> length (storage b) \<and> length (storage b) \<le> max_size"

definition contents :: "net_buffer \<Rightarrow> string" where
  "contents b = take (writerIndex b - readerIndex b) (drop (readerIndex b) (storage b))"

text \<open>How much of the vector is in use: a bound on what the next \<open>append\<close> asks for.\<close>

definition used :: "net_buffer \<Rightarrow> nat" where
  "used b = max kCheapPrepend (writerIndex b)"

lemma length_contents: "buffer_inv b \<Longrightarrow> length (contents b) = writerIndex b - readerIndex b"
  by (auto simp: buffer_inv_def contents_def)

lemma inv_sizes:
  assumes "buffer_inv b"
  shows "readableBytes b = length (contents b)" "writableBytes b = length (storage b) - writerIndex b"
  using assms length_contents [OF assms] by (simp_all add: buffer_inv_def readableBytes_def writableBytes_def)

lemma size_add_inv:
  "a \<le> max_size \<Longrightarrow> b \<le> max_size \<Longrightarrow> size_add a b = a + b"
  using max_size_less by (simp add: size_add_exact)

lemma length_copy_to [simp]:
  "off + length data \<le> length buf \<Longrightarrow> length (copy_to off data buf) = length buf"
  by (simp add: copy_to_def)

lemma copy_to_parts:
  assumes "off + length data \<le> length buf"
  shows "take off (copy_to off data buf) = take off buf" "drop off (copy_to off data buf) = data @ drop (off + length data) buf"
    "drop (off + length data) (copy_to off data buf) = drop (off + length data) buf"
  using assms by (simp_all add: copy_to_def)


section \<open>Every operation on a well-formed buffer\<close>

lemma Buffer_new_ok:
  assumes "kCheapPrepend + n \<le> max_size"
  shows "\<exists>b. Buffer_new n = Some b \<and> buffer_inv b \<and> contents b = [] \<and> used b = kCheapPrepend"
  using assms max_size_less(2)
  by (auto simp: Buffer_new_def resize_storage_def size_add_exact kCheapPrepend_def readableBytes_def
      writableBytes_def prependableBytes_def buffer_inv_def contents_def used_def)

lemma makeSpace_ok:
  assumes "buffer_inv b" "writableBytes b < len" "len \<le> max_size"
    and "writerIndex b + len \<le> max_size \<or> makeSpace len b \<noteq> None"
  shows "\<exists>b'. makeSpace len b = Some b' \<and> buffer_inv b' \<and> contents b' = contents b \<and>
    len \<le> writableBytes b' \<and> used b' \<le> used b"
proof -
  have inv: "readerIndex b \<le> writerIndex b" "writerIndex b \<le> length (storage b)" "length (storage b) \<le> max_size"
    using assms(1) by (auto simp: buffer_inv_def)
  have w: "writableBytes b = length (storage b) - writerIndex b" using inv_sizes(2) [OF assms(1)] .
  have sums: "size_add len kCheapPrepend = len + kCheapPrepend" "size_add (writerIndex b) len = writerIndex b + len"
    "size_add (writableBytes b) (prependableBytes b) = writableBytes b + readerIndex b"
    using assms(3) inv w max_size_less unfolding prependableBytes_def kCheapPrepend_def
    by (intro size_add_exact; linarith)+
  show ?thesis
  proof (cases "writableBytes b + readerIndex b < len + kCheapPrepend")
    case True
    let ?b = "b\<lparr>storage := storage b @ replicate (writerIndex b + len - length (storage b)) NUL\<rparr>"
    have len: "writerIndex b + len \<le> max_size"
      using assms(4) True sums by (auto simp: makeSpace_def resize_storage_def split: if_splits)
    have "length (storage b) \<le> writerIndex b + len" using assms(2) w by simp
    then have "makeSpace len b = Some ?b"
      using True sums len by (simp add: makeSpace_def resize_storage_def)
    moreover have "buffer_inv ?b" "len \<le> writableBytes ?b"
      using assms inv w len by (auto simp: buffer_inv_def writableBytes_def)
    moreover have "contents ?b = contents b" using inv by (simp add: contents_def)
    ultimately show ?thesis by (simp add: used_def)
  next
    case False
    let ?xs = "contents b"
    let ?b = "b\<lparr>storage := copy_to kCheapPrepend ?xs (storage b), readerIndex := kCheapPrepend,
      writerIndex := kCheapPrepend + length ?xs\<rparr>"
    have r: "kCheapPrepend < readerIndex b" using False assms(2) by simp
    have lx: "length ?xs = writerIndex b - readerIndex b" using length_contents [OF assms(1)] .
    have fit: "kCheapPrepend + length ?xs \<le> length (storage b)" using r lx inv by simp
    have "take (length ?xs) (drop (readerIndex b) (storage b)) = ?xs" using lx by (simp add: contents_def)
    moreover have "size_add kCheapPrepend (length ?xs) = kCheapPrepend + length ?xs"
      using fit inv max_size_less(1) by (intro size_add_exact) simp
    moreover have "readableBytes ?b = length ?xs" by (simp add: readableBytes_def)
    ultimately have "makeSpace len b = Some ?b"
      using False sums r inv_sizes(1) [OF assms(1)] by (simp add: makeSpace_def Let_def)
    moreover have "buffer_inv ?b" using fit assms(1) by (simp add: buffer_inv_def)
    moreover have "contents ?b = ?xs" using copy_to_parts(2) [OF fit] by (simp add: contents_def [of ?b])
    moreover have "used ?b \<le> used b" using r lx inv by (simp add: used_def)
    moreover have "len \<le> writableBytes ?b" using False fit lx inv w by (simp add: writableBytes_def)
    ultimately show ?thesis by auto
  qed
qed

lemma ensureWritableBytes_ok:
  assumes "buffer_inv b" "len \<le> max_size" "writerIndex b + len \<le> max_size \<or> ensureWritableBytes len b \<noteq> None"
  shows "\<exists>b'. ensureWritableBytes len b = Some b' \<and> buffer_inv b' \<and> contents b' = contents b \<and>
    len \<le> writableBytes b' \<and> used b' \<le> used b"
proof (cases "writableBytes b < len")
  case True
  have "writerIndex b + len \<le> max_size \<or> makeSpace len b \<noteq> None"
    using assms(3) True by (auto simp: ensureWritableBytes_def)
  with makeSpace_ok [OF assms(1) True assms(2)] True show ?thesis by (auto simp: ensureWritableBytes_def)
qed (use assms in \<open>auto simp: ensureWritableBytes_def\<close>)

lemma write_contents:
  assumes "buffer_inv b" "length xs \<le> writableBytes b"
  shows "buffer_inv (b\<lparr>storage := copy_to (writerIndex b) xs (storage b), writerIndex := writerIndex b + length xs\<rparr>)"
    and "contents (b\<lparr>storage := copy_to (writerIndex b) xs (storage b), writerIndex := writerIndex b + length xs\<rparr>) =
      contents b @ xs"
proof -
  have inv: "readerIndex b \<le> writerIndex b" "writerIndex b \<le> length (storage b)"
    using assms(1) by (auto simp: buffer_inv_def)
  have fit: "writerIndex b + length xs \<le> length (storage b)"
    using assms inv_sizes(2) [OF assms(1)] inv by simp
  then show "buffer_inv (b\<lparr>storage := copy_to (writerIndex b) xs (storage b), writerIndex := writerIndex b + length xs\<rparr>)"
    using assms(1) by (simp add: buffer_inv_def)
  have "drop (readerIndex b) (take (writerIndex b + length xs) (copy_to (writerIndex b) xs (storage b))) =
      drop (readerIndex b) (take (writerIndex b) (storage b)) @ xs"
    using fit inv by (simp add: copy_to_def)
  then show "contents (b\<lparr>storage := copy_to (writerIndex b) xs (storage b), writerIndex := writerIndex b + length xs\<rparr>) =
      contents b @ xs"
    by (simp add: contents_def flip: drop_take)
qed

lemma hasWritten_copy:
  assumes "buffer_inv b" "length xs \<le> writableBytes b"
  shows "hasWritten (length xs) (b\<lparr>storage := copy_to (writerIndex b) xs (storage b)\<rparr>) =
    Some (b\<lparr>storage := copy_to (writerIndex b) xs (storage b), writerIndex := writerIndex b + length xs\<rparr>)"
proof -
  have fit: "writerIndex b + length xs \<le> length (storage b)" "length (storage b) \<le> max_size"
    using assms inv_sizes(2) [OF assms(1)] by (auto simp: buffer_inv_def)
  then have "size_add (writerIndex b) (length xs) = writerIndex b + length xs"
    using max_size_less(1) by (intro size_add_exact) simp
  moreover have "length xs \<le> length (storage b) - writerIndex b" using fit by linarith
  ultimately show ?thesis using fit by (simp add: hasWritten_def writableBytes_def)
qed

lemma append_data_ok:
  assumes "buffer_inv b" "length xs \<le> max_size" "writerIndex b + length xs \<le> max_size \<or> append_data xs b \<noteq> None"
  shows "\<exists>b'. append_data xs b = Some b' \<and> buffer_inv b' \<and> contents b' = contents b @ xs \<and>
    used b' \<le> used b + length xs"
proof -
  have "writerIndex b + length xs \<le> max_size \<or> ensureWritableBytes (length xs) b \<noteq> None"
    using assms(3) by (auto simp: append_data_def)
  then obtain b1 where b1: "ensureWritableBytes (length xs) b = Some b1" "buffer_inv b1" "contents b1 = contents b"
    "length xs \<le> writableBytes b1" "used b1 \<le> used b"
    using ensureWritableBytes_ok [OF assms(1,2)] by blast
  with hasWritten_copy [OF b1(2,4)] write_contents [OF b1(2,4)] show ?thesis
    by (auto simp: append_data_def beginWrite_def used_def)
qed

lemma append_in_place:
  assumes "buffer_inv b" "length xs \<le> writableBytes b"
  shows "append_data xs b =
    Some (b\<lparr>storage := copy_to (writerIndex b) xs (storage b), writerIndex := writerIndex b + length xs\<rparr>)"
  using hasWritten_copy [OF assms] assms(2) by (simp add: append_data_def ensureWritableBytes_def beginWrite_def)

lemma retrieve_ok:
  assumes "buffer_inv b" "n \<le> length (contents b)"
  shows "\<exists>b'. retrieve n b = Some b' \<and> buffer_inv b' \<and> contents b' = drop n (contents b) \<and> used b' \<le> used b"
proof (cases "n < length (contents b)")
  case True
  have "readerIndex b + n \<le> writerIndex b" "writerIndex b \<le> max_size"
    using True assms(1) length_contents [OF assms(1)] by (auto simp: buffer_inv_def)
  moreover from this have "size_add (readerIndex b) n = readerIndex b + n"
    using max_size_less(1) by (intro size_add_exact) simp
  ultimately show ?thesis
    using True assms inv_sizes(1) [OF assms(1)]
    by (auto simp: retrieve_def buffer_inv_def contents_def used_def drop_take add.commute)
next
  case False
  with assms inv_sizes(1) [OF assms(1)] show ?thesis
    by (auto simp: retrieve_def retrieveAll_def buffer_inv_def contents_def [of "b\<lparr>readerIndex := _, writerIndex := _\<rparr>"] used_def)
qed

lemma retrieveAsString_ok:
  assumes "buffer_inv b" "n \<le> length (contents b)"
  shows "\<exists>b'. retrieveAsString n b = Some (take n (contents b), b') \<and> buffer_inv b' \<and>
    contents b' = drop n (contents b) \<and> used b' \<le> used b"
proof -
  have "take n (drop (peek b) (storage b)) = take n (contents b)"
    using assms(2) length_contents [OF assms(1)] by (simp add: contents_def peek_def min_def)
  then show ?thesis
    using retrieve_ok [OF assms] assms(2) inv_sizes(1) [OF assms(1)] by (auto simp: retrieveAsString_def)
qed

lemma unwrite_ok:
  assumes "buffer_inv b" "n \<le> length (contents b)"
  shows "\<exists>b'. unwrite n b = Some b' \<and> buffer_inv b' \<and> contents b' = take (length (contents b) - n) (contents b) \<and>
    used b' \<le> used b"
proof -
  let ?b = "b\<lparr>writerIndex := writerIndex b - n\<rparr>"
  have n: "readerIndex b + n \<le> writerIndex b" "writerIndex b \<le> length (storage b)"
    using assms length_contents [OF assms(1)] by (auto simp: buffer_inv_def)
  then have "unwrite n b = Some ?b" using assms inv_sizes(1) [OF assms(1)] by (simp add: unwrite_def)
  moreover have "buffer_inv ?b" using assms(1) n by (auto simp: buffer_inv_def)
  moreover have "contents ?b = take (length (contents b) - n) (contents b)"
    unfolding length_contents [OF assms(1)] by (simp add: contents_def min_def diff_diff_add add.commute)
  moreover have "used ?b \<le> used b" by (auto simp: used_def)
  ultimately show ?thesis by blast
qed

lemma prepend_ok:
  assumes "buffer_inv b" "length xs \<le> readerIndex b"
  shows "\<exists>b'. prepend xs b = Some b' \<and> buffer_inv b' \<and> contents b' = xs @ contents b \<and> used b' = used b"
proof -
  let ?r = "readerIndex b - length xs"
  let ?b = "b\<lparr>readerIndex := ?r, storage := copy_to ?r xs (storage b)\<rparr>"
  have fit: "?r + length xs \<le> length (storage b)" using assms by (simp add: buffer_inv_def)
  have "prepend xs b = Some ?b" using assms(2) by (simp add: prepend_def prependableBytes_def Let_def)
  moreover have "buffer_inv ?b" using assms fit by (auto simp: buffer_inv_def)
  moreover have "contents ?b = xs @ contents b"
    using copy_to_parts(2) [OF fit] assms by (auto simp: contents_def buffer_inv_def)
  ultimately show ?thesis by (simp add: used_def)
qed


lemma swap_buffers_fst [simp]: "fst (swap_buffers (b, c)) = c"
  by (cases b; cases c) (simp add: swap_buffers_def)

lemma int_cast_small: "n < 2 ^ 31 \<Longrightarrow> int_cast n = int n"
  by (simp add: int_cast_def signed_of_nat signed_take_bit_int_eq_self)

lemma shrink_ok:
  assumes "buffer_inv b" "length (contents b) < 2 ^ 31" "length (contents b) + reserve + kCheapPrepend \<le> max_size"
  shows "\<exists>b'. shrink reserve b = Some b' \<and> buffer_inv b' \<and> contents b' = contents b \<and> reserve \<le> writableBytes b'"
proof -
  let ?n = "length (contents b)"
  obtain b0 where b0: "Buffer_new kInitialSize = Some b0" "buffer_inv b0" "contents b0 = []" "used b0 = kCheapPrepend"
    using Buffer_new_ok [of kInitialSize] max_size_less(3) by (auto simp: kCheapPrepend_def kInitialSize_def)
  have "writerIndex b0 \<le> kCheapPrepend" using b0(4) by (simp add: used_def)
  then obtain b1 where b1: "ensureWritableBytes (?n + reserve) b0 = Some b1" "buffer_inv b1" "contents b1 = []"
    "?n + reserve \<le> writableBytes b1"
    using ensureWritableBytes_ok [OF b0(2), of "?n + reserve"] b0(3) assms(3) by auto
  have room: "?n \<le> writableBytes b1" using b1(4) by simp
  let ?b = "b1\<lparr>storage := copy_to (writerIndex b1) (contents b) (storage b1), writerIndex := writerIndex b1 + ?n\<rparr>"
  have "toStringPiece b = (drop (readerIndex b) (storage b), int ?n)"
    using assms(2) inv_sizes(1) [OF assms(1)] by (simp add: toStringPiece_def peek_def int_cast_small)
  moreover have "take ?n (drop (readerIndex b) (storage b)) = contents b"
    unfolding length_contents [OF assms(1)] by (simp add: contents_def)
  ultimately have "append_piece (toStringPiece b) b1 = Some ?b"
    using append_in_place [OF b1(2) room] by (simp add: append_piece_def)
  moreover have "size_add (readableBytes b) reserve = ?n + reserve"
    using assms(3) max_size_less(1) inv_sizes(1) [OF assms(1)] by (simp add: size_add_exact)
  ultimately have "shrink reserve b = Some ?b" using b0(1) b1(1) by (simp add: shrink_def)
  moreover have "reserve \<le> writableBytes ?b"
    using b1(4) inv_sizes(2) [OF b1(2)] inv_sizes(2) [OF write_contents(1) [OF b1(2) room]] b1(2)
    by (auto simp: buffer_inv_def)
  ultimately show ?thesis using write_contents [OF b1(2) room] b1(3) by simp
qed


text \<open>
  \<open>readv\<close> promises not to deliver more bytes than it was asked for. Then \<open>readFd\<close> appends what was
  delivered, also when part of it went to the stack buffer.
\<close>

lemma readFd_ok:
  assumes "buffer_inv b" "length (storage b) + kExtraBufSize \<le> max_size"
    and "readv (iov_total b) = Inr bytes"
    and "length bytes \<le> iov_total b"
  shows "\<exists>b'. readFd readv b = Some (int (length bytes), None, b') \<and> buffer_inv b' \<and> contents b' = contents b @ bytes"
proof -
  let ?w = "writableBytes b"
  let ?st = "copy_to (writerIndex b) (take ?w bytes) (storage b)"
  have inv: "writerIndex b \<le> length (storage b)" "?w = length (storage b) - writerIndex b"
    using assms(1) inv_sizes(2) [OF assms(1)] by (auto simp: buffer_inv_def)
  have first: "length (take ?w bytes) \<le> ?w" by simp
  let ?b1 = "b\<lparr>storage := ?st, writerIndex := writerIndex b + length (take ?w bytes)\<rparr>"
  note wr = write_contents [OF assms(1) first]
  show ?thesis
  proof (cases "length bytes \<le> ?w")
    case True
    then have "size_add (writerIndex b) (length bytes) = writerIndex b + length bytes"
      using inv assms(2) max_size_less(1) by (intro size_add_exact) simp
    with True assms(3) have "readFd readv b = Some (int (length bytes), None, ?b1)"
      by (simp add: readFd_def Let_def)
    with wr True show ?thesis by simp
  next
    case False
    let ?rest = "drop ?w bytes"
    have len: "length ?st = length (storage b)" "writerIndex ?b1 = length (storage b)"
      using inv False by simp_all
    have "length ?rest \<le> kExtraBufSize" using assms(4) False by (auto simp: iov_total_def split: if_splits)
    then obtain b2 where b2: "append_data ?rest ?b1 = Some b2" "buffer_inv b2" "contents b2 = contents ?b1 @ ?rest"
      using append_data_ok [OF wr(1), of ?rest] assms(2) len(2) by auto
    moreover have "b\<lparr>storage := ?st, writerIndex := length ?st\<rparr> = ?b1" using len by simp
    ultimately have "readFd readv b = Some (int (length bytes), None, b2)"
      using False assms(3) by (simp add: readFd_def Let_def)
    with b2 wr(2) show ?thesis by simp
  qed
qed


section \<open>The contract: a queue of bytes\<close>

datatype queue_op = Write string | Read nat

fun run_queue :: "(string \<Rightarrow> 'b \<Rightarrow> 'b option) \<Rightarrow> (nat \<Rightarrow> 'b \<Rightarrow> (string \<times> 'b) option) \<Rightarrow> queue_op list \<Rightarrow> 'b \<Rightarrow>
    (string \<times> 'b) option" where
  "run_queue put get [] b = Some ([], b)"
| "run_queue put get (Write xs # ops) b = do { b' \<leftarrow> put xs b; run_queue put get ops b' }"
| "run_queue put get (Read n # ops) b =
     do { (xs, b') \<leftarrow> get n b; (ys, b'') \<leftarrow> run_queue put get ops b'; Some (xs @ ys, b'') }"

text \<open>The abstract queue, a list that is written at its end and read at its front.\<close>

definition list_write :: "string \<Rightarrow> string \<Rightarrow> string option" where
  "list_write xs q = Some (q @ xs)"

definition list_read :: "nat \<Rightarrow> string \<Rightarrow> (string \<times> string) option" where
  "list_read n q = (if n \<le> length q then Some (take n q, drop n q) else None)"

fun written :: "queue_op list \<Rightarrow> string" where
  "written [] = []"
| "written (Write xs # ops) = xs @ written ops"
| "written (Read n # ops) = written ops"

lemma list_read_Some:
  "list_read n q = Some p \<longleftrightarrow> n \<le> length q \<and> p = (take n q, drop n q)"
  by (auto simp: list_read_def)

lemma list_fifo: "run_queue list_write list_read ops q = Some (out, q') \<Longrightarrow> out @ q' = q @ written ops"
proof (induction ops arbitrary: q out)
  case (Cons op ops)
  show ?case
  proof (cases op)
    case (Read n)
    with Cons.prems obtain ys where "n \<le> length q" "run_queue list_write list_read ops (drop n q) = Some (ys, q')"
      "out = take n q @ ys" by (auto simp: list_read_Some bind_eq_Some_conv)
    with Cons.IH [of "drop n q" ys] Read show ?thesis by simp
  qed (use Cons in \<open>auto simp: list_write_def\<close>)
qed simp

locale byte_queue =
  fixes inv :: "'b \<Rightarrow> bool" and abs :: "'b \<Rightarrow> string" and size_in_use :: "'b \<Rightarrow> nat" and limit :: nat
    and put :: "string \<Rightarrow> 'b \<Rightarrow> 'b option" and get :: "nat \<Rightarrow> 'b \<Rightarrow> (string \<times> 'b) option"
  assumes write_law: "inv b \<Longrightarrow> size_in_use b + length xs \<le> limit \<Longrightarrow>
      \<exists>b'. put xs b = Some b' \<and> inv b' \<and> abs b' = abs b @ xs \<and> size_in_use b' \<le> size_in_use b + length xs"
    and read_law: "inv b \<Longrightarrow> n \<le> length (abs b) \<Longrightarrow>
      \<exists>b'. get n b = Some (take n (abs b), b') \<and> inv b' \<and> abs b' = drop n (abs b) \<and> size_in_use b' \<le> size_in_use b"
begin

text \<open>Every run of the abstract queue is a run of the implementation, with the same output.\<close>

lemma simulates:
  assumes "inv b" "size_in_use b + length (written ops) \<le> limit"
    and "run_queue list_write list_read ops (abs b) = Some (out, q)"
  shows "\<exists>b'. run_queue put get ops b = Some (out, b') \<and> inv b' \<and> abs b' = q"
  using assms
proof (induction ops arbitrary: b out)
  case (Cons op ops)
  show ?case
  proof (cases op)
    case (Write xs)
    with write_law [of b xs] Cons.prems obtain b1 where
      "put xs b = Some b1" "inv b1" "abs b1 = abs b @ xs" "size_in_use b1 \<le> size_in_use b + length xs" by auto
    with Cons.IH [of b1 out] Cons.prems Write show ?thesis by (auto simp: list_write_def)
  next
    case (Read n)
    with Cons.prems obtain ys where n: "n \<le> length (abs b)" "out = take n (abs b) @ ys"
      "run_queue list_write list_read ops (drop n (abs b)) = Some (ys, q)"
      by (auto simp: list_read_Some bind_eq_Some_conv)
    with read_law [of b n] Cons.prems obtain b1 where
      "get n b = Some (take n (abs b), b1)" "inv b1" "abs b1 = drop n (abs b)" "size_in_use b1 \<le> size_in_use b" by auto
    with Cons.IH [of b1 ys] Cons.prems Read n show ?thesis by auto
  qed
qed auto

lemma fifo:
  assumes "inv b" "size_in_use b + length (written ops) \<le> limit"
    and "run_queue list_write list_read ops (abs b) = Some (out, q)"
  shows "\<exists>b'. run_queue put get ops b = Some (out, b') \<and> inv b' \<and> out @ abs b' = abs b @ written ops"
  using simulates [OF assms] list_fifo [OF assms(3)] by auto

end

interpretation net_queue: byte_queue buffer_inv contents used max_size append_data retrieveAsString
proof unfold_locales
  fix b and xs :: string
  assume "buffer_inv b" "used b + length xs \<le> max_size"
  moreover from this have "writerIndex b + length xs \<le> max_size" "length xs \<le> max_size" by (auto simp: used_def)
  ultimately show "\<exists>b'. append_data xs b = Some b' \<and> buffer_inv b' \<and> contents b' = contents b @ xs \<and>
      used b' \<le> used b + length xs"
    using append_data_ok by blast
qed (rule retrieveAsString_ok)


section \<open>Integers in network byte order\<close>

lemma length_mem_bytes [simp]: "length (mem_bytes k n) = k"
  by (induction k arbitrary: n) auto

lemma mem_value_less: "mem_value bs < 256 ^ length bs"
proof (induction bs)
  case (Cons c cs)
  have "256 * (mem_value cs + 1) \<le> 256 * 256 ^ length cs" using Cons by (intro mult_le_mono2) simp
  with uchar_less [of c] show ?case by (simp del: uchar_less)
qed simp

lemma uchar_char_of_mod: "uchar (char_of n) = n mod 256"
  by (simp add: uchar_def)

lemma of_nat_byte: "of_nat (uchar (char_of (unat (x :: u8)))) = x"
proof -
  have "unat x < 2 ^ LENGTH(8)" by (rule unsigned_less)
  then show ?thesis by simp
qed

lemma mem_value_bytes: "mem_value (mem_bytes k n) = n mod 256 ^ k"
  by (induction k arbitrary: n) (auto simp: mod_mult2_eq uchar_char_of_mod)

lemma mem_bytes_value: "mem_bytes (length bs) (mem_value bs) = bs"
  by (induction bs) auto

lemma bswap_bytes:
  assumes "LENGTH('a::len) = 8 * k"
  shows "mem_bytes k (unat (bswap k (w :: 'a word))) = rev (mem_bytes k (unat w))"
proof -
  let ?bs = "rev (mem_bytes k (unat w))"
  have "mem_value ?bs < 2 ^ LENGTH('a)" using mem_value_less [of ?bs] assms by (simp add: power_mult)
  then have "unat (bswap k w) = mem_value ?bs" by (simp add: bswap_def unat_of_nat)
  then show ?thesis using mem_bytes_value [of ?bs] by simp
qed

lemma bswap_value:
  assumes "LENGTH('a::len) = 8 * k"
  shows "bswap k (of_nat (mem_value (rev (mem_bytes k (unat (w :: 'a word))))) :: 'a word) = w"
proof -
  have "unat w < 256 ^ k" using unsigned_less [of w] assms by (simp add: power_mult)
  then have "mem_value (mem_bytes k (unat w)) = unat w" by (simp add: mem_value_bytes)
  moreover have "(of_nat (mem_value (rev (mem_bytes k (unat w)))) :: 'a word) = bswap k w" by (simp add: bswap_def)
  ultimately show ?thesis
    using bswap_bytes [OF assms, of w] by (simp add: bswap_def [of k "bswap k w"])
qed

lemma peek_bytes_front:
  assumes "buffer_inv b" "contents b = bs @ rest"
  shows "peek_bytes (length bs) b = Some (mem_value bs)"
proof -
  have "length bs \<le> writerIndex b - readerIndex b" using length_contents [OF assms(1)] assms(2) by simp
  then have "take (length bs) (drop (readerIndex b) (storage b)) = take (length bs) (contents b)"
    by (simp add: contents_def)
  also have "\<dots> = bs" using assms(2) by simp
  finally show ?thesis using assms inv_sizes(1) [OF assms(1)] by (simp add: peek_bytes_def peek_def)
qed

lemmas int_defs = prependInt64_def prependInt32_def prependInt16_def prependInt8_def
  readInt64_def readInt32_def readInt16_def readInt8_def peekInt64_def peekInt32_def peekInt16_def peekInt8_def
  retrieveInt64_def retrieveInt32_def retrieveInt16_def retrieveInt8_def
  appendInt64_def appendInt32_def appendInt16_def appendInt8_def
  hostToNetwork64_def hostToNetwork32_def hostToNetwork16_def
  networkToHost64_def networkToHost32_def networkToHost16_def bswap_bytes bswap_value

lemma front_bytes:
  assumes "buffer_inv b" "length bs \<le> readerIndex b"
  shows "\<exists>b1 b2. prepend bs b = Some b1 \<and> peek_bytes (length bs) b1 = Some (mem_value bs) \<and>
    retrieve (length bs) b1 = Some b2 \<and> buffer_inv b2 \<and> contents b2 = contents b"
proof -
  obtain b1 where b1: "prepend bs b = Some b1" "buffer_inv b1" "contents b1 = bs @ contents b"
    using prepend_ok [OF assms] by blast
  with peek_bytes_front [OF b1(2,3)] retrieve_ok [OF b1(2), of "length bs"] show ?thesis by auto
qed

lemma prepend_read_int:
  assumes "buffer_inv b"
  shows "8 \<le> readerIndex b \<Longrightarrow> \<exists>b'. prependInt64 x64 b \<bind> readInt64 = Some (x64, b') \<and> buffer_inv b' \<and> contents b' = contents b"
    and "4 \<le> readerIndex b \<Longrightarrow> \<exists>b'. prependInt32 x32 b \<bind> readInt32 = Some (x32, b') \<and> buffer_inv b' \<and> contents b' = contents b"
    and "2 \<le> readerIndex b \<Longrightarrow> \<exists>b'. prependInt16 x16 b \<bind> readInt16 = Some (x16, b') \<and> buffer_inv b' \<and> contents b' = contents b"
    and "1 \<le> readerIndex b \<Longrightarrow> \<exists>b'. prependInt8 x8 b \<bind> readInt8 = Some (x8, b') \<and> buffer_inv b' \<and> contents b' = contents b"
  using front_bytes [OF assms, of "rev (mem_bytes 8 (unat x64))"] front_bytes [OF assms, of "rev (mem_bytes 4 (unat x32))"]
    front_bytes [OF assms, of "rev (mem_bytes 2 (unat x16))"] front_bytes [OF assms, of "mem_bytes 1 (unat x8)"]
  by (auto simp: int_defs of_nat_byte)

lemma append_int:
  assumes "buffer_inv b" "writerIndex b + 8 \<le> max_size"
  shows "\<exists>b'. appendInt64 x64 b = Some b' \<and> buffer_inv b' \<and> contents b' = contents b @ rev (mem_bytes 8 (unat x64))"
    and "\<exists>b'. appendInt32 x32 b = Some b' \<and> buffer_inv b' \<and> contents b' = contents b @ rev (mem_bytes 4 (unat x32))"
    and "\<exists>b'. appendInt16 x16 b = Some b' \<and> buffer_inv b' \<and> contents b' = contents b @ rev (mem_bytes 2 (unat x16))"
    and "\<exists>b'. appendInt8 x8 b = Some b' \<and> buffer_inv b' \<and> contents b' = contents b @ mem_bytes 1 (unat x8)"
  using append_data_ok [OF assms(1), of "rev (mem_bytes 8 (unat x64))"] append_data_ok [OF assms(1), of "rev (mem_bytes 4 (unat x32))"]
    append_data_ok [OF assms(1), of "rev (mem_bytes 2 (unat x16))"] append_data_ok [OF assms(1), of "mem_bytes 1 (unat x8)"] assms(2)
  by (auto simp: int_defs)


section \<open>Lines\<close>

lemma search_from_first:
  assumes "\<forall>i < length line. take (length pat) (drop i (line @ pat @ rest)) \<noteq> pat" "pat \<noteq> []"
  shows "search_from pat (line @ pat @ rest) = length line"
  using assms
proof (induction line)
  case Nil
  then show ?case by (cases pat) auto
next
  case (Cons c line)
  have "\<forall>i < length line. take (length pat) (drop i (line @ pat @ rest)) \<noteq> pat"
    using Cons.prems(1) by (metis Suc_less_eq append_Cons drop_Suc_Cons length_Cons)
  moreover have "take (length pat) ((c # line) @ pat @ rest) \<noteq> pat" using Cons.prems(1) by (metis drop0 length_greater_0_conv list.discI)
  ultimately show ?case using Cons.IH Cons.prems(2) by simp
qed

lemma findCRLF_line:
  assumes "buffer_inv b" "contents b = line @ kCRLF @ rest"
    and "\<forall>i < length line. take 2 (drop i (contents b)) \<noteq> kCRLF"
  shows "findCRLF b = Some (readerIndex b + length line)"
proof -
  have l: "length kCRLF = 2" "kCRLF \<noteq> []" by (simp_all add: kCRLF_def)
  have "std_search b (peek b) (beginWrite b) = readerIndex b + length line"
    using search_from_first [of line kCRLF rest] assms(2,3) l
    by (simp add: std_search_def peek_def beginWrite_def contents_def)
  moreover have "readerIndex b + length line < writerIndex b"
    using length_contents [OF assms(1)] assms(2) l by simp
  ultimately show ?thesis by (simp add: findCRLF_def beginWrite_def)
qed

lemma search_from_None: "(\<forall>i < length xs. take (length pat) (drop i xs) \<noteq> pat) \<Longrightarrow> search_from pat xs = length xs"
proof (induction xs)
  case (Cons c cs)
  have "\<forall>i < length cs. take (length pat) (drop i cs) \<noteq> pat" using Cons.prems by (metis Suc_less_eq drop_Suc_Cons length_Cons)
  moreover have "take (length pat) (c # cs) \<noteq> pat" using Cons.prems by (metis drop0 length_greater_0_conv list.discI)
  ultimately show ?case using Cons.IH by simp
qed simp

lemma findCRLF_none:
  assumes "buffer_inv b" "\<forall>i < length (contents b). take 2 (drop i (contents b)) \<noteq> kCRLF"
  shows "findCRLF b = None"
proof -
  have "search_from kCRLF (contents b) = length (contents b)"
    using search_from_None [of "contents b" kCRLF] assms(2) by (simp add: kCRLF_def numeral_2_eq_2)
  then show ?thesis
    using assms(1) length_contents [OF assms(1)]
    by (auto simp: findCRLF_def std_search_def peek_def beginWrite_def contents_def buffer_inv_def)
qed

lemma retrieveUntil_ok:
  assumes "buffer_inv b" "n \<le> length (contents b)"
  shows "\<exists>b'. retrieveUntil (readerIndex b + n) b = Some b' \<and> buffer_inv b' \<and> contents b' = drop n (contents b)"
proof -
  have "readerIndex b + n \<le> writerIndex b" using assms length_contents [OF assms(1)] by (auto simp: buffer_inv_def)
  with retrieve_ok [OF assms] show ?thesis by (auto simp: retrieveUntil_def peek_def beginWrite_def)
qed


section \<open>Every reachable buffer\<close>

text \<open>
  One call of a state-changing operation that returns. Lengths are those of memory that exists;
  before \<open>hasWritten\<close> the client has filled the writable bytes, and \<open>readv\<close> keeps its promise.
\<close>

inductive buffer_step :: "net_buffer \<Rightarrow> net_buffer \<Rightarrow> bool" where
  step_append: "append_data xs b = Some b' \<Longrightarrow> length xs \<le> max_size \<Longrightarrow> buffer_step b b'"
| step_prepend: "prepend xs b = Some b' \<Longrightarrow> buffer_step b b'"
| step_retrieve: "retrieve n b = Some b' \<Longrightarrow> buffer_step b b'"
| step_retrieveUntil: "retrieveUntil p b = Some b' \<Longrightarrow> buffer_step b b'"
| step_retrieveAsString: "retrieveAsString n b = Some (xs, b') \<Longrightarrow> buffer_step b b'"
| step_retrieveAll: "buffer_step b (retrieveAll b)"
| step_ensure: "ensureWritableBytes n b = Some b' \<Longrightarrow> n \<le> max_size \<Longrightarrow> buffer_step b b'"
| step_written: "hasWritten (length xs) (b\<lparr>storage := copy_to (beginWrite b) xs (storage b)\<rparr>) = Some b' \<Longrightarrow>
    length xs \<le> writableBytes b \<Longrightarrow> buffer_step b b'"
| step_unwrite: "unwrite n b = Some b' \<Longrightarrow> buffer_step b b'"
| step_shrink: "shrink n b = Some b' \<Longrightarrow> length (contents b) < 2 ^ 31 \<Longrightarrow>
    length (contents b) + n + kCheapPrepend \<le> max_size \<Longrightarrow> buffer_step b b'"
| step_readFd: "readFd readv b = Some (n, e, b') \<Longrightarrow> length (storage b) + kExtraBufSize \<le> max_size \<Longrightarrow>
    (\<And>k bytes. readv k = Inr bytes \<Longrightarrow> length bytes \<le> k) \<Longrightarrow> buffer_step b b'"

lemma readFd_inv:
  assumes "readFd readv b = Some (n, e, b')" "buffer_inv b" "length (storage b) + kExtraBufSize \<le> max_size"
    and "\<And>k bytes. readv k = Inr bytes \<Longrightarrow> length bytes \<le> k"
  shows "buffer_inv b'"
proof (cases "readv (iov_total b)")
  case (Inl errno)
  with assms(1,2) show ?thesis by (simp add: readFd_def Let_def)
next
  case (Inr bytes)
  with readFd_ok [of b readv bytes] assms(1-3) assms(4) [of "iov_total b" bytes] show ?thesis by auto
qed

lemma retrieve_Some: "buffer_inv b \<Longrightarrow> retrieve n b = Some b' \<Longrightarrow> buffer_inv b'"
  using retrieve_ok [of b n] inv_sizes(1) [of b] by (auto simp: retrieve_def bind_eq_Some_conv assert_c_def split: if_splits)

lemma assert_then_Some [simp]: "assert_c P \<bind> (\<lambda>_. m) = Some y \<longleftrightarrow> P \<and> m = Some y"
  by (simp add: assert_c_def)

lemma buffer_step_inv:
  assumes "buffer_step b b'" "buffer_inv b"
  shows "buffer_inv b'"
  using assms
proof (induction rule: buffer_step.induct)
  case (step_append xs b b')
  then show ?case using append_data_ok [of b xs] by auto
next
  case (step_prepend xs b b')
  moreover from this have "length xs \<le> readerIndex b" by (simp add: prepend_def prependableBytes_def)
  ultimately show ?case using prepend_ok [of b xs] by auto
next
  case (step_ensure n b b')
  then show ?case using ensureWritableBytes_ok [of b n] by auto
next
  case (step_written xs b b')
  then show ?case using hasWritten_copy [of b xs] write_contents(1) [of b xs] by (simp add: beginWrite_def)
next
  case (step_unwrite n b b')
  moreover from this have "n \<le> length (contents b)" by (simp add: unwrite_def inv_sizes)
  ultimately show ?case using unwrite_ok [of b n] by auto
next
  case (step_shrink n b b')
  then show ?case using shrink_ok [of b n] by auto
next
  case (step_readFd readv b n e b')
  then show ?case using readFd_inv by blast
next
  case (step_retrieveAll b)
  then show ?case by (simp add: retrieveAll_def buffer_inv_def)
qed (auto simp: retrieveUntil_def retrieveAsString_def bind_eq_Some_conv intro: retrieve_Some)


lemma buffer_steps_inv: "buffer_step\<^sup>*\<^sup>* b b' \<Longrightarrow> buffer_inv b \<Longrightarrow> buffer_inv b'"
  by (induction rule: rtranclp_induct) (auto intro: buffer_step_inv)

text \<open>A length near the end of \<open>size_t\<close> wraps around in \<open>makeSpace\<close> and breaks the invariant.\<close>

lemma ensureWritableBytes_wraps:
  assumes "length st = 4104"
  shows "\<exists>b'. ensureWritableBytes (2 ^ 64 - 12) \<lparr>storage = st, readerIndex = 8, writerIndex = 20\<rparr> = Some b' \<and>
    length (storage b') = 8 \<and> writerIndex b' = 20"
  using assms by (simp add: ensureWritableBytes_def writableBytes_def makeSpace_def prependableBytes_def size_add_def
      SIZE_MOD_def kCheapPrepend_def resize_storage_def max_size_def size_sub_def)


section \<open>Properties\<close>

text \<open>
  C13: the buffer is a queue of bytes. Whatever sequence of \<open>append\<close> and \<open>retrieveAsString\<close> the
  abstract queue (a list) can perform, the buffer performs with the same output: no assertion fails
  as long as the vector may hold what was written, the bytes read followed by the bytes left are the
  bytes there were followed by the bytes written, and the indices stay in order, through all the
  moves and reallocations of \<open>makeSpace\<close>.
\<close>

theorem buffer_fifo:
  assumes "buffer_inv b" "used b + length (written ops) \<le> max_size"
    and "run_queue list_write list_read ops (contents b) = Some (out, q)"
  shows "\<exists>b'. run_queue append_data retrieveAsString ops b = Some (out, b') \<and> buffer_inv b' \<and> contents b' = q \<and>
    out @ contents b' = contents b @ written ops"
  using net_queue.simulates [OF assms] net_queue.fifo [OF assms] by auto

theorem buffer_fifo_witness:
  "\<exists>b'. run_queue append_data retrieveAsString [Write ''abc'', Read 2, Write ''de'', Read 3]
      \<lparr>storage = replicate 9 NUL, readerIndex = 8, writerIndex = 8\<rparr> = Some (''abcde'', b') \<and> contents b' = []"
  using buffer_fifo [of "\<lparr>storage = replicate 9 NUL, readerIndex = 8, writerIndex = 8\<rparr>"
      "[Write ''abc'', Read 2, Write ''de'', Read 3]" "''abcde''" "[]"]
  by (auto simp: buffer_inv_def kCheapPrepend_def max_size_def used_def contents_def list_write_def list_read_def)

text \<open>
  C14: the picture in the comment of the class holds for every buffer a program can make: after the
  constructor and any sequence of operations that return, \<open>readerIndex\<close> is at most \<open>writerIndex\<close>,
  which is at most the size of the vector, and the vector holds the prepend area.
\<close>

theorem buffer_always_well_formed:
  assumes "Buffer_new n = Some b0" "n + kCheapPrepend \<le> max_size" "buffer_step\<^sup>*\<^sup>* b0 b"
  shows "readerIndex b \<le> writerIndex b \<and> writerIndex b \<le> length (storage b) \<and> kCheapPrepend \<le> length (storage b) \<and>
    readableBytes b + writableBytes b + prependableBytes b = length (storage b)"
proof -
  have inv: "buffer_inv b" using Buffer_new_ok [of n] assms buffer_steps_inv [OF assms(3)] by (simp add: add.commute)
  then show ?thesis
    using inv_sizes [OF inv] length_contents [OF inv] by (auto simp: buffer_inv_def prependableBytes_def)
qed

theorem buffer_always_well_formed_witness:
  "\<exists>b0 b. Buffer_new 1 = Some b0 \<and> append_data ''ab'' b0 = Some b \<and>
    readableBytes b + writableBytes b + prependableBytes b = length (storage b)"
proof -
  obtain b0 where b0: "Buffer_new 1 = Some b0" "buffer_inv b0" "used b0 = kCheapPrepend"
    using Buffer_new_ok [of 1] by (auto simp: kCheapPrepend_def max_size_def)
  moreover have "writerIndex b0 \<le> 8" using b0(3) by (simp add: used_def kCheapPrepend_def)
  ultimately obtain b where b: "append_data ''ab'' b0 = Some b"
    using append_data_ok [OF b0(2), of "''ab''"] by (auto simp: max_size_def)
  have "buffer_step\<^sup>*\<^sup>* b0 b" using step_append [OF b] by (auto simp: max_size_def)
  with b b0(1) show ?thesis using buffer_always_well_formed [of 1 b0 b] by (auto simp: kCheapPrepend_def max_size_def)
qed

text \<open>
  Integers travel in network byte order and come back. Appending an integer of 64, 32, 16 or 8
  bits appends its bytes, most significant first; an integer put in front of the contents is what the
  read function of its width returns, and reading it leaves the contents as they were.
\<close>

theorem buffer_int_roundtrip:
  assumes "buffer_inv b" "8 \<le> readerIndex b" "writerIndex b + 8 \<le> max_size"
  shows "(\<exists>b'. appendInt64 x64 b = Some b' \<and> contents b' = contents b @ rev (mem_bytes 8 (unat x64))) \<and>
    (\<exists>b'. appendInt32 x32 b = Some b' \<and> contents b' = contents b @ rev (mem_bytes 4 (unat x32))) \<and>
    (\<exists>b'. appendInt16 x16 b = Some b' \<and> contents b' = contents b @ rev (mem_bytes 2 (unat x16))) \<and>
    (\<exists>b'. appendInt8 x8 b = Some b' \<and> contents b' = contents b @ mem_bytes 1 (unat x8)) \<and>
    (\<exists>b'. prependInt64 x64 b \<bind> readInt64 = Some (x64, b') \<and> contents b' = contents b) \<and>
    (\<exists>b'. prependInt32 x32 b \<bind> readInt32 = Some (x32, b') \<and> contents b' = contents b) \<and>
    (\<exists>b'. prependInt16 x16 b \<bind> readInt16 = Some (x16, b') \<and> contents b' = contents b) \<and>
    (\<exists>b'. prependInt8 x8 b \<bind> readInt8 = Some (x8, b') \<and> contents b' = contents b)"
proof -
  have "4 \<le> readerIndex b" "2 \<le> readerIndex b" "1 \<le> readerIndex b" using assms(2) by simp_all
  with append_int(1) [OF assms(1,3), of x64] append_int(2) [OF assms(1,3), of x32]
    append_int(3) [OF assms(1,3), of x16] append_int(4) [OF assms(1,3), of x8] assms(2)
    prepend_read_int(1) [OF assms(1), of x64] prepend_read_int(2) [OF assms(1), of x32]
    prepend_read_int(3) [OF assms(1), of x16] prepend_read_int(4) [OF assms(1), of x8]
  show ?thesis by auto
qed

theorem buffer_int_roundtrip_witness:
  "\<exists>b'. appendInt16 0x0102 \<lparr>storage = replicate 12 NUL, readerIndex = 8, writerIndex = 8\<rparr> = Some b' \<and>
    contents b' = [CHR 0x01, CHR 0x02]"
proof -
  have "rev (mem_bytes 2 (unat (0x0102 :: u16))) = [CHR 0x01, CHR 0x02]" by code_simp
  with buffer_int_roundtrip [of "\<lparr>storage = replicate 12 NUL, readerIndex = 8, writerIndex = 8\<rparr>" "0" "0" "0x0102" "0",
      THEN conjunct2, THEN conjunct2, THEN conjunct1]
  show ?thesis by (simp add: buffer_inv_def kCheapPrepend_def max_size_def contents_def)
qed

text \<open>
  \<open>readFd\<close> appends what was received. If \<open>readv\<close> delivers no more bytes than the two vectors
  hold, \<open>readFd\<close> returns their number and the contents are extended by exactly these bytes in
  order, also when they overflow into the stack buffer; on an error the buffer is unchanged and the
  error number is saved.
\<close>

theorem buffer_readFd:
  assumes "buffer_inv b" "length (storage b) + kExtraBufSize \<le> max_size"
    and "\<And>k bytes. readv k = Inr bytes \<Longrightarrow> length bytes \<le> k"
  shows "case readv (iov_total b) of
      Inl errno \<Rightarrow> readFd readv b = Some (- 1, Some errno, b)
    | Inr bytes \<Rightarrow> \<exists>b'. readFd readv b = Some (int (length bytes), None, b') \<and> buffer_inv b' \<and>
        contents b' = contents b @ bytes"
  using readFd_ok [of b readv] assms by (auto simp: readFd_def Let_def split: sum.split)

theorem buffer_readFd_witness:
  "\<exists>b'. readFd (\<lambda>k. Inr (take k ''abcdef'')) \<lparr>storage = replicate 10 NUL, readerIndex = 8, writerIndex = 8\<rparr> =
      Some (6, None, b') \<and> contents b' = ''abcdef''"
  using buffer_readFd [of "\<lparr>storage = replicate 10 NUL, readerIndex = 8, writerIndex = 8\<rparr>" "\<lambda>k. Inr (take k ''abcdef'')"]
  by (auto simp: buffer_inv_def kCheapPrepend_def max_size_def contents_def kExtraBufSize_def iov_total_def writableBytes_def)

text \<open>
  Lines. \<open>findCRLF\<close> finds the first line end of the contents, so that \<open>retrieveUntil\<close> just
  after it leaves the rest of the contents; without a line end it returns no position.
\<close>

theorem buffer_lines:
  assumes "buffer_inv b"
  shows "(\<forall>line rest. contents b = line @ kCRLF @ rest \<and> (\<forall>i < length line. take 2 (drop i (contents b)) \<noteq> kCRLF) \<longrightarrow>
      (\<exists>p b'. findCRLF b = Some p \<and> retrieveUntil (p + 2) b = Some b' \<and> contents b' = rest)) \<and>
    ((\<forall>i < length (contents b). take 2 (drop i (contents b)) \<noteq> kCRLF) \<longrightarrow> findCRLF b = None)"
proof (intro conjI allI impI)
  fix line rest
  assume *: "contents b = line @ kCRLF @ rest \<and> (\<forall>i < length line. take 2 (drop i (contents b)) \<noteq> kCRLF)"
  with retrieveUntil_ok [OF assms, of "length line + 2"]
  show "\<exists>p b'. findCRLF b = Some p \<and> retrieveUntil (p + 2) b = Some b' \<and> contents b' = rest"
    using findCRLF_line [OF assms, of line rest] by (auto simp: kCRLF_def add.assoc)
qed (rule findCRLF_none [OF assms])

theorem buffer_lines_witness:
  "\<exists>p b'. findCRLF \<lparr>storage = replicate 8 NUL @ ''a'' @ kCRLF @ ''b'', readerIndex = 8, writerIndex = 12\<rparr> = Some p \<and>
    retrieveUntil (p + 2) \<lparr>storage = replicate 8 NUL @ ''a'' @ kCRLF @ ''b'', readerIndex = 8, writerIndex = 12\<rparr> = Some b' \<and>
    contents b' = ''b''"
  using buffer_lines [of "\<lparr>storage = replicate 8 NUL @ ''a'' @ kCRLF @ ''b'', readerIndex = 8, writerIndex = 12\<rparr>",
      THEN conjunct1, rule_format, of "''a''" "''b''"]
  by (simp add: buffer_inv_def kCheapPrepend_def max_size_def contents_def kCRLF_def)

end
