(* ===== verification/Runs.thy ===== *)
theory Runs
  imports Prelude
begin

text \<open>
  Runs of a component: operations that are executed one after the other on its state, where an operation may
  abort. \<open>allowed\<close> is what the environment promises for each operation, \<open>trace\<close> collects a label per operation.
  The locales carry a property of one operation over to every run.
\<close>

fun run :: "('op \<Rightarrow> 's \<Rightarrow> 's option) \<Rightarrow> 'op list \<Rightarrow> 's \<Rightarrow> 's option" where
  "run step [] s = Some s"
| "run step (op # ops) s = (case step op s of None \<Rightarrow> None | Some s1 \<Rightarrow> run step ops s1)"

fun allowed :: "('op \<Rightarrow> 's \<Rightarrow> 's option) \<Rightarrow> ('op \<Rightarrow> 's \<Rightarrow> bool) \<Rightarrow> 'op list \<Rightarrow> 's \<Rightarrow> bool" where
  "allowed step ok [] s = True"
| "allowed step ok (op # ops) s =
     (ok op s \<and> (case step op s of None \<Rightarrow> True | Some s1 \<Rightarrow> allowed step ok ops s1))"

fun trace :: "('op \<Rightarrow> 's \<Rightarrow> 's option) \<Rightarrow> ('op \<Rightarrow> 's \<Rightarrow> 'l) \<Rightarrow> 'op list \<Rightarrow> 's \<Rightarrow> 'l list" where
  "trace step label [] s = []"
| "trace step label (op # ops) s =
     label op s # (case step op s of None \<Rightarrow> [] | Some s1 \<Rightarrow> trace step label ops s1)"

lemma run_append: "run step (ops1 @ ops2) s = (case run step ops1 s of None \<Rightarrow> None | Some s1 \<Rightarrow> run step ops2 s1)"
  by (induction ops1 arbitrary: s) (auto split: option.split)

locale safe_steps =
  fixes step :: "'op \<Rightarrow> 's \<Rightarrow> 's option"
    and ok :: "'op \<Rightarrow> 's \<Rightarrow> bool"
    and inv :: "'s \<Rightarrow> bool"
  assumes step_safe: "inv s \<Longrightarrow> ok op s \<Longrightarrow> \<exists>s'. step op s = Some s' \<and> inv s'"
begin

lemma run_safe:
  assumes "inv s" "allowed step ok ops s"
  shows "\<exists>s'. run step ops s = Some s' \<and> inv s'"
  using assms
proof (induction ops arbitrary: s)
  case (Cons op ops)
  then obtain s1 where "step op s = Some s1" "inv s1" using step_safe [of s op] by auto
  with Cons show ?case by simp
qed simp

end

text \<open>A relation between the ends of a run, which may depend on the labels of its operations.\<close>

locale traced_steps = safe_steps +
  fixes label :: "'op \<Rightarrow> 's \<Rightarrow> 'l"
    and rel :: "'l list \<Rightarrow> 's \<Rightarrow> 's \<Rightarrow> bool"
  assumes rel_start: "inv s \<Longrightarrow> rel [] s s"
    and rel_step: "inv s \<Longrightarrow> ok op s \<Longrightarrow> step op s = Some s1 \<Longrightarrow> inv s1 \<Longrightarrow> rel ls s1 s2 \<Longrightarrow> rel (label op s # ls) s s2"
begin

lemma run_rel:
  assumes "inv s" "allowed step ok ops s" "run step ops s = Some s'"
  shows "rel (trace step label ops s) s s'"
  using assms
proof (induction ops arbitrary: s)
  case (Cons op ops)
  then obtain s1 where s1: "step op s = Some s1" "inv s1" using step_safe [of s op] by auto
  with Cons have "rel (trace step label ops s1) s1 s'" by simp
  from rel_step [OF Cons.prems(1) _ s1 this] Cons.prems(2) s1(1) show ?case by simp
qed (simp add: rel_start)

end

end
