(* ===== verification/Tcp_Connection.thy ===== *)
theory Tcp_Connection
  imports Net_Buffer Runs "HOL-Library.Multiset" "HOL-Library.Sublist"
begin

text \<open>
  \<open>TcpConnection\<close> (\<open>net/TcpConnection.cc\<close>): the send queue, its timers and callbacks, and the states of
  the connection, with the parts of \<open>Channel\<close> and \<open>EventLoop\<close> they use. The functors a handler queues and
  the timers it starts are lists in the state, in the order the loop will run them; what the kernel
  accepts is appended to \<open>wire\<close>. An answer of \<open>write\<close> is an argument of the operation that calls it.
\<close>

section \<open>Structures\<close>

datatype StateE = kDisconnected | kConnecting | kConnected | kDisconnecting

datatype SEND_ERR_CODE = SEND_SUCCESS | SEND_DISCONNECTED | SEND_HIGHWATERMARK | SEND_WRITEERR | SEND_TIMEOUT

text \<open>The answer of \<open>write\<close>: a number of bytes, or a failure with its \<open>errno\<close>.\<close>

datatype errno = EWOULDBLOCK | EPIPE | ECONNRESET | Other_errno int

datatype write_result = Wrote nat | Failed errno

text \<open>The event mask of the channel: \<open>kReadEvent\<close> and \<open>kWriteEvent\<close>.\<close>

record channel =
  ev_read :: bool
  ev_write :: bool

datatype timer_task = Send_timeout nat | Start_read | Force_close

datatype 'p loop_functor =
    Call_write_complete 'p | Call_write_err 'p SEND_ERR_CODE | Call_high_water nat
  | Send_in_loop string 'p int | Shutdown_in_loop | Force_close_in_loop

text \<open>The callbacks of the user that have been called.\<close>

datatype 'p conn_event =
    Connection_callback | Close_callback | Write_complete 'p | Write_err 'p SEND_ERR_CODE | High_water nat

text \<open>\<open>OUTPUT_STRUCT\<close>, with the node of the list that an iterator to it points to.\<close>

record 'p output_struct =
  node :: nat
  out_params :: 'p
  timerid :: "nat option"
  outputBuffer :: net_buffer

record 'p TcpConnection =
  conn_state :: StateE
  reading :: bool
  chan :: channel
  inputBuffer :: net_buffer
  nDefRecvBuf :: nat
  nMaxSendQue :: nat
  highWaterMark :: nat
  outputBufferList :: "'p output_struct list"
  sendQueSize :: nat
  has_complete_cb :: bool
  has_err_cb :: bool
  has_high_cb :: bool
  suspendReadTimer :: "nat option"
  pendingFunctors :: "'p loop_functor list"
  timers :: "(nat \<times> timer_task) list"
  next_id :: nat
  write_shut :: bool
  wire :: string
  called :: "'p conn_event list"


section \<open>The event loop and the channel\<close>

definition queueInLoop :: "'p loop_functor \<Rightarrow> 'p TcpConnection \<Rightarrow> 'p TcpConnection" where
  "queueInLoop f c = c\<lparr>pendingFunctors := pendingFunctors c @ [f]\<rparr>"

definition runAfter :: "timer_task \<Rightarrow> 'p TcpConnection \<Rightarrow> nat \<times> 'p TcpConnection" where
  "runAfter t c = (next_id c, c\<lparr>timers := timers c @ [(next_id c, t)], next_id := next_id c + 1\<rparr>)"

text \<open>A default \<open>TimerId\<close> names no timer.\<close>

definition cancel_timer :: "nat option \<Rightarrow> 'p TcpConnection \<Rightarrow> 'p TcpConnection" where
  "cancel_timer tid c = c\<lparr>timers := filter (\<lambda>(i, _). Some i \<noteq> tid) (timers c)\<rparr>"

definition enableReading :: "'p TcpConnection \<Rightarrow> 'p TcpConnection" where
  "enableReading c = c\<lparr>chan := (chan c)\<lparr>ev_read := True\<rparr>\<rparr>"

definition disableReading :: "'p TcpConnection \<Rightarrow> 'p TcpConnection" where
  "disableReading c = c\<lparr>chan := (chan c)\<lparr>ev_read := False\<rparr>\<rparr>"

definition enableWriting :: "'p TcpConnection \<Rightarrow> 'p TcpConnection" where
  "enableWriting c = c\<lparr>chan := (chan c)\<lparr>ev_write := True\<rparr>\<rparr>"

definition disableWriting :: "'p TcpConnection \<Rightarrow> 'p TcpConnection" where
  "disableWriting c = c\<lparr>chan := (chan c)\<lparr>ev_write := False\<rparr>\<rparr>"

definition disableAll :: "'p TcpConnection \<Rightarrow> 'p TcpConnection" where
  "disableAll c = c\<lparr>chan := \<lparr>ev_read = False, ev_write = False\<rparr>\<rparr>"

definition isWriting :: "'p TcpConnection \<Rightarrow> bool" where
  "isWriting c = ev_write (chan c)"

definition isReading :: "'p TcpConnection \<Rightarrow> bool" where
  "isReading c = ev_read (chan c)"

definition report_err :: "'p \<Rightarrow> SEND_ERR_CODE \<Rightarrow> 'p TcpConnection \<Rightarrow> 'p TcpConnection" where
  "report_err p e c = (if has_err_cb c then queueInLoop (Call_write_err p e) c else c)"

definition report_complete :: "'p \<Rightarrow> 'p TcpConnection \<Rightarrow> 'p TcpConnection" where
  "report_complete p c = (if has_complete_cb c then queueInLoop (Call_write_complete p) c else c)"


section \<open>Sending\<close>

text \<open>
  The first part of \<open>sendInLoop\<close>: with nothing queued, the data is written at once. The result is the
  number of bytes written and \<open>faultError\<close>.
\<close>

definition write_directly :: "write_result \<Rightarrow> string \<Rightarrow> 'p \<Rightarrow> 'p TcpConnection \<Rightarrow> nat \<times> bool \<times> 'p TcpConnection" where
  "write_directly res data params c =
     (case res of
        Wrote nwrote \<Rightarrow>
          (let c1 = c\<lparr>wire := wire c @ take nwrote data\<rparr>
           in (nwrote, False, if length data - nwrote = 0 then report_complete params c1 else c1))
      | Failed e \<Rightarrow>
          if e = EPIPE \<or> e = ECONNRESET then (0, True, report_err params SEND_WRITEERR c) else (0, False, c))"

text \<open>The second part: what was not written is kept at the end of the queue.\<close>

definition start_send_timer :: "int \<Rightarrow> nat \<Rightarrow> 'p TcpConnection \<Rightarrow> nat option \<times> 'p TcpConnection" where
  "start_send_timer timeout n c =
     (if 0 < timeout then (case runAfter (Send_timeout n) c of (i, c1) \<Rightarrow> (Some i, c1)) else (None, c))"

definition add_output :: "'p output_struct \<Rightarrow> 'p TcpConnection \<Rightarrow> 'p TcpConnection" where
  "add_output o1 c = c\<lparr>outputBufferList := outputBufferList c @ [o1], sendQueSize := sendQueSize c + 1\<rparr>"

definition note_high_water :: "'p TcpConnection \<Rightarrow> 'p TcpConnection" where
  "note_high_water c =
     (if highWaterMark c \<le> sendQueSize c \<and> has_high_cb c then queueInLoop (Call_high_water (sendQueSize c)) c else c)"

definition keep_output :: "string \<Rightarrow> 'p \<Rightarrow> int \<Rightarrow> 'p TcpConnection \<Rightarrow> 'p TcpConnection option" where
  "keep_output rest params timeout c = do {
     b \<leftarrow> Buffer_new (length rest);
     b \<leftarrow> append_data rest b;
     let n = next_id c;
     let (tid, c) = start_send_timer timeout n (c\<lparr>next_id := n + 1\<rparr>);
     let c = note_high_water (add_output \<lparr>node = n, out_params = params, timerid = tid, outputBuffer = b\<rparr> c);
     Some (if isWriting c then c else enableWriting c) }"

definition sendInLoop :: "write_result \<Rightarrow> string \<Rightarrow> 'p \<Rightarrow> int \<Rightarrow> 'p TcpConnection \<Rightarrow> 'p TcpConnection option" where
  "sendInLoop res data params timeout c =
     (if conn_state c \<noteq> kConnected then Some (report_err params SEND_DISCONNECTED c)
      else case (if \<not> isWriting c \<and> sendQueSize c \<le> 0 then write_directly res data params c else (0, False, c)) of
        (nwrote, faultError, c1) \<Rightarrow> do {
          assert_c (size_sub (length data) nwrote \<le> length data);
          if \<not> faultError \<and> length data - nwrote > 0 then keep_output (drop nwrote data) params timeout c1 else Some c1 })"

text \<open>\<open>send\<close>, in the thread of the loop or in another; only the length of the queue is looked at.\<close>

definition send :: "bool \<Rightarrow> write_result \<Rightarrow> string \<Rightarrow> 'p \<Rightarrow> int \<Rightarrow> 'p TcpConnection \<Rightarrow>
    (SEND_ERR_CODE \<times> 'p TcpConnection) option" where
  "send inLoopThread res data params timeout c =
     (let ret = (if nMaxSendQue c \<le> sendQueSize c then SEND_HIGHWATERMARK else SEND_SUCCESS)
      in if ret \<noteq> SEND_SUCCESS then Some (ret, c)
         else if inLoopThread then map_option (\<lambda>c'. (ret, c')) (sendInLoop res data params timeout c)
         else Some (ret, queueInLoop (Send_in_loop data params timeout) c))"

text \<open>\<open>send(Buffer*)\<close>: the contents of the buffer are sent, and the buffer is emptied if they were taken.\<close>

definition send_buffer :: "bool \<Rightarrow> write_result \<Rightarrow> 'p \<Rightarrow> int \<Rightarrow> net_buffer \<Rightarrow> 'p TcpConnection \<Rightarrow>
    (SEND_ERR_CODE \<times> net_buffer \<times> 'p TcpConnection) option" where
  "send_buffer inLoopThread res params timeout buf c =
     (let ret = (if nMaxSendQue c \<le> sendQueSize c then SEND_HIGHWATERMARK else SEND_SUCCESS)
      in if ret \<noteq> SEND_SUCCESS then Some (ret, buf, c)
         else if inLoopThread then do {
           c1 \<leftarrow> sendInLoop res (take (readableBytes buf) (drop (peek buf) (storage buf))) params timeout c;
           Some (ret, retrieveAll buf, c1) }
         else do {
           (data, buf1) \<leftarrow> retrieveAllAsString buf;
           Some (ret, buf1, queueInLoop (Send_in_loop data params timeout) c) })"

text \<open>\<open>sendTimeoutCallBack\<close>; \<open>None\<close> when the iterator does not point into the list.\<close>

definition sendTimeoutCallBack :: "nat \<Rightarrow> 'p TcpConnection \<Rightarrow> 'p TcpConnection option" where
  "sendTimeoutCallBack n c =
     (case find (\<lambda>o1. node o1 = n) (outputBufferList c) of
        None \<Rightarrow> None
      | Some o1 \<Rightarrow>
          (let c1 = report_err (out_params o1) SEND_TIMEOUT c
           in Some (c1\<lparr>outputBufferList := filter (\<lambda>o1. node o1 \<noteq> n) (outputBufferList c1),
                sendQueSize := size_sub (sendQueSize c1) 1\<rparr>)))"

definition shutdownInLoop :: "'p TcpConnection \<Rightarrow> 'p TcpConnection" where
  "shutdownInLoop c = (if isWriting c then c else c\<lparr>write_shut := True\<rparr>)"

text \<open>The end of \<open>handleWrite\<close>, after the first output was removed.\<close>

definition output_removed :: "'p TcpConnection \<Rightarrow> 'p TcpConnection" where
  "output_removed c =
     (let c1 = c\<lparr>sendQueSize := size_sub (sendQueSize c) 1\<rparr> in
      if sendQueSize c1 \<le> 0
      then (let c2 = disableWriting c1 in if conn_state c2 = kDisconnecting then shutdownInLoop c2 else c2)
      else c1)"

definition handleWrite :: "write_result \<Rightarrow> 'p TcpConnection \<Rightarrow> 'p TcpConnection option" where
  "handleWrite res c =
     (if isWriting c then
        (case outputBufferList c of
           [] \<Rightarrow> Some c
         | o1 # os \<Rightarrow>
             if (case res of Wrote n \<Rightarrow> 0 < n | Failed e \<Rightarrow> False) then
               (case res of
                  Wrote n \<Rightarrow> do {
                    let c = c\<lparr>wire := wire c @ take n (contents (outputBuffer o1))\<rparr>;
                    b \<leftarrow> retrieve n (outputBuffer o1);
                    Some (if readableBytes b = 0
                      then output_removed ((report_complete (out_params o1) (cancel_timer (timerid o1) c))
                             \<lparr>outputBufferList := os\<rparr>)
                      else c\<lparr>outputBufferList := o1\<lparr>outputBuffer := b\<rparr> # os\<rparr>) }
                | Failed e \<Rightarrow> None)
             else Some (output_removed ((report_err (out_params o1) SEND_WRITEERR (cancel_timer (timerid o1) c))
                    \<lparr>outputBufferList := os\<rparr>)))
      else Some c)"


section \<open>Opening and closing\<close>

text \<open>
  The constructor; the callbacks are set by the owner of the connection before it is established. The timers
  are those of this connection.
\<close>

definition TcpConnection_new :: "nat \<Rightarrow> nat \<Rightarrow> bool \<Rightarrow> bool \<Rightarrow> bool \<Rightarrow> 'p TcpConnection option" where
  "TcpConnection_new defRecvBuf maxSendQue complete_cb err_cb high_cb = do {
     b \<leftarrow> Buffer_new defRecvBuf;
     Some \<lparr>conn_state = kConnecting, reading = True, chan = \<lparr>ev_read = False, ev_write = False\<rparr>, inputBuffer = b,
       nDefRecvBuf = defRecvBuf, nMaxSendQue = maxSendQue, highWaterMark = 512, outputBufferList = [], sendQueSize = 0,
       has_complete_cb = complete_cb, has_err_cb = err_cb, has_high_cb = high_cb, suspendReadTimer = None,
       pendingFunctors = [], timers = [], next_id = 0, write_shut = False, wire = [], called = []\<rparr> }"

primrec stateToString :: "StateE \<Rightarrow> string" where
  "stateToString kDisconnected = ''kDisconnected''"
| "stateToString kConnecting = ''kConnecting''"
| "stateToString kConnected = ''kConnected''"
| "stateToString kDisconnecting = ''kDisconnecting''"

primrec drop_outputs :: "'p output_struct list \<Rightarrow> 'p TcpConnection \<Rightarrow> 'p TcpConnection" where
  "drop_outputs [] c = c\<lparr>outputBufferList := []\<rparr>"
| "drop_outputs (o1 # os) c =
     drop_outputs os ((report_err (out_params o1) SEND_DISCONNECTED (cancel_timer (timerid o1) c))
       \<lparr>sendQueSize := size_sub (sendQueSize c) 1\<rparr>)"

definition callbackAllNoSendOutputBuffer :: "'p TcpConnection \<Rightarrow> 'p TcpConnection" where
  "callbackAllNoSendOutputBuffer c = drop_outputs (outputBufferList c) c"

definition setState :: "StateE \<Rightarrow> 'p TcpConnection \<Rightarrow> 'p TcpConnection" where
  "setState s c = c\<lparr>conn_state := s\<rparr>"

definition handleClose :: "'p TcpConnection \<Rightarrow> 'p TcpConnection option" where
  "handleClose c = do {
     assert_c (conn_state c = kConnected \<or> conn_state c = kDisconnecting);
     let c1 = callbackAllNoSendOutputBuffer (disableAll (setState kDisconnected c));
     Some (c1\<lparr>called := called c1 @ [Connection_callback, Close_callback]\<rparr>) }"

definition handleClose2 :: "'p TcpConnection \<Rightarrow> 'p TcpConnection" where
  "handleClose2 c =
     (let c1 = callbackAllNoSendOutputBuffer (disableAll (setState kDisconnected c))
      in c1\<lparr>called := called c1 @ [Connection_callback]\<rparr>)"

definition connectEstablished :: "'p TcpConnection \<Rightarrow> 'p TcpConnection option" where
  "connectEstablished c = do {
     assert_c (conn_state c = kConnecting);
     let c1 = enableReading (setState kConnected c);
     Some (c1\<lparr>called := called c1 @ [Connection_callback]\<rparr>) }"

text \<open>\<open>connectDestroyed\<close>; the channel is removed from the loop in both cases.\<close>

definition connectDestroyed :: "'p TcpConnection \<Rightarrow> 'p TcpConnection" where
  "connectDestroyed c = (if conn_state c = kConnected then handleClose2 c else c)"

definition shutdown :: "bool \<Rightarrow> 'p TcpConnection \<Rightarrow> 'p TcpConnection" where
  "shutdown inLoopThread c =
     (if conn_state c = kConnected
      then (let c1 = setState kDisconnecting c in if inLoopThread then shutdownInLoop c1 else queueInLoop Shutdown_in_loop c1)
      else c)"

definition forceClose :: "'p TcpConnection \<Rightarrow> 'p TcpConnection" where
  "forceClose c =
     (if conn_state c = kConnected \<or> conn_state c = kDisconnecting
      then queueInLoop Force_close_in_loop (setState kDisconnecting c) else c)"

definition forceCloseWithDelay :: "'p TcpConnection \<Rightarrow> 'p TcpConnection" where
  "forceCloseWithDelay c =
     (if conn_state c = kConnected \<or> conn_state c = kDisconnecting
      then snd (runAfter Force_close (setState kDisconnecting c)) else c)"

definition forceCloseInLoop :: "'p TcpConnection \<Rightarrow> 'p TcpConnection option" where
  "forceCloseInLoop c =
     (if conn_state c = kConnected \<or> conn_state c = kDisconnecting then handleClose c else Some c)"


section \<open>Receiving\<close>

definition startReadInLoop :: "'p TcpConnection \<Rightarrow> 'p TcpConnection" where
  "startReadInLoop c = (if \<not> reading c \<or> \<not> isReading c then (enableReading c)\<lparr>reading := True\<rparr> else c)"

definition stopReadInLoop :: "'p TcpConnection \<Rightarrow> 'p TcpConnection" where
  "stopReadInLoop c = (if reading c \<or> isReading c then (disableReading c)\<lparr>reading := False\<rparr> else c)"

definition suspendRecvInLoop :: "'p TcpConnection \<Rightarrow> 'p TcpConnection" where
  "suspendRecvInLoop c =
     (case runAfter Start_read (cancel_timer (suspendReadTimer c) (stopReadInLoop c)) of
        (i, c1) \<Rightarrow> c1\<lparr>suspendReadTimer := Some i\<rparr>)"

definition resumeRecvInLoop :: "'p TcpConnection \<Rightarrow> 'p TcpConnection" where
  "resumeRecvInLoop c = startReadInLoop (cancel_timer (suspendReadTimer c) c)"

text \<open>\<open>handleRead\<close>; the message callback, which may read the buffer and use the connection, is a parameter.\<close>

definition handleRead :: "(nat \<Rightarrow> int + char list) \<Rightarrow> ('p TcpConnection \<Rightarrow> 'p TcpConnection) \<Rightarrow> 'p TcpConnection \<Rightarrow>
    'p TcpConnection option" where
  "handleRead readv messageCallback c = do {
     (n, savedErrno, b) \<leftarrow> readFd readv (inputBuffer c);
     let c1 = c\<lparr>inputBuffer := b\<rparr>;
     if 0 < n then do {
       let c2 = messageCallback c1;
       b2 \<leftarrow> shrink_if_need (nDefRecvBuf c2) (inputBuffer c2);
       Some (c2\<lparr>inputBuffer := b2\<rparr>) }
     else if n = 0 then handleClose c1
     else Some c1 }"


section \<open>The loop runs functors and timers\<close>

text \<open>
  \<open>doPendingFunctors\<close> runs what was queued, in order. Running a callback of the user is the end of the
  functor; what the user does there are further operations.
\<close>

primrec run_functor :: "write_result \<Rightarrow> 'p loop_functor \<Rightarrow> 'p TcpConnection \<Rightarrow> 'p TcpConnection option" where
  "run_functor res (Call_write_complete p) c = Some (c\<lparr>called := called c @ [Write_complete p]\<rparr>)"
| "run_functor res (Call_write_err p e) c = Some (c\<lparr>called := called c @ [Write_err p e]\<rparr>)"
| "run_functor res (Call_high_water n) c = Some (c\<lparr>called := called c @ [High_water n]\<rparr>)"
| "run_functor res (Send_in_loop data p timeout) c = sendInLoop res data p timeout c"
| "run_functor res Shutdown_in_loop c = Some (shutdownInLoop c)"
| "run_functor res Force_close_in_loop c = forceCloseInLoop c"

definition timer_fires :: "nat \<Rightarrow> timer_task \<Rightarrow> 'p TcpConnection \<Rightarrow> 'p TcpConnection option" where
  "timer_fires i t c =
     (let c1 = cancel_timer (Some i) c in
      case t of
        Send_timeout n \<Rightarrow> sendTimeoutCallBack n c1
      | Start_read \<Rightarrow> Some (startReadInLoop c1)
      | Force_close \<Rightarrow> Some (forceClose c1))"



section \<open>Operations\<close>

datatype 'p conn_op =
    Op_send bool string 'p int write_result | Op_writable write_result | Op_functor write_result | Op_timer nat
  | Op_established | Op_close | Op_destroyed | Op_shutdown bool | Op_forceClose | Op_forceCloseWithDelay
  | Op_suspend | Op_resume

primrec exec_op :: "'p conn_op \<Rightarrow> 'p TcpConnection \<Rightarrow> 'p TcpConnection option" where
  "exec_op (Op_send inLoop data p timeout res) c = map_option snd (send inLoop res data p timeout c)"
| "exec_op (Op_writable res) c = handleWrite res c"
| "exec_op (Op_functor res) c =
     (case pendingFunctors c of [] \<Rightarrow> Some c | f # fs \<Rightarrow> run_functor res f (c\<lparr>pendingFunctors := fs\<rparr>))"
| "exec_op (Op_timer i) c = (case map_of (timers c) i of None \<Rightarrow> Some c | Some t \<Rightarrow> timer_fires i t c)"
| "exec_op Op_established c = connectEstablished c"
| "exec_op Op_close c = handleClose c"
| "exec_op Op_destroyed c = Some (connectDestroyed c)"
| "exec_op (Op_shutdown inLoop) c = Some (shutdown inLoop c)"
| "exec_op Op_forceClose c = Some (forceClose c)"
| "exec_op Op_forceCloseWithDelay c = Some (forceCloseWithDelay c)"
| "exec_op Op_suspend c = Some (suspendRecvInLoop c)"
| "exec_op Op_resume c = Some (resumeRecvInLoop c)"

text \<open>
  What the environment promises: \<open>write\<close> never takes more than it was given, messages are not empty and
  fit into a buffer, the channel reports a closed connection only while there is one, and a connection
  is established once.
\<close>

definition writes_at_most :: "write_result \<Rightarrow> nat \<Rightarrow> bool" where
  "writes_at_most res n \<longleftrightarrow> (case res of Wrote k \<Rightarrow> k \<le> n | Failed e \<Rightarrow> True)"

definition good_message :: "string \<Rightarrow> bool" where
  "good_message data \<longleftrightarrow> data \<noteq> [] \<and> kCheapPrepend + length data \<le> max_size"

primrec op_ok :: "'p conn_op \<Rightarrow> 'p TcpConnection \<Rightarrow> bool" where
  "op_ok (Op_send inLoop data p timeout res) c = (good_message data \<and> writes_at_most res (length data))"
| "op_ok (Op_writable res) c =
     (case outputBufferList c of [] \<Rightarrow> True | o1 # os \<Rightarrow> writes_at_most res (length (contents (outputBuffer o1))))"
| "op_ok (Op_functor res) c =
     (case pendingFunctors c of Send_in_loop data p t # fs \<Rightarrow> writes_at_most res (length data) | _ \<Rightarrow> True)"
| "op_ok (Op_timer i) c = True"
| "op_ok Op_established c = (conn_state c = kConnecting)"
| "op_ok Op_close c = (conn_state c = kConnected \<or> conn_state c = kDisconnecting)"
| "op_ok Op_destroyed c = True"
| "op_ok (Op_shutdown inLoop) c = True"
| "op_ok Op_forceClose c = True"
| "op_ok Op_forceCloseWithDelay c = True"
| "op_ok Op_suspend c = True"
| "op_ok Op_resume c = True"


section \<open>The invariant\<close>

definition output_ok :: "'p output_struct \<Rightarrow> bool" where
  "output_ok o1 \<longleftrightarrow> buffer_inv (outputBuffer o1) \<and> contents (outputBuffer o1) \<noteq> []"

text \<open>Every timer of the send queue belongs to an output that is in the queue.\<close>

definition timers_ok :: "(nat \<times> timer_task) list \<Rightarrow> 'p output_struct list \<Rightarrow> bool" where
  "timers_ok ts os \<longleftrightarrow>
     (\<forall>i n. (i, Send_timeout n) \<in> set ts \<longrightarrow> (\<exists>o1 \<in> set os. node o1 = n \<and> timerid o1 = Some i))"

definition functor_ok :: "'p loop_functor \<Rightarrow> bool" where
  "functor_ok f \<longleftrightarrow> (case f of Send_in_loop data p t \<Rightarrow> good_message data | _ \<Rightarrow> True)"

definition conn_inv :: "'p TcpConnection \<Rightarrow> bool" where
  "conn_inv c \<longleftrightarrow> sendQueSize c = length (outputBufferList c) \<and> (\<forall>o1 \<in> set (outputBufferList c). output_ok o1) \<and>
     (outputBufferList c \<noteq> [] \<longrightarrow> isWriting c \<and> conn_state c \<in> {kConnected, kDisconnecting}) \<and>
     distinct (map node (outputBufferList c)) \<and> (\<forall>o1 \<in> set (outputBufferList c). node o1 < next_id c) \<and>
     timers_ok (timers c) (outputBufferList c) \<and>
     (\<forall>f \<in> set (pendingFunctors c). functor_ok f)"

definition unsent :: "'p TcpConnection \<Rightarrow> string" where
  "unsent c = concat (map (\<lambda>o1. contents (outputBuffer o1)) (outputBufferList c))"

text \<open>The messages that are still to be reported or have been reported, by their parameters.\<close>

primrec functor_params :: "'p loop_functor \<Rightarrow> 'p multiset" where
  "functor_params (Call_write_complete p) = {#p#}"
| "functor_params (Call_write_err p e) = {#p#}"
| "functor_params (Call_high_water n) = {#}"
| "functor_params (Send_in_loop data p t) = {#p#}"
| "functor_params Shutdown_in_loop = {#}"
| "functor_params Force_close_in_loop = {#}"

primrec event_params :: "'p conn_event \<Rightarrow> 'p multiset" where
  "event_params Connection_callback = {#}"
| "event_params Close_callback = {#}"
| "event_params (Write_complete p) = {#p#}"
| "event_params (Write_err p e) = {#p#}"
| "event_params (High_water n) = {#}"

definition ledger :: "'p TcpConnection \<Rightarrow> 'p multiset" where
  "ledger c = mset (map out_params (outputBufferList c)) + sum_list (map functor_params (pendingFunctors c)) +
     sum_list (map event_params (called c))"

lemmas basic_defs = queueInLoop_def runAfter_def cancel_timer_def enableReading_def disableReading_def enableWriting_def
  disableWriting_def disableAll_def isWriting_def isReading_def report_err_def report_complete_def setState_def

lemma writes_at_most_iff: "writes_at_most res n \<longleftrightarrow> (\<forall>k. res = Wrote k \<longrightarrow> k \<le> n)"
  by (cases res) (simp_all add: writes_at_most_def)

lemma timers_ok_filter: "timers_ok ts os \<Longrightarrow> timers_ok (filter P ts) os"
  by (auto simp: timers_ok_def)

lemma timers_ok_Nil [simp]: "timers_ok [] os"
  by (simp add: timers_ok_def)

lemma timers_ok_cancel_first:
  "timers_ok ts (o1 # os) \<Longrightarrow> timers_ok (filter (\<lambda>(i, _). Some i \<noteq> timerid o1) ts) os"
  by (fastforce simp: timers_ok_def)

lemma timers_okE:
  assumes "timers_ok ts os" "(i, Send_timeout n) \<in> set ts"
  obtains o1 where "o1 \<in> set os" "node o1 = n" "timerid o1 = Some i"
  using assms unfolding timers_ok_def by blast

lemma timers_ok_cancel_all:
  assumes "timers_ok ts os"
  shows "timers_ok (filter (\<lambda>(i, _). \<forall>o1 \<in> set os. Some i \<noteq> timerid o1) ts) []"
proof -
  have "\<exists>o1 \<in> set os. Some i = timerid o1" if "(i, Send_timeout n) \<in> set ts" for i n
    using timers_okE [OF assms that] by metis
  then show ?thesis unfolding timers_ok_def by auto
qed

lemma timers_ok_mono: "timers_ok ts os \<Longrightarrow> set os \<subseteq> set os' \<Longrightarrow> timers_ok ts os'"
  by (fastforce simp: timers_ok_def)



section \<open>Every operation keeps the invariant and the ledger\<close>

definition callbacks_set :: "'p TcpConnection \<Rightarrow> bool" where
  "callbacks_set c \<longleftrightarrow> has_complete_cb c \<and> has_err_cb c"

definition goes :: "'p multiset \<Rightarrow> 'p TcpConnection \<Rightarrow> 'p TcpConnection option \<Rightarrow> bool" where
  "goes acc c r \<longleftrightarrow> (\<exists>c'. r = Some c' \<and> conn_inv c' \<and> callbacks_set c' = callbacks_set c \<and>
     (callbacks_set c \<longrightarrow> ledger c' = ledger c + acc))"

lemma goes_SomeI:
  "conn_inv c' \<Longrightarrow> callbacks_set c' = callbacks_set c \<Longrightarrow> (callbacks_set c \<Longrightarrow> ledger c' = ledger c + acc) \<Longrightarrow>
   goes acc c (Some c')"
  by (simp add: goes_def)

lemma goes_trans:
  assumes "goes acc1 c (Some c1)" "goes acc2 c1 r"
  shows "goes (acc1 + acc2) c r"
  using assms by (auto simp: goes_def add.assoc)

text \<open>A state that differs only in what the invariant does not look at.\<close>

lemma conn_inv_queue:
  assumes "conn_inv c" "functor_ok f"
  shows "conn_inv (queueInLoop f c)"
  using assms by (auto simp: conn_inv_def queueInLoop_def isWriting_def)

lemma ledger_queue: "ledger (queueInLoop f c) = ledger c + functor_params f"
  by (simp add: ledger_def queueInLoop_def add_ac)

lemma callbacks_set_queue [simp]: "callbacks_set (queueInLoop f c) = callbacks_set c"
  by (simp add: callbacks_set_def queueInLoop_def)

lemma goes_queue:
  "conn_inv c \<Longrightarrow> functor_ok f \<Longrightarrow> goes (functor_params f) c (Some (queueInLoop f c))"
  by (intro goes_SomeI) (simp_all add: conn_inv_queue ledger_queue)

lemma goes_report_err: "conn_inv c \<Longrightarrow> goes {#p#} c (Some (report_err p e c))"
  using goes_queue [of c "Call_write_err p e"] by (auto simp: report_err_def goes_def callbacks_set_def functor_ok_def)

lemma goes_report_complete: "conn_inv c \<Longrightarrow> goes {#p#} c (Some (report_complete p c))"
  using goes_queue [of c "Call_write_complete p"] by (auto simp: report_complete_def goes_def callbacks_set_def functor_ok_def)

lemma goes_refl: "conn_inv c \<Longrightarrow> goes {#} c (Some c)"
  by (simp add: goes_def)

lemma new_buffer:
  assumes "kCheapPrepend + length rest \<le> max_size"
  shows "\<exists>b0 b. Buffer_new (length rest) = Some b0 \<and> append_data rest b0 = Some b \<and> buffer_inv b \<and> contents b = rest"
proof -
  obtain b0 where b0: "Buffer_new (length rest) = Some b0" "buffer_inv b0" "contents b0 = []" "used b0 = kCheapPrepend"
    using Buffer_new_ok [OF assms] by blast
  then have "writerIndex b0 + length rest \<le> max_size" using assms by (auto simp: used_def)
  with b0 append_data_ok [OF b0(2), of rest] assms show ?thesis by auto
qed

lemma timers_ok_add:
  assumes "timers_ok ts os"
  shows "timers_ok (ts @ [(i, Send_timeout (node o1))]) (os @ [o1\<lparr>timerid := Some i\<rparr>])" "timers_ok ts (os @ [o1])"
  using assms by (fastforce simp: timers_ok_def)+

lemma ensure_writing [simp]: "(if isWriting c then c else enableWriting c) = enableWriting c"
  by (cases c) (simp add: isWriting_def enableWriting_def)

lemma enableWriting_high_water: "enableWriting (note_high_water c) = note_high_water (enableWriting c)"
  by (simp add: note_high_water_def enableWriting_def queueInLoop_def)

lemma goes_high_water: "conn_inv c \<Longrightarrow> goes {#} c (Some (note_high_water c))"
  using goes_queue [of c "Call_high_water (sendQueSize c)"]
  by (auto simp: note_high_water_def functor_ok_def intro: goes_SomeI)

lemma start_send_timer_ok:
  assumes "conn_inv c" "start_send_timer timeout (next_id c) (c\<lparr>next_id := next_id c + 1\<rparr>) = (tid, c1)" "node o1 = next_id c" "timerid o1 = tid"
  shows "timers_ok (timers c1) (outputBufferList c @ [o1])" "next_id c < next_id c1"
    "c1\<lparr>timers := [], next_id := 0\<rparr> = c\<lparr>timers := [], next_id := 0\<rparr>"
proof -
  have t: "timers_ok (timers c) (outputBufferList c)" using assms(1) by (simp add: conn_inv_def)
  then show "timers_ok (timers c1) (outputBufferList c @ [o1])"
    using assms(2-4) by (auto simp: start_send_timer_def runAfter_def timers_ok_def split: if_splits) blast+
  show "next_id c < next_id c1" "c1\<lparr>timers := [], next_id := 0\<rparr> = c\<lparr>timers := [], next_id := 0\<rparr>"
    using assms(2) by (auto simp: start_send_timer_def runAfter_def split: if_splits)
qed

lemma same_but_timers:
  assumes "c1\<lparr>timers := [], next_id := 0\<rparr> = c\<lparr>timers := [], next_id := 0\<rparr>"
  shows "outputBufferList c1 = outputBufferList c" "sendQueSize c1 = sendQueSize c" "pendingFunctors c1 = pendingFunctors c"
    "called c1 = called c" "conn_state c1 = conn_state c" "callbacks_set c1 = callbacks_set c" "wire c1 = wire c" "write_shut c1 = write_shut c"
  using assms by (cases c; cases c1; simp add: callbacks_set_def)+

lemma keep_output_ok:
  assumes "conn_inv c" "conn_state c = kConnected" "rest \<noteq> []" "kCheapPrepend + length rest \<le> max_size"
  shows "goes {#p#} c (keep_output rest p timeout c)"
proof -
  obtain b0 b where b: "Buffer_new (length rest) = Some b0" "append_data rest b0 = Some b" "buffer_inv b" "contents b = rest"
    using new_buffer [OF assms(4)] by blast
  obtain tid c1 where s: "start_send_timer timeout (next_id c) (c\<lparr>next_id := next_id c + 1\<rparr>) = (tid, c1)" by fastforce
  define o1 where "o1 = \<lparr>node = next_id c, out_params = p, timerid = tid, outputBuffer = b\<rparr>"
  let ?c2 = "enableWriting (add_output o1 c1)"
  have f: "node o1 = next_id c" "timerid o1 = tid" "output_ok o1" "out_params o1 = p"
    using b assms(3) by (simp_all add: o1_def output_ok_def)
  note t = start_send_timer_ok [OF assms(1) s f(1,2)]
  note e = same_but_timers [OF t(3)]
  have n: "node o2 < next_id c" if "o2 \<in> set (outputBufferList c)" for o2
    using assms(1) that by (simp add: conn_inv_def)
  have fresh: "next_id c \<notin> node ` set (outputBufferList c)" using n by force
  have "conn_inv ?c2"
    using assms(1,2) t(1,2) e f n fresh
    by (auto simp: conn_inv_def add_output_def enableWriting_def isWriting_def intro: less_trans)
  moreover have "callbacks_set ?c2 = callbacks_set c" "ledger ?c2 = ledger c + {#p#}"
    using e f(4) by (simp_all add: callbacks_set_def ledger_def add_output_def enableWriting_def)
  ultimately have "goes {#p#} c (Some ?c2)" by (simp add: goes_SomeI)
  from goes_trans [OF this goes_high_water] \<open>conn_inv ?c2\<close> have "goes {#p#} c (Some (note_high_water ?c2))" by simp
  then show ?thesis
    using b s by (simp add: keep_output_def Let_def o1_def enableWriting_high_water)
qed


lemma write_directly_ok:
  assumes "conn_inv c" "writes_at_most res (length data)" "data \<noteq> []" "write_directly res data p c = (n, fault, c1)"
  shows "goes (if fault \<or> n = length data then {#p#} else {#}) c (Some c1)" "conn_state c1 = conn_state c" "n \<le> length data"
    "outputBufferList c1 = outputBufferList c" "wire c1 = wire c @ take n data" "fault \<Longrightarrow> n = 0"
proof -
  have w: "conn_inv (c\<lparr>wire := x\<rparr>)" "callbacks_set (c\<lparr>wire := x\<rparr>) = callbacks_set c" "ledger (c\<lparr>wire := x\<rparr>) = ledger c" for x
    using assms(1) by (simp_all add: conn_inv_def isWriting_def callbacks_set_def ledger_def)
  show "goes (if fault \<or> n = length data then {#p#} else {#}) c (Some c1)"
  proof (cases res)
    case (Wrote k)
    let ?c = "c\<lparr>wire := wire c @ take k data\<rparr>"
    have "goes {#} c (Some ?c)" using w by (simp add: goes_SomeI)
    moreover have "goes {#p#} ?c (Some (report_complete p ?c))"
      by (rule goes_report_complete [OF w(1)])
    ultimately show ?thesis
      using assms(2,4) Wrote goes_trans [of "{#}" c ?c "{#p#}"]
      by (auto simp: write_directly_def writes_at_most_iff Let_def split: if_splits)
  next
    case (Failed e)
    with assms(3,4) goes_report_err [OF assms(1), of p SEND_WRITEERR] goes_refl [OF assms(1)] show ?thesis
      by (auto simp: write_directly_def split: if_splits)
  qed
  show "conn_state c1 = conn_state c" "n \<le> length data" "outputBufferList c1 = outputBufferList c"
    "wire c1 = wire c @ take n data" "fault \<Longrightarrow> n = 0"
    using assms(2,4)
    by (auto simp: write_directly_def writes_at_most_iff Let_def report_complete_def report_err_def queueInLoop_def
        split: write_result.splits if_splits)
qed

lemma sendInLoop_ok:
  assumes "conn_inv c" "writes_at_most res (length data)" "good_message data"
  shows "goes {#p#} c (sendInLoop res data p timeout c)"
proof (cases "conn_state c = kConnected")
  case True
  obtain n fault c1 where d: "(if \<not> isWriting c \<and> sendQueSize c \<le> 0 then write_directly res data p c else (0, False, c)) = (n, fault, c1)"
    by (metis prod_cases3)
  have dm: "data \<noteq> []" using assms(3) by (simp add: good_message_def)
  have 1: "goes (if fault \<or> n = length data then {#p#} else {#}) c (Some c1)" "conn_state c1 = kConnected" "n \<le> length data"
    "fault \<Longrightarrow> n = 0"
    using write_directly_ok [OF assms(1,2) dm, of p n fault c1] d True dm goes_refl [OF assms(1)]
    by (auto split: if_splits)
  from 1(1) have inv: "conn_inv c1" by (simp add: goes_def)
  show ?thesis
  proof (cases "fault \<or> n = length data")
    case fin: True
    with 1 d True dm show ?thesis by (auto simp: sendInLoop_def)
  next
    case False
    then have "goes {#p#} c1 (keep_output (drop n data) p timeout c1)"
      using 1(2,3) assms(3) by (intro keep_output_ok [OF inv]) (auto simp: good_message_def)
    with 1 False d True goes_trans [of "{#}" c c1 "{#p#}"] show ?thesis by (simp add: sendInLoop_def)
  qed
qed (use goes_report_err [OF assms(1)] in \<open>simp add: sendInLoop_def\<close>)

lemma send_ok:
  assumes "conn_inv c" "writes_at_most res (length data)" "good_message data"
  shows "\<exists>ret c'. send inLoop res data p timeout c = Some (ret, c') \<and>
    goes (if ret = SEND_SUCCESS then {#p#} else {#}) c (Some c') \<and> ret \<in> {SEND_SUCCESS, SEND_HIGHWATERMARK}"
  using sendInLoop_ok [OF assms, of p timeout] goes_queue [OF assms(1), of "Send_in_loop data p timeout"] assms(1,3)
  by (auto simp: send_def goes_def functor_ok_def)


text \<open>Removing the first output, in both branches of \<open>handleWrite\<close>.\<close>

definition without_first :: "'p output_struct \<Rightarrow> 'p output_struct list \<Rightarrow> 'p TcpConnection \<Rightarrow> 'p TcpConnection" where
  "without_first o1 os c = output_removed ((cancel_timer (timerid o1) c)\<lparr>outputBufferList := os\<rparr>)"

lemma output_removed_queue: "output_removed (queueInLoop f c) = queueInLoop f (output_removed c)"
  by (simp add: output_removed_def queueInLoop_def disableWriting_def shutdownInLoop_def isWriting_def Let_def)

lemma removed_reports:
  "output_removed ((report_complete p (cancel_timer t c))\<lparr>outputBufferList := os\<rparr>) =
     report_complete p (output_removed ((cancel_timer t c)\<lparr>outputBufferList := os\<rparr>))"
  "output_removed ((report_err p e (cancel_timer t c))\<lparr>outputBufferList := os\<rparr>) =
     report_err p e (output_removed ((cancel_timer t c)\<lparr>outputBufferList := os\<rparr>))"
  by (simp_all add: report_complete_def report_err_def output_removed_def queueInLoop_def disableWriting_def
      shutdownInLoop_def isWriting_def Let_def cancel_timer_def)

lemma output_removed_fields [simp]:
  "outputBufferList (output_removed c) = outputBufferList c" "pendingFunctors (output_removed c) = pendingFunctors c"
  "called (output_removed c) = called c" "callbacks_set (output_removed c) = callbacks_set c" "timers (output_removed c) = timers c"
  "next_id (output_removed c) = next_id c" "conn_state (output_removed c) = conn_state c" "wire (output_removed c) = wire c"
  "sendQueSize (output_removed c) = size_sub (sendQueSize c) 1"
  by (simp_all add: output_removed_def disableWriting_def shutdownInLoop_def callbacks_set_def Let_def)

lemma without_first_ok:
  assumes "conn_inv c" "outputBufferList c = o1 # os"
  shows "conn_inv (without_first o1 os c)" "callbacks_set (without_first o1 os c) = callbacks_set c"
    "ledger (without_first o1 os c) + {#out_params o1#} = ledger c"
proof -
  have size: "size_sub (sendQueSize c) 1 = length os" using assms by (simp add: conn_inv_def)
  have w: "os \<noteq> [] \<longrightarrow> isWriting (without_first o1 os c)"
    using assms size by (auto simp: without_first_def output_removed_def conn_inv_def cancel_timer_def isWriting_def Let_def)
  have t: "timers_ok (timers (without_first o1 os c)) os"
    using assms timers_ok_cancel_first [of "timers c" o1 os] by (simp add: without_first_def cancel_timer_def conn_inv_def)
  show "conn_inv (without_first o1 os c)"
    using assms size w t unfolding conn_inv_def by (auto simp: without_first_def cancel_timer_def)
  show "callbacks_set (without_first o1 os c) = callbacks_set c"
    by (simp add: without_first_def) (simp add: cancel_timer_def callbacks_set_def)
  show "ledger (without_first o1 os c) + {#out_params o1#} = ledger c"
    using assms(2) by (simp add: ledger_def without_first_def cancel_timer_def)
qed

lemma goes_without_first:
  assumes "conn_inv c" "outputBufferList c = o1 # os"
  shows "goes {#} c (Some (report_complete (out_params o1) (without_first o1 os c)))"
    "goes {#} c (Some (report_err (out_params o1) e (without_first o1 os c)))"
proof -
  note w = without_first_ok [OF assms]
  show "goes {#} c (Some (report_complete (out_params o1) (without_first o1 os c)))"
    "goes {#} c (Some (report_err (out_params o1) e (without_first o1 os c)))"
    using goes_report_complete [OF w(1), of "out_params o1"] goes_report_err [OF w(1), of "out_params o1" e] w(2,3)
    by (auto simp: goes_def)
qed

lemma handleWrite_ok:
  assumes "conn_inv c" "op_ok (Op_writable res) c"
  shows "goes {#} c (handleWrite res c)"
proof (cases "isWriting c \<and> outputBufferList c \<noteq> []")
  case True
  then obtain o1 os where os: "outputBufferList c = o1 # os" by (cases "outputBufferList c") auto
  have o1: "buffer_inv (outputBuffer o1)" "contents (outputBuffer o1) \<noteq> []"
    using assms(1) os by (auto simp: conn_inv_def output_ok_def)
  show ?thesis
  proof (cases "\<exists>n. res = Wrote n \<and> 0 < n")
    case w: True
    then obtain n where n: "res = Wrote n" "0 < n" "n \<le> length (contents (outputBuffer o1))"
      using assms(2) os by (auto simp: writes_at_most_iff)
    from retrieve_ok [OF o1(1) n(3)] obtain b where b: "retrieve n (outputBuffer o1) = Some b" "buffer_inv b"
      "contents b = drop n (contents (outputBuffer o1))" by blast
    let ?c = "c\<lparr>wire := wire c @ take n (contents (outputBuffer o1))\<rparr>"
    have c: "conn_inv ?c" "goes {#} c (Some ?c)" "outputBufferList ?c = o1 # os"
      using assms(1) os by (auto simp: conn_inv_def isWriting_def goes_def callbacks_set_def ledger_def)
    show ?thesis
    proof (cases "readableBytes b = 0")
      case True
      then have "handleWrite res c = Some (report_complete (out_params o1) (without_first o1 os ?c))"
        using \<open>isWriting c \<and> _\<close> os n b by (simp add: handleWrite_def removed_reports without_first_def)
      with goes_trans [OF c(2) goes_without_first(1) [OF c(1,3)]] show ?thesis by simp
    next
      case False
      let ?c2 = "?c\<lparr>outputBufferList := o1\<lparr>outputBuffer := b\<rparr> # os\<rparr>"
      have "contents b \<noteq> []" using False inv_sizes(1) [OF b(2)] by auto
      then have "conn_inv ?c2"
        using c(1) os b(2) by (auto simp: conn_inv_def isWriting_def output_ok_def timers_ok_def)
      moreover have "handleWrite res c = Some ?c2"
        using False \<open>isWriting c \<and> _\<close> os n b by (simp add: handleWrite_def)
      ultimately show ?thesis using os by (auto simp: goes_def callbacks_set_def ledger_def)
    qed
  next
    case False
    then have "handleWrite res c = Some (report_err (out_params o1) SEND_WRITEERR (without_first o1 os c))"
      using True os by (cases res) (auto simp: handleWrite_def removed_reports without_first_def)
    with goes_without_first(2) [OF assms(1) os] show ?thesis by simp
  qed
next
  case False
  then show ?thesis using goes_refl [OF assms(1)] by (auto simp: handleWrite_def)
qed


lemma drop_outputs_fields:
  assumes "length os \<le> sendQueSize c"
  shows "outputBufferList (drop_outputs os c) = [] \<and> sendQueSize (drop_outputs os c) = sendQueSize c - length os \<and>
    timers (drop_outputs os c) = filter (\<lambda>(i, _). \<forall>o1 \<in> set os. Some i \<noteq> timerid o1) (timers c) \<and>
    pendingFunctors (drop_outputs os c) =
      pendingFunctors c @ (if has_err_cb c then map (\<lambda>o1. Call_write_err (out_params o1) SEND_DISCONNECTED) os else []) \<and>
    next_id (drop_outputs os c) = next_id c \<and> called (drop_outputs os c) = called c \<and>
    callbacks_set (drop_outputs os c) = callbacks_set c \<and> conn_state (drop_outputs os c) = conn_state c \<and>
    chan (drop_outputs os c) = chan c \<and> wire (drop_outputs os c) = wire c \<and> write_shut (drop_outputs os c) = write_shut c"
  using assms
proof (induction os arbitrary: c)
  case (Cons o1 os)
  let ?c = "(report_err (out_params o1) SEND_DISCONNECTED (cancel_timer (timerid o1) c))\<lparr>sendQueSize := size_sub (sendQueSize c) 1\<rparr>"
  have c: "sendQueSize ?c = sendQueSize c - 1" "timers ?c = filter (\<lambda>(i, _). Some i \<noteq> timerid o1) (timers c)"
    "pendingFunctors ?c = pendingFunctors c @ (if has_err_cb c then [Call_write_err (out_params o1) SEND_DISCONNECTED] else [])"
    "next_id ?c = next_id c" "called ?c = called c" "callbacks_set ?c = callbacks_set c" "conn_state ?c = conn_state c"
    "chan ?c = chan c" "wire ?c = wire c" "write_shut ?c = write_shut c" "has_err_cb ?c = has_err_cb c"
    using Cons.prems by (auto simp: report_err_def queueInLoop_def cancel_timer_def callbacks_set_def)
  have "length os \<le> sendQueSize ?c" using Cons.prems c(1) by simp
  from Cons.IH [OF this] show ?case
    unfolding drop_outputs.simps c by (simp add: case_prod_unfold)
qed (simp add: callbacks_set_def)

definition closed :: "'p conn_event list \<Rightarrow> 'p TcpConnection \<Rightarrow> 'p TcpConnection" where
  "closed evs c = (let c1 = callbackAllNoSendOutputBuffer (disableAll (setState kDisconnected c))
     in c1\<lparr>called := called c1 @ evs\<rparr>)"

lemma close_is_closed:
  "handleClose2 c = closed [Connection_callback] c"
  "conn_state c \<in> {kConnected, kDisconnecting} \<Longrightarrow> handleClose c = Some (closed [Connection_callback, Close_callback] c)"
  by (auto simp: handleClose2_def handleClose_def closed_def Let_def)

lemma closed_fields:
  assumes "conn_inv c"
  shows "outputBufferList (closed evs c) = []" "sendQueSize (closed evs c) = 0"
    "timers (closed evs c) = filter (\<lambda>(i, _). \<forall>o1 \<in> set (outputBufferList c). Some i \<noteq> timerid o1) (timers c)"
    "pendingFunctors (closed evs c) = pendingFunctors c @
       (if has_err_cb c then map (\<lambda>o1. Call_write_err (out_params o1) SEND_DISCONNECTED) (outputBufferList c) else [])"
    "next_id (closed evs c) = next_id c" "called (closed evs c) = called c @ evs" "conn_state (closed evs c) = kDisconnected"
    "callbacks_set (closed evs c) = callbacks_set c" "wire (closed evs c) = wire c" "\<not> isWriting (closed evs c)"
    "write_shut (closed evs c) = write_shut c"
proof -
  let ?c = "disableAll (setState kDisconnected c)"
  have "length (outputBufferList ?c) \<le> sendQueSize ?c" using assms by (simp add: conn_inv_def disableAll_def setState_def)
  from drop_outputs_fields [OF this] assms
  show "outputBufferList (closed evs c) = []" "sendQueSize (closed evs c) = 0"
    "timers (closed evs c) = filter (\<lambda>(i, _). \<forall>o1 \<in> set (outputBufferList c). Some i \<noteq> timerid o1) (timers c)"
    "pendingFunctors (closed evs c) = pendingFunctors c @
       (if has_err_cb c then map (\<lambda>o1. Call_write_err (out_params o1) SEND_DISCONNECTED) (outputBufferList c) else [])"
    "next_id (closed evs c) = next_id c" "called (closed evs c) = called c @ evs" "conn_state (closed evs c) = kDisconnected"
    "callbacks_set (closed evs c) = callbacks_set c" "wire (closed evs c) = wire c" "\<not> isWriting (closed evs c)"
    "write_shut (closed evs c) = write_shut c"
    by (simp_all add: closed_def callbackAllNoSendOutputBuffer_def Let_def callbacks_set_def disableAll_def setState_def
        conn_inv_def isWriting_def)
qed

lemma errs_params: "sum_list (map (functor_params \<circ> (\<lambda>o1. Call_write_err (out_params o1) e)) os) = mset (map out_params os)"
  by (induction os) auto

lemma goes_closed:
  assumes "conn_inv c" "sum_list (map event_params evs) = {#}"
  shows "goes {#} c (Some (closed evs c))"
proof (rule goes_SomeI)
  note f = closed_fields [OF assms(1)]
  have "timers_ok (timers (closed evs c)) []"
    using assms(1) timers_ok_cancel_all unfolding f(3) conn_inv_def by blast
  then show "conn_inv (closed evs c)"
    using assms(1) unfolding conn_inv_def f by (auto simp: functor_ok_def)
  show "callbacks_set (closed evs c) = callbacks_set c" by (rule f)
  assume "callbacks_set c"
  with assms(2) show "ledger (closed evs c) = ledger c + {#}"
    unfolding ledger_def f by (simp add: callbacks_set_def errs_params add_ac)
qed

text \<open>What changes neither the queue, nor the functors, nor the callbacks.\<close>

lemma goes_same:
  assumes "conn_inv c" "outputBufferList c' = outputBufferList c" "sendQueSize c' = sendQueSize c"
    "pendingFunctors c' = pendingFunctors c" "sum_list (map event_params (called c')) = sum_list (map event_params (called c))"
    "callbacks_set c' = callbacks_set c" "next_id c \<le> next_id c'"
    "\<And>i n. (i, Send_timeout n) \<in> set (timers c') \<Longrightarrow> (i, Send_timeout n) \<in> set (timers c)"
    "outputBufferList c \<noteq> [] \<Longrightarrow> isWriting c' \<and> conn_state c' \<in> {kConnected, kDisconnecting}"
  shows "goes {#} c (Some c')"
proof (rule goes_SomeI)
  have "timers_ok (timers c') (outputBufferList c)"
    using assms(1,8) by (auto simp: conn_inv_def timers_ok_def)
  then show "conn_inv c'"
    using assms unfolding conn_inv_def by force
qed (use assms in \<open>simp_all add: ledger_def\<close>)

lemma goes_small:
  assumes "conn_inv c"
  shows "goes {#} c (Some (shutdownInLoop c))" "goes {#} c (Some (startReadInLoop c))" "goes {#} c (Some (stopReadInLoop c))"
    "goes {#} c (Some (cancel_timer tid c))" "conn_state c \<in> {kConnected, kDisconnecting} \<Longrightarrow> goes {#} c (Some (setState kDisconnecting c))"
    "goes {#} c (Some (snd (runAfter Start_read c)))" "goes {#} c (Some (snd (runAfter Force_close c)))"
    "goes {#} c (Some (c\<lparr>suspendReadTimer := t\<rparr>))"
    "conn_state c = kConnecting \<Longrightarrow> goes {#} c (connectEstablished c)"
  using assms
  by (auto intro!: goes_same [OF assms] simp: conn_inv_def shutdownInLoop_def startReadInLoop_def stopReadInLoop_def
      connectEstablished_def Let_def basic_defs callbacks_set_def)


text \<open>The send timer of an output fires: its iterator is valid and the output is the one of the timer.\<close>

lemma remove_node:
  assumes "distinct (map node os)" "o1 \<in> set os"
  obtains xs ys where "os = xs @ o1 # ys" "filter (\<lambda>o2. node o2 \<noteq> node o1) os = xs @ ys"
    "find (\<lambda>o2. node o2 = node o1) os = Some o1"
proof -
  obtain xs ys where os: "os = xs @ o1 # ys" using assms(2) by (meson split_list)
  with assms(1) have n: "node o2 \<noteq> node o1" if "o2 \<in> set xs \<union> set ys" for o2
    using that by (auto simp: image_iff dest: sym)
  then have "find (\<lambda>o2. node o2 = node o1) os = Some o1"
    unfolding os by (induction xs) auto
  moreover have "filter (\<lambda>o2. node o2 \<noteq> node o1) os = xs @ ys"
    using n unfolding os by (simp add: filter_id_conv)
  ultimately show thesis using that os by blast
qed

lemma sendTimeout_ok:
  assumes "conn_inv c" "(i, Send_timeout n) \<in> set (timers c)"
  shows "goes {#} c (sendTimeoutCallBack n (cancel_timer (Some i) c))"
proof -
  obtain o1 where o1: "o1 \<in> set (outputBufferList c)" "node o1 = n" "timerid o1 = Some i"
    using assms timers_okE unfolding conn_inv_def by blast
  have dist: "distinct (map node (outputBufferList c))" using assms(1) by (simp add: conn_inv_def)
  from remove_node [OF dist o1(1)] o1(2) obtain xs ys where
    os: "outputBufferList c = xs @ o1 # ys" and f: "filter (\<lambda>o2. node o2 \<noteq> n) (outputBufferList c) = xs @ ys"
    "find (\<lambda>o2. node o2 = n) (outputBufferList c) = Some o1" by auto
  let ?c = "(cancel_timer (Some i) c)\<lparr>outputBufferList := xs @ ys, sendQueSize := size_sub (sendQueSize c) 1\<rparr>"
  have "timers_ok (timers c) (o1 # xs @ ys)" using assms(1) os by (auto simp: conn_inv_def timers_ok_def)
  from timers_ok_cancel_first [OF this] have t: "timers_ok (timers ?c) (xs @ ys)"
    using o1(3) by (simp add: cancel_timer_def)
  have inv: "conn_inv ?c"
    using assms(1) t os unfolding conn_inv_def by (auto simp: cancel_timer_def isWriting_def)
  have "sendTimeoutCallBack n (cancel_timer (Some i) c) = Some (report_err (out_params o1) SEND_TIMEOUT ?c)"
    using f os by (simp add: sendTimeoutCallBack_def cancel_timer_def report_err_def queueInLoop_def Let_def)
  with goes_report_err [OF inv, of "out_params o1" SEND_TIMEOUT] os show ?thesis
    by (auto simp: goes_def callbacks_set_def ledger_def cancel_timer_def)
qed


lemma goes_then: "goes {#} c (Some c1) \<Longrightarrow> (conn_inv c1 \<Longrightarrow> goes {#} c1 r) \<Longrightarrow> goes {#} c r"
  using goes_trans [of "{#}" c c1 "{#}" r] by (simp add: goes_def)

lemma forceClose_ok: "conn_inv c \<Longrightarrow> goes {#} c (Some (forceClose c))"
  using goes_queue [of "setState kDisconnecting c" Force_close_in_loop]
  by (auto simp: forceClose_def functor_ok_def intro: goes_refl goes_then [OF goes_small(5)])

lemma timer_fires_ok:
  assumes "conn_inv c" "(i, t) \<in> set (timers c)"
  shows "goes {#} c (timer_fires i t c)"
  using assms(2) sendTimeout_ok [OF assms(1)]
  by (cases t) (auto simp: timer_fires_def Let_def intro: goes_then [OF goes_small(4) [OF assms(1)]] goes_small forceClose_ok)

lemma close_ok:
  assumes "conn_inv c"
  shows "conn_state c \<in> {kConnected, kDisconnecting} \<Longrightarrow> goes {#} c (handleClose c)" "goes {#} c (Some (connectDestroyed c))"
    "goes {#} c (forceCloseInLoop c)"
  using goes_closed [OF assms] goes_refl [OF assms]
  by (auto simp: close_is_closed connectDestroyed_def forceCloseInLoop_def)

lemma run_functor_ok:
  assumes "conn_inv c" "functor_ok f" "\<And>data p t. f = Send_in_loop data p t \<Longrightarrow> writes_at_most res (length data)"
  shows "goes (functor_params f) c (run_functor res f c)"
proof (cases f)
  case (Send_in_loop data p t)
  with sendInLoop_ok [OF assms(1)] assms(2,3) show ?thesis by (auto simp: functor_ok_def)
next
  case Shutdown_in_loop
  with goes_small(1) [OF assms(1)] show ?thesis by simp
next
  case Force_close_in_loop
  with close_ok(3) [OF assms(1)] show ?thesis by simp
qed (use assms(1) in \<open>auto simp: goes_def conn_inv_def isWriting_def callbacks_set_def ledger_def add_ac\<close>)

lemma Op_functor_ok:
  assumes "conn_inv c" "op_ok (Op_functor res) c"
  shows "goes {#} c (exec_op (Op_functor res) c)"
proof (cases "pendingFunctors c")
  case (Cons f fs)
  let ?c = "c\<lparr>pendingFunctors := fs\<rparr>"
  have "conn_inv ?c" "functor_ok f" using assms(1) Cons by (auto simp: conn_inv_def isWriting_def)
  moreover have "writes_at_most res (length data)" if "f = Send_in_loop data p t" for data p t
    using assms(2) Cons that by simp
  ultimately have "goes (functor_params f) ?c (run_functor res f ?c)" by (rule run_functor_ok)
  moreover have "ledger c = ledger ?c + functor_params f" "callbacks_set ?c = callbacks_set c"
    using Cons by (simp_all add: ledger_def callbacks_set_def add_ac)
  ultimately show ?thesis using Cons by (simp add: goes_def)
qed (use goes_refl [OF assms(1)] in simp)

text \<open>The message an operation makes the connection responsible for.\<close>

primrec accepted :: "'p conn_op \<Rightarrow> 'p TcpConnection \<Rightarrow> 'p multiset" where
  "accepted (Op_send inLoop data p timeout res) c =
     (case send inLoop res data p timeout c of Some (SEND_SUCCESS, _) \<Rightarrow> {#p#} | _ \<Rightarrow> {#})"
| "accepted (Op_writable res) c = {#}"
| "accepted (Op_functor res) c = {#}"
| "accepted (Op_timer i) c = {#}"
| "accepted Op_established c = {#}"
| "accepted Op_close c = {#}"
| "accepted Op_destroyed c = {#}"
| "accepted (Op_shutdown inLoop) c = {#}"
| "accepted Op_forceClose c = {#}"
| "accepted Op_forceCloseWithDelay c = {#}"
| "accepted Op_suspend c = {#}"
| "accepted Op_resume c = {#}"

lemma exec_op_ok:
  assumes "conn_inv c" "op_ok op c"
  shows "goes (accepted op c) c (exec_op op c)"
proof (cases op)
  case (Op_send inLoop data p timeout res)
  with send_ok [OF assms(1), of res data inLoop p timeout] assms(2) show ?thesis by auto
next
  case (Op_writable res)
  with handleWrite_ok [OF assms(1)] assms(2) show ?thesis by simp
next
  case (Op_functor res)
  with Op_functor_ok [OF assms(1)] assms(2) show ?thesis by simp
next
  case (Op_timer i)
  then show ?thesis
    using timer_fires_ok [OF assms(1) map_of_SomeD] goes_refl [OF assms(1)] by (auto split: option.splits)
next
  case (Op_shutdown inLoop)
  then show ?thesis
    using goes_refl [OF assms(1)] goes_queue [of "setState kDisconnecting c" Shutdown_in_loop]
    by (auto simp: shutdown_def Let_def functor_ok_def intro!: goes_then [OF goes_small(5) [OF assms(1)]] goes_small(1))
next
  case Op_forceCloseWithDelay
  then show ?thesis
    using goes_refl [OF assms(1)]
    by (auto simp: forceCloseWithDelay_def intro!: goes_then [OF goes_small(5) [OF assms(1)]] goes_small(7))
next
  case Op_suspend
  let ?c = "cancel_timer (suspendReadTimer c) (stopReadInLoop c)"
  have "goes {#} c (Some ?c)" by (rule goes_then [OF goes_small(3) [OF assms(1)] goes_small(4)])
  then have "goes {#} c (Some (snd (runAfter Start_read ?c)))" by (rule goes_then) (rule goes_small(6))
  from goes_then [OF this goes_small(8)] Op_suspend show ?thesis by (simp add: suspendRecvInLoop_def case_prod_unfold)
next
  case Op_resume
  with goes_then [OF goes_small(4) [OF assms(1)] goes_small(2)] show ?thesis by (simp add: resumeRecvInLoop_def)
qed (use assms goes_small(9) close_ok forceClose_ok in auto)


section \<open>The byte stream and the states\<close>

text \<open>What was sent and what is queued, in order.\<close>

definition stream :: "'p TcpConnection \<Rightarrow> string" where
  "stream c = wire c @ unsent c"

primrec rank :: "StateE \<Rightarrow> nat" where
  "rank kConnecting = 0" | "rank kConnected = 1" | "rank kDisconnecting = 2" | "rank kDisconnected = 3"

text \<open>Our side of the connection is shut down only after \<open>shutdown\<close>, and with nothing left to send.\<close>

definition half_inv :: "'p TcpConnection \<Rightarrow> bool" where
  "half_inv c \<longleftrightarrow> (write_shut c \<or> Shutdown_in_loop \<in> set (pendingFunctors c) \<longrightarrow> 1 < rank (conn_state c)) \<and>
     (write_shut c \<longrightarrow> outputBufferList c = [])"

text \<open>
  \<open>moves l c data c'\<close>: the state only goes forward, bytes on the wire stay, and the stream of \<open>c'\<close> is that of \<open>c\<close>
  followed by the data, with parts missing only if \<open>l\<close>.
\<close>

definition moves :: "bool \<Rightarrow> 'p TcpConnection \<Rightarrow> string \<Rightarrow> 'p TcpConnection \<Rightarrow> bool" where
  "moves l c data c' \<longleftrightarrow> rank (conn_state c) \<le> rank (conn_state c') \<and> prefix (wire c) (wire c') \<and>
     (half_inv c \<longrightarrow> half_inv c') \<and> (write_shut c \<longrightarrow> write_shut c') \<and>
     subseq (stream c') (stream c @ data) \<and> (\<not> l \<longrightarrow> stream c' = stream c @ data)"

lemma moves_trans:
  assumes "moves l1 c d1 c1" "moves l2 c1 d2 c2"
  shows "moves (l1 \<or> l2) c (d1 @ d2) c2"
proof -
  have "subseq (stream c1 @ d2) (stream c @ d1 @ d2)"
    using assms(1) list_emb_append_mono [of "(=)" "stream c1" "stream c @ d1" d2 d2] by (simp add: moves_def)
  then show ?thesis
    using assms subseq_order.order_trans [of "stream c2" "stream c1 @ d2"] unfolding moves_def
    by (auto dest: prefix_order.order_trans)
qed

lemma moves_then: "moves l c [] c1 \<Longrightarrow> moves l c1 [] c2 \<Longrightarrow> moves l c [] c2"
  using moves_trans [of l c "[]" c1 l "[]" c2] by simp

lemma moves_sameI:
  assumes "conn_state c' = conn_state c" "wire c' = wire c" "outputBufferList c' = outputBufferList c" "write_shut c' = write_shut c"
    "Shutdown_in_loop \<in> set (pendingFunctors c') \<Longrightarrow> Shutdown_in_loop \<in> set (pendingFunctors c)"
  shows "moves l c [] c'"
  using assms by (auto simp: moves_def half_inv_def stream_def unsent_def)

lemma moves_weaken: "moves l c d c' \<Longrightarrow> moves True c d c'"
  by (simp add: moves_def)

lemma moves_report [simp]:
  "moves l c [] (report_err p e c)" "moves l c [] (report_complete p c)" "moves l c [] (cancel_timer tid c)"
  "moves l c [] c" "moves l c [] (note_high_water c)"
  by (rule moves_sameI; simp add: basic_defs note_high_water_def split: if_splits)+

lemma moves_shutdownInLoop:
  assumes "conn_inv c" "1 < rank (conn_state c)"
  shows "moves l c [] (shutdownInLoop c)"
  using assms by (auto simp: moves_def half_inv_def stream_def unsent_def shutdownInLoop_def conn_inv_def isWriting_def)

lemma keep_output_moves:
  assumes "conn_inv c" "conn_state c = kConnected" "rest \<noteq> []" "kCheapPrepend + length rest \<le> max_size"
    "keep_output rest p timeout c = Some c'"
  shows "moves l c rest c'"
proof -
  obtain b0 b where b: "Buffer_new (length rest) = Some b0" "append_data rest b0 = Some b" "buffer_inv b" "contents b = rest"
    using new_buffer [OF assms(4)] by blast
  obtain tid c1 where s: "start_send_timer timeout (next_id c) (c\<lparr>next_id := next_id c + 1\<rparr>) = (tid, c1)" by fastforce
  define o1 where "o1 = \<lparr>node = next_id c, out_params = p, timerid = tid, outputBuffer = b\<rparr>"
  have f: "node o1 = next_id c" "timerid o1 = tid" by (simp_all add: o1_def)
  note e = same_but_timers [OF start_send_timer_ok(3) [OF assms(1) s f]]
  let ?c2 = "enableWriting (add_output o1 c1)"
  have "stream ?c2 = stream c @ rest"
    using e b(4) by (simp add: stream_def unsent_def add_output_def enableWriting_def o1_def)
  moreover have "half_inv c \<longrightarrow> half_inv ?c2"
    using e assms(2) by (auto simp: half_inv_def add_output_def enableWriting_def)
  ultimately have "moves l c rest ?c2"
    using e by (simp add: moves_def add_output_def enableWriting_def)
  from moves_trans [OF this moves_report(5) [of l]] have "moves l c rest (note_high_water ?c2)" by simp
  then show ?thesis
    using assms(5) b s by (simp add: keep_output_def Let_def o1_def enableWriting_high_water)
qed

definition fatal :: "write_result \<Rightarrow> bool" where
  "fatal res \<longleftrightarrow> res = Failed EPIPE \<or> res = Failed ECONNRESET"

text \<open>What \<open>sendInLoop\<close> takes over: everything while connected, nothing otherwise.\<close>

definition taken :: "string \<Rightarrow> 'p TcpConnection \<Rightarrow> string" where
  "taken data c = (if conn_state c = kConnected then data else [])"

lemma write_directly_moves:
  assumes "conn_inv c" "conn_state c = kConnected" "sendQueSize c = 0" "writes_at_most res (length data)"
    "write_directly res data p c = (n, fault, c1)"
  shows "moves (fatal res) c (take n data) c1" "fault \<Longrightarrow> fatal res"
proof -
  have os: "outputBufferList c = []" using assms(1,3) by (simp add: conn_inv_def)
  then have w: "moves l c d (c\<lparr>wire := wire c @ d\<rparr>)" for l d
    by (simp add: moves_def half_inv_def stream_def unsent_def)
  have w2: "moves l c d (report_complete p (c\<lparr>wire := wire c @ d\<rparr>))" for l d
    using moves_trans [OF w [of l d] moves_report(2) [of l]] by simp
  show "moves (fatal res) c (take n data) c1"
    using assms(5) w w2 by (auto simp: write_directly_def Let_def split: write_result.splits if_splits)
  show "fault \<Longrightarrow> fatal res"
    using assms(5) by (auto simp: write_directly_def fatal_def Let_def split: write_result.splits if_splits)
qed

lemma moves_part: "moves l c d c' \<Longrightarrow> moves True c (d @ e) c'"
  using list_emb_append_mono [of "(=)" "stream c'" "stream c @ d" "[]" e] by (simp add: moves_def)

lemma sendInLoop_moves:
  assumes "conn_inv c" "writes_at_most res (length data)" "good_message data" "sendInLoop res data p timeout c = Some c'"
  shows "moves (fatal res) c (taken data c) c'"
proof (cases "conn_state c = kConnected")
  case True
  obtain n fault c1 where d: "(if \<not> isWriting c \<and> sendQueSize c \<le> 0 then write_directly res data p c else (0, False, c)) = (n, fault, c1)"
    by (metis prod_cases3)
  have dm: "data \<noteq> []" using assms(3) by (simp add: good_message_def)
  have 1: "moves (fatal res) c (take n data) c1" "fault \<Longrightarrow> fatal res" "conn_inv c1" "conn_state c1 = kConnected" "n \<le> length data"
    using write_directly_ok [OF assms(1,2) dm, of p n fault c1] write_directly_moves [OF assms(1) True _ assms(2), of p n fault c1]
      d True assms(1) by (auto simp: goes_def split: if_splits)
  show ?thesis
  proof (cases "fault \<or> n = length data")
    case fin: True
    have "c' = c1" using assms(4) True d fin 1(5) by (auto simp: sendInLoop_def split: if_splits)
    moreover have "moves True c (take n data @ drop n data) c1" by (rule moves_part [OF 1(1)])
    ultimately show ?thesis using fin 1(1,2) True by (auto simp: taken_def)
  next
    case False
    then have "keep_output (drop n data) p timeout c1 = Some c'"
      using assms(4) True d 1(5) by (auto simp: sendInLoop_def)
    from keep_output_moves [OF 1(3,4) _ _ this, of "fatal res"] moves_trans [OF 1(1), of "fatal res" "drop n data" c'] False 1(5) assms(3)
    show ?thesis using True by (auto simp: taken_def good_message_def)
  qed
next
  case False
  with assms(4) show ?thesis by (auto simp: sendInLoop_def taken_def)
qed

lemma output_removed_moves:
  assumes "size_sub (sendQueSize c) 1 = length (outputBufferList c)"
  shows "moves l c [] (output_removed c)"
proof -
  have "write_shut (output_removed c) \<longrightarrow> write_shut c \<or> conn_state c = kDisconnecting \<and> outputBufferList c = []"
    "write_shut c \<longrightarrow> write_shut (output_removed c)"
    using assms by (simp_all add: output_removed_def disableWriting_def shutdownInLoop_def Let_def)
  then show ?thesis by (auto simp: moves_def half_inv_def stream_def unsent_def)
qed

lemma handleWrite_moves:
  assumes "conn_inv c" "op_ok (Op_writable res) c" "handleWrite res c = Some c'"
  shows "moves (\<forall>n. res = Wrote n \<longrightarrow> n = 0) c [] c'"
proof (cases "isWriting c \<and> outputBufferList c \<noteq> []")
  case True
  then obtain o1 os where os: "outputBufferList c = o1 # os" by (cases "outputBufferList c") auto
  have o1: "buffer_inv (outputBuffer o1)" using assms(1) os by (auto simp: conn_inv_def output_ok_def)
  have size: "size_sub (sendQueSize c) 1 = length os" using assms(1) os by (simp add: conn_inv_def)
  show ?thesis
  proof (cases "\<exists>n. res = Wrote n \<and> 0 < n")
    case w: True
    then obtain n where n: "res = Wrote n" "0 < n" "n \<le> length (contents (outputBuffer o1))"
      using assms(2) os by (auto simp: writes_at_most_iff)
    from retrieve_ok [OF o1(1) n(3)] obtain b where b: "retrieve n (outputBuffer o1) = Some b" "buffer_inv b"
      "contents b = drop n (contents (outputBuffer o1))" by blast
    let ?c = "c\<lparr>wire := wire c @ take n (contents (outputBuffer o1))\<rparr>"
    show ?thesis
    proof (cases "readableBytes b = 0")
      case empty: True
      let ?d = "(report_complete (out_params o1) (cancel_timer (timerid o1) ?c))\<lparr>outputBufferList := os\<rparr>"
      have "contents b = []" using empty inv_sizes(1) [OF b(2)] by simp
      then have "moves False c [] ?d"
        using os b(3) by (auto simp: moves_def stream_def unsent_def half_inv_def basic_defs)
      moreover have "moves False ?d [] (output_removed ?d)"
        using size by (intro output_removed_moves) (simp add: basic_defs)
      moreover have "c' = output_removed ?d"
        using assms(3) True os n b empty by (simp add: handleWrite_def)
      ultimately show ?thesis using moves_trans [of False c "[]" ?d False "[]"] n by (simp add: moves_def)
    next
      case False
      have "c' = ?c\<lparr>outputBufferList := o1\<lparr>outputBuffer := b\<rparr> # os\<rparr>"
        using assms(3) True os n b False by (simp add: handleWrite_def)
      moreover have td: "take n xs @ drop n xs @ ys = xs @ ys" for xs ys :: string by (simp flip: append_assoc)
      ultimately show ?thesis using os b(3) by (auto simp: moves_def stream_def unsent_def half_inv_def td)
    qed
  next
    case lost: False
    let ?d = "(report_err (out_params o1) SEND_WRITEERR (cancel_timer (timerid o1) c))\<lparr>outputBufferList := os\<rparr>"
    have "subseq (unsent ?d) (unsent c)" using os by (simp add: unsent_def list_emb_append2)
    then have "moves True c [] ?d"
      using os by (auto simp: moves_def stream_def half_inv_def basic_defs intro!: list_emb_append_mono)
    moreover have "moves True ?d [] (output_removed ?d)"
      using size by (intro output_removed_moves) (simp add: basic_defs)
    moreover have "c' = output_removed ?d"
      using assms(3) True os lost by (cases res) (auto simp: handleWrite_def)
    ultimately show ?thesis using moves_trans [of True c "[]" ?d True "[]"] lost by auto
  qed
next
  case False
  with assms(3) have "c' = c" by (auto simp: handleWrite_def split: if_splits list.splits)
  then show ?thesis by simp
qed

lemma closed_moves:
  assumes "conn_inv c"
  shows "moves (outputBufferList c \<noteq> []) c [] (closed evs c)"
proof -
  have "rank (conn_state c) \<le> 3" by (cases "conn_state c") simp_all
  then show ?thesis
    using closed_fields [OF assms, of evs] by (auto simp: moves_def half_inv_def stream_def unsent_def)
qed

lemma subseq_unsent: "subseq (concat (map f (filter P os))) (concat (map f os))"
proof (induction os)
  case (Cons o1 os)
  then show ?case by (auto intro: list_emb_append2 subseq_append_iff [THEN iffD2])
qed simp

lemma sendTimeout_moves: "sendTimeoutCallBack n c = Some c' \<Longrightarrow> moves True c [] c'"
  by (auto simp: sendTimeoutCallBack_def moves_def half_inv_def stream_def unsent_def basic_defs Let_def
      split: option.splits if_splits intro!: list_emb_append_mono subseq_unsent)

lemma small_moves:
  "moves l c [] (startReadInLoop c)" "moves l c [] (stopReadInLoop c)" "moves l c [] (snd (runAfter t c))"
  "moves l c [] (c\<lparr>suspendReadTimer := tid\<rparr>)" "moves l c [] (forceClose c)" "moves l c [] (forceCloseWithDelay c)"
  "moves l c [] (suspendRecvInLoop c)" "moves l c [] (resumeRecvInLoop c)"
  by (auto simp: moves_def half_inv_def stream_def unsent_def basic_defs startReadInLoop_def stopReadInLoop_def
      forceClose_def forceCloseWithDelay_def suspendRecvInLoop_def resumeRecvInLoop_def)

text \<open>The bytes an operation hands to the connection, and the operations that may lose some.\<close>

primrec handed :: "'p conn_op \<Rightarrow> 'p TcpConnection \<Rightarrow> string" where
  "handed (Op_send inLoop data p timeout res) c =
     (if inLoop \<and> sendQueSize c < nMaxSendQue c then taken data c else [])"
| "handed (Op_functor res) c = (case pendingFunctors c of Send_in_loop data p t # fs \<Rightarrow> taken data c | _ \<Rightarrow> [])"
| "handed (Op_writable res) c = []"
| "handed (Op_timer i) c = []"
| "handed Op_established c = []"
| "handed Op_close c = []"
| "handed Op_destroyed c = []"
| "handed (Op_shutdown inLoop) c = []"
| "handed Op_forceClose c = []"
| "handed Op_forceCloseWithDelay c = []"
| "handed Op_suspend c = []"
| "handed Op_resume c = []"

primrec may_lose :: "'p conn_op \<Rightarrow> 'p TcpConnection \<Rightarrow> bool" where
  "may_lose (Op_send inLoop data p timeout res) c = fatal res"
| "may_lose (Op_functor res) c =
     (case pendingFunctors c of
        Send_in_loop data p t # fs \<Rightarrow> fatal res
      | Force_close_in_loop # fs \<Rightarrow> outputBufferList c \<noteq> []
      | _ \<Rightarrow> False)"
| "may_lose (Op_writable res) c = (case res of Wrote n \<Rightarrow> n = 0 | Failed e \<Rightarrow> True)"
| "may_lose (Op_timer i) c = (case map_of (timers c) i of Some (Send_timeout n) \<Rightarrow> True | _ \<Rightarrow> False)"
| "may_lose Op_established c = False"
| "may_lose Op_close c = (outputBufferList c \<noteq> [])"
| "may_lose Op_destroyed c = (outputBufferList c \<noteq> [])"
| "may_lose (Op_shutdown inLoop) c = False"
| "may_lose Op_forceClose c = False"
| "may_lose Op_forceCloseWithDelay c = False"
| "may_lose Op_suspend c = False"
| "may_lose Op_resume c = False"

lemma closes_moves:
  assumes "conn_inv c"
  shows "handleClose c = Some c' \<Longrightarrow> moves (outputBufferList c \<noteq> []) c [] c'" "moves (outputBufferList c \<noteq> []) c [] (connectDestroyed c)"
    "forceCloseInLoop c = Some c' \<Longrightarrow> moves (outputBufferList c \<noteq> []) c [] c'"
  using closed_moves [OF assms]
  by (auto simp: handleClose_def closed_def Let_def close_is_closed connectDestroyed_def forceCloseInLoop_def split: if_splits)

lemma Op_functor_moves:
  assumes "conn_inv c" "half_inv c" "op_ok (Op_functor res) c" "exec_op (Op_functor res) c = Some c'"
  shows "moves (may_lose (Op_functor res) c) c (handed (Op_functor res) c) c'"
proof (cases "pendingFunctors c")
  case (Cons f fs)
  let ?c = "c\<lparr>pendingFunctors := fs\<rparr>"
  have inv: "conn_inv ?c" "functor_ok f" using assms(1) Cons by (auto simp: conn_inv_def isWriting_def)
  have run: "run_functor res f ?c = Some c'" using assms(4) Cons by simp
  have pop: "moves l c [] ?c" for l using Cons by (intro moves_sameI) auto
  have rest: "moves (may_lose (Op_functor res) c) ?c (handed (Op_functor res) c) c'"
  proof (cases f)
    case (Send_in_loop data p t)
    then show ?thesis
      using sendInLoop_moves [OF inv(1), of res data p t c'] run inv(2) assms(3) Cons by (simp add: functor_ok_def taken_def)
  next
    case Shutdown_in_loop
    then show ?thesis using moves_shutdownInLoop [OF inv(1)] run assms(2) Cons by (auto simp: half_inv_def)
  next
    case Force_close_in_loop
    then show ?thesis using closes_moves(3) [OF inv(1)] run Cons by auto
  qed (use run Cons in \<open>auto intro!: moves_sameI\<close>)
  from moves_trans [OF pop [of False] rest] show ?thesis by simp
qed (use assms(4) in simp)

lemma exec_op_moves:
  assumes "conn_inv c" "half_inv c" "op_ok op c" "exec_op op c = Some c'"
  shows "moves (may_lose op c) c (handed op c) c'"
proof (cases op)
  case (Op_send inLoop data p timeout res)
  then show ?thesis
    using sendInLoop_moves [OF assms(1), of res data p timeout] assms(3,4)
    by (auto simp: send_def queueInLoop_def Let_def intro!: moves_sameI split: if_splits)
next
  case (Op_writable res)
  with handleWrite_moves [OF assms(1), of res c'] assms(3,4) show ?thesis by (cases res) auto
next
  case (Op_functor res)
  with Op_functor_moves [OF assms(1,2)] assms(3,4) show ?thesis by simp
next
  case (Op_timer i)
  have "moves l c [] (startReadInLoop (cancel_timer tid c))" "moves l c [] (forceClose (cancel_timer tid c))" for l tid
    by (rule moves_then [OF moves_report(3)], rule small_moves)+
  moreover have "moves True c [] c'" if "sendTimeoutCallBack n (cancel_timer tid c) = Some c'" for n tid
    by (rule moves_then [OF moves_report(3) sendTimeout_moves [OF that]])
  ultimately show ?thesis
    using Op_timer assms(4) by (auto simp: timer_fires_def Let_def split: option.splits timer_task.splits)
next
  case Op_established
  then show ?thesis
    using assms(3,4) by (auto simp: connectEstablished_def Let_def basic_defs moves_def half_inv_def stream_def unsent_def)
next
  case (Op_shutdown inLoop)
  show ?thesis
  proof (cases "conn_state c = kConnected")
    case True
    let ?c = "setState kDisconnecting c"
    have "moves False c [] ?c" "moves False c [] (queueInLoop Shutdown_in_loop ?c)" "conn_inv ?c" "1 < rank (conn_state ?c)"
      using assms(1) True by (auto simp: basic_defs moves_def half_inv_def stream_def unsent_def conn_inv_def)
    with moves_then [OF this(1) moves_shutdownInLoop] True Op_shutdown assms(4) show ?thesis
      by (auto simp: shutdown_def Let_def split: if_splits)
  qed (use Op_shutdown assms(4) in \<open>auto simp: shutdown_def\<close>)
qed (use assms(4) small_moves closes_moves [OF assms(1)] in auto)


section \<open>Runs of operations\<close>

definition conn_safe :: "'p TcpConnection \<Rightarrow> bool" where
  "conn_safe c \<longleftrightarrow> conn_inv c \<and> half_inv c"

lemma exec_op_safe:
  assumes "conn_safe c" "op_ok op c"
  shows "\<exists>c'. exec_op op c = Some c' \<and> conn_safe c' \<and> callbacks_set c' = callbacks_set c \<and>
    (callbacks_set c \<longrightarrow> ledger c' = ledger c + accepted op c) \<and> moves (may_lose op c) c (handed op c) c'"
proof -
  obtain c' where c': "exec_op op c = Some c'" "conn_inv c'" "callbacks_set c' = callbacks_set c"
    "callbacks_set c \<longrightarrow> ledger c' = ledger c + accepted op c"
    using exec_op_ok [of c op] assms by (auto simp: goes_def conn_safe_def)
  with exec_op_moves [of c op c'] assms show ?thesis by (auto simp: conn_safe_def moves_def)
qed

interpretation conn: safe_steps exec_op op_ok conn_safe
  by unfold_locales (use exec_op_safe in blast)

text \<open>The accounts of a run: every message that was accepted, and nothing else, is added to the ledger.\<close>

definition accounted :: "'p multiset list \<Rightarrow> 'p TcpConnection \<Rightarrow> 'p TcpConnection \<Rightarrow> bool" where
  "accounted ms c c' \<longleftrightarrow> callbacks_set c' = callbacks_set c \<and> (callbacks_set c \<longrightarrow> ledger c' = ledger c + sum_list ms)"

interpretation conn_ledger: traced_steps exec_op op_ok conn_safe accepted accounted
proof
  show "accounted (accepted op c # ms) c c2"
    if "conn_safe c" "op_ok op c" "exec_op op c = Some c1" "conn_safe c1" "accounted ms c1 c2"
    for op ms and c c1 c2 :: "'a TcpConnection"
    using exec_op_safe [OF that(1,2)] that(3,5) by (auto simp: accounted_def add_ac)
qed (simp add: accounted_def)

definition streamed :: "(bool \<times> string) list \<Rightarrow> 'p TcpConnection \<Rightarrow> 'p TcpConnection \<Rightarrow> bool" where
  "streamed ls c c' \<longleftrightarrow> moves (\<exists>l \<in> set ls. fst l) c (concat (map snd ls)) c'"

interpretation conn_stream: traced_steps exec_op op_ok conn_safe "\<lambda>op c. (may_lose op c, handed op c)" streamed
proof
  show "streamed ((may_lose op c, handed op c) # ls) c c2"
    if "conn_safe c" "op_ok op c" "exec_op op c = Some c1" "conn_safe c1" "streamed ls c1 c2"
    for op ls and c c1 c2 :: "'a TcpConnection"
    using exec_op_safe [OF that(1,2)] that(3,5) moves_trans [of "may_lose op c" c "handed op c" c1]
    by (auto simp: streamed_def)
qed (simp add: streamed_def)

lemma TcpConnection_new_ok:
  assumes "TcpConnection_new defRecvBuf maxSendQue complete_cb err_cb high_cb = Some c"
  shows "conn_safe c" "ledger c = {#}" "callbacks_set c = (complete_cb \<and> err_cb)" "stream c = []" "conn_state c = kConnecting"
  using assms by (auto simp: TcpConnection_new_def bind_eq_Some_conv conn_safe_def conn_inv_def half_inv_def ledger_def
      callbacks_set_def stream_def unsent_def)

text \<open>A connection whose side was shut down.\<close>

lemma shut_unsent:
  assumes "conn_safe c" "write_shut c"
  shows "unsent c = []" "conn_state c \<in> {kDisconnecting, kDisconnected}" "handed op c = []"
proof -
  have "outputBufferList c = []" "1 < rank (conn_state c)" using assms by (auto simp: conn_safe_def half_inv_def)
  then show "unsent c = []" "conn_state c \<in> {kDisconnecting, kDisconnected}" "handed op c = []"
    by (cases "conn_state c"; cases op; auto simp: unsent_def taken_def split: list.splits loop_functor.splits)+
qed

definition shut_stays :: "'l list \<Rightarrow> 'p TcpConnection \<Rightarrow> 'p TcpConnection \<Rightarrow> bool" where
  "shut_stays ls c c' \<longleftrightarrow> (write_shut c \<longrightarrow> write_shut c' \<and> wire c' = wire c)"

lemma exec_op_shut:
  assumes "conn_safe c" "op_ok op c" "exec_op op c = Some c'" "write_shut c"
  shows "write_shut c' \<and> wire c' = wire c"
proof -
  have m: "moves (may_lose op c) c [] c'" using exec_op_safe [OF assms(1,2)] assms(3) shut_unsent(3) [OF assms(1,4)] by simp
  then have "subseq (wire c' @ unsent c') (wire c)" "prefix (wire c) (wire c')" "write_shut c'"
    using shut_unsent(1) [OF assms(1,4)] assms(4) by (auto simp: moves_def stream_def)
  then show ?thesis
    using list_emb_length [of "(=)" "wire c' @ unsent c'" "wire c"] prefix_length_prefix [of "wire c'" "wire c'" "wire c"]
    by (auto dest: prefix_order.antisym)
qed

interpretation conn_shut: traced_steps exec_op op_ok conn_safe "\<lambda>op c. ()" shut_stays
  by unfold_locales (use exec_op_shut in \<open>auto simp: shut_stays_def\<close>)

text \<open>One write of everything that the first output holds.\<close>

lemma handleWrite_full:
  assumes "conn_safe c" "outputBufferList c = o1 # os"
  shows "\<exists>c'. handleWrite (Wrote (length (contents (outputBuffer o1)))) c = Some c' \<and> conn_safe c' \<and> outputBufferList c' = os \<and>
    wire c' = wire c @ contents (outputBuffer o1) \<and> conn_state c' = conn_state c \<and> has_complete_cb c' = has_complete_cb c \<and>
    pendingFunctors c' = pendingFunctors c @ (if has_complete_cb c then [Call_write_complete (out_params o1)] else []) \<and>
    (os = [] \<longrightarrow> \<not> isWriting c' \<and> (conn_state c = kDisconnecting \<longrightarrow> write_shut c'))"
proof -
  let ?n = "length (contents (outputBuffer o1))"
  let ?op = "Op_writable (Wrote ?n)"
  have inv: "conn_inv c" using assms(1) by (simp add: conn_safe_def)
  have o1: "isWriting c" "buffer_inv (outputBuffer o1)" "0 < ?n" "size_sub (sendQueSize c) 1 = length os"
    using inv assms(2) by (auto simp: conn_inv_def output_ok_def)
  obtain b where b: "retrieve ?n (outputBuffer o1) = Some b" "buffer_inv b" "contents b = []"
    using retrieve_ok [OF o1(2), of ?n] by auto
  have "handleWrite (Wrote ?n) c = Some (output_removed ((report_complete (out_params o1) (cancel_timer (timerid o1)
    (c\<lparr>wire := wire c @ contents (outputBuffer o1)\<rparr>)))\<lparr>outputBufferList := os\<rparr>))" (is "_ = Some (output_removed ?d)")
    using assms(2) o1 b inv_sizes(1) [OF b(2)] by (simp add: handleWrite_def)
  moreover have "conn_safe (output_removed ?d)"
    using exec_op_safe [OF assms(1), of ?op] assms(2) calculation by (simp add: writes_at_most_iff)
  moreover have "has_complete_cb (output_removed ?d) = has_complete_cb c"
    by (simp add: output_removed_def Let_def shutdownInLoop_def basic_defs)
  moreover have "os = [] \<longrightarrow> \<not> isWriting (output_removed ?d) \<and> (conn_state c = kDisconnecting \<longrightarrow> write_shut (output_removed ?d))"
    using o1(4) by (auto simp: output_removed_def Let_def shutdownInLoop_def basic_defs)
  ultimately show ?thesis by (simp add: basic_defs)
qed

definition drain :: "'p TcpConnection \<Rightarrow> 'p conn_op list" where
  "drain c = map (\<lambda>o1. Op_writable (Wrote (length (contents (outputBuffer o1))))) (outputBufferList c)"

lemma drain_ok:
  assumes "conn_safe c"
  shows "\<exists>c'. run exec_op (drain c) c = Some c' \<and> conn_safe c' \<and> outputBufferList c' = [] \<and> wire c' = stream c \<and>
    pendingFunctors c' = pendingFunctors c @ (if has_complete_cb c then map (Call_write_complete \<circ> out_params) (outputBufferList c) else []) \<and>
    (outputBufferList c \<noteq> [] \<longrightarrow> \<not> isWriting c' \<and> (conn_state c = kDisconnecting \<longrightarrow> write_shut c'))"
  using assms
proof (induction "outputBufferList c" arbitrary: c)
  case (Cons o1 os)
  from handleWrite_full [OF Cons.prems, of o1 os] Cons.hyps(2) obtain c1 where
    c1: "handleWrite (Wrote (length (contents (outputBuffer o1)))) c = Some c1" "conn_safe c1" "outputBufferList c1 = os"
    "wire c1 = wire c @ contents (outputBuffer o1)" "conn_state c1 = conn_state c" "has_complete_cb c1 = has_complete_cb c"
    "pendingFunctors c1 = pendingFunctors c @ (if has_complete_cb c then [Call_write_complete (out_params o1)] else [])"
    "os = [] \<longrightarrow> \<not> isWriting c1 \<and> (conn_state c = kDisconnecting \<longrightarrow> write_shut c1)"
    by auto
  have d: "drain c = Op_writable (Wrote (length (contents (outputBuffer o1)))) # drain c1" "stream c = stream c1"
    using Cons.hyps(2) c1(3,4) by (auto simp: drain_def stream_def unsent_def simp flip: Cons.hyps(2))
  show ?case
  proof (cases os)
    case Nil
    with c1 d Cons.hyps(2) show ?thesis by (auto simp: drain_def stream_def unsent_def simp flip: Cons.hyps(2))
  next
    case (Cons o2 os2)
    with Cons.hyps(1) [OF c1(3) [symmetric] c1(2)] c1 d \<open>o1 # os = outputBufferList c\<close> show ?thesis
      by (auto simp flip: \<open>o1 # os = outputBufferList c\<close>)
  qed
qed (simp add: drain_def stream_def unsent_def)


section \<open>Properties\<close>

lemma shrink_if_need_ok:
  assumes "buffer_inv b" "reserve + kCheapPrepend \<le> max_size"
  shows "\<exists>b'. shrink_if_need reserve b = Some b' \<and> buffer_inv b' \<and> contents b' = contents b"
proof (cases "writerIndex b = readerIndex b")
  case True
  then have "contents b = []" by (simp add: contents_def)
  with shrink_ok [OF assms(1), of reserve] assms show ?thesis by (auto simp: shrink_if_need_def)
qed (use assms(1) in \<open>auto simp: shrink_if_need_def\<close>)

text \<open>A connection for the examples, and one message of which a part is queued.\<close>

lemma sample_conn:
  "\<exists>c. TcpConnection_new 16 4 True True True = Some c \<and> conn_state c = kConnecting \<and> \<not> isWriting c \<and> wire c = [] \<and>
    sendQueSize c = 0 \<and> outputBufferList c = [] \<and> has_complete_cb c \<and> nMaxSendQue c = 4"
  using Buffer_new_ok [of 16] by (auto simp: TcpConnection_new_def isWriting_def kCheapPrepend_def max_size_def)

definition sample_ops :: "nat conn_op list" where
  "sample_ops = [Op_established, Op_send True ''abc'' 7 0 (Wrote 1)]"

definition sample_start :: "nat TcpConnection" where
  "sample_start = the (TcpConnection_new 16 4 True True True)"

definition sample_end :: "nat TcpConnection" where
  "sample_end = the (run exec_op sample_ops sample_start)"

lemma sample_send:
  assumes "conn_state c = kConnected" "\<not> isWriting c" "wire c = []" "sendQueSize c = 0" "outputBufferList c = []"
    "has_complete_cb c" "nMaxSendQue c = 4"
  shows "\<exists>c2. send True (Wrote 1) ''abc'' p 0 c = Some (SEND_SUCCESS, c2) \<and> wire c2 = ''a'' \<and> unsent c2 = ''bc'' \<and>
    map out_params (outputBufferList c2) = [p] \<and> has_complete_cb c2"
proof -
  obtain b0 b where b: "Buffer_new (length ''bc'') = Some b0" "append_data ''bc'' b0 = Some b" "contents b = ''bc''"
    using new_buffer [of "''bc''"] by (auto simp: kCheapPrepend_def max_size_def)
  then show ?thesis
    using assms by (auto simp: send_def sendInLoop_def write_directly_def Let_def keep_output_def start_send_timer_def add_output_def
        note_high_water_def unsent_def basic_defs size_sub_def)
qed

lemma sample_facts:
  "TcpConnection_new 16 4 True True True = Some sample_start" (is ?new)
  "allowed exec_op op_ok sample_ops sample_start" (is ?ok)
  "run exec_op sample_ops sample_start = Some sample_end" (is ?run)
  "wire sample_end = ''a''" "unsent sample_end = ''bc''" "map out_params (outputBufferList sample_end) = [7]" "has_complete_cb sample_end"
  "trace exec_op may_lose sample_ops sample_start = [False, False]"
  "concat (trace exec_op handed sample_ops sample_start) = ''abc''"
  "sum_list (trace exec_op accepted sample_ops sample_start) = {#7#}"
proof -
  obtain c :: "nat TcpConnection" where c: "TcpConnection_new 16 4 True True True = Some c" "conn_state c = kConnecting" "\<not> isWriting c"
    "wire c = []" "sendQueSize c = 0" "outputBufferList c = []" "has_complete_cb c" "nMaxSendQue c = 4"
    using sample_conn by blast
  then have start: "sample_start = c" by (simp add: sample_start_def)
  show ?new using c(1) start by simp
  obtain c1 where c1: "connectEstablished c = Some c1" "conn_state c1 = kConnected" "\<not> isWriting c1" "wire c1 = []" "sendQueSize c1 = 0"
    "outputBufferList c1 = []" "has_complete_cb c1" "nMaxSendQue c1 = 4"
    using c by (auto simp: connectEstablished_def basic_defs Let_def)
  obtain c2 where c2: "send True (Wrote 1) ''abc'' 7 0 c1 = Some (SEND_SUCCESS, c2)" "wire c2 = ''a''" "unsent c2 = ''bc''"
    "map out_params (outputBufferList c2) = [7]" "has_complete_cb c2"
    using sample_send [OF c1(2-8), of 7] by auto
  show ?run using c1 c2(1) by (simp add: sample_ops_def sample_end_def start)
  then have "sample_end = c2" using c1 c2(1) by (simp add: sample_ops_def start)
  with c2 show "wire sample_end = ''a''" "unsent sample_end = ''bc''" "map out_params (outputBufferList sample_end) = [7]"
    "has_complete_cb sample_end" by simp_all
  show ?ok "trace exec_op may_lose sample_ops sample_start = [False, False]"
    "concat (trace exec_op handed sample_ops sample_start) = ''abc''" "sum_list (trace exec_op accepted sample_ops sample_start) = {#7#}"
    using c(2) c1 c2(1)
    by (simp_all add: sample_ops_def start good_message_def writes_at_most_def fatal_def taken_def kCheapPrepend_def max_size_def)
qed



text \<open>
  C16: every message is accounted for exactly once. With both callbacks set, the messages (by their parameters) for
  which \<open>send\<close> returned success are, at every moment of a run, exactly those that are queued, those whose
  functor is pending and those that were reported complete or failed; so once nothing is queued or pending
  each of them has been reported exactly once.
\<close>

theorem tcp_reports_once:
  assumes "TcpConnection_new defRecvBuf maxSendQue True True high_cb = Some c" "allowed exec_op op_ok ops c"
    and "run exec_op ops c = Some c'"
  shows "sum_list (trace exec_op accepted ops c) =
      mset (map out_params (outputBufferList c')) + sum_list (map functor_params (pendingFunctors c')) +
      sum_list (map event_params (called c'))"
  using conn_ledger.run_rel [OF TcpConnection_new_ok(1) [OF assms(1)] assms(2,3)] TcpConnection_new_ok [OF assms(1)]
  by (simp add: accounted_def ledger_def)

theorem tcp_reports_once_witness:
  "{#7#} = mset (map out_params (outputBufferList sample_end)) + sum_list (map functor_params (pendingFunctors sample_end)) +
     sum_list (map event_params (called sample_end))"
  using tcp_reports_once [OF sample_facts(1-3)] unfolding sample_facts(10) .

text \<open>
  C17: the byte stream. What is on the wire, followed by what is queued, is what was handed to the connection, in the
  order in which it was handed over, with nothing invented, repeated or reordered. Nothing is missing either, unless
  an operation of the run may drop data: a failed write, a send timeout, or closing with a queue that is not empty.
\<close>

theorem tcp_stream:
  assumes "TcpConnection_new defRecvBuf maxSendQue complete_cb err_cb high_cb = Some c" "allowed exec_op op_ok ops c"
    and "run exec_op ops c = Some c'"
  shows "subseq (wire c' @ unsent c') (concat (trace exec_op handed ops c)) \<and>
    ((\<forall>l \<in> set (trace exec_op may_lose ops c). \<not> l) \<longrightarrow> wire c' @ unsent c' = concat (trace exec_op handed ops c))"
proof -
  have t: "trace exec_op (\<lambda>op c. (may_lose op c, handed op c)) ops c =
      zip (trace exec_op may_lose ops c) (trace exec_op handed ops c)"
    "length (trace exec_op may_lose ops c) = length (trace exec_op handed ops c)" for c :: "'a TcpConnection"
    by (induction ops arbitrary: c) (auto split: option.split)
  have f: "(\<exists>l \<in> set (zip xs ys). fst l) \<longleftrightarrow> (\<exists>x \<in> set xs. x)" if "length xs = length ys" for xs :: "bool list" and ys :: "string list"
    using map_fst_zip [OF that] by (metis (no_types, lifting) in_set_conv_nth length_map nth_map)
  have "moves (\<exists>l \<in> set (trace exec_op may_lose ops c). l) c (concat (trace exec_op handed ops c)) c'"
    using conn_stream.run_rel [OF TcpConnection_new_ok(1) [OF assms(1)] assms(2,3)] t(2) [of c]
    by (simp add: streamed_def t(1) f)
  then show ?thesis using TcpConnection_new_ok(4) [OF assms(1)] by (auto simp: moves_def simp flip: stream_def)
qed

theorem tcp_stream_witness:
  "wire sample_end @ unsent sample_end = ''abc''"
  using tcp_stream [OF sample_facts(1-3)] unfolding sample_facts(8,9) by simp



text \<open>
  C19: the queue drains. When the socket takes every output in one write, as many writes as there are outputs empty the
  queue, the wire then carries the whole stream, completion is reported for each output in order, the channel
  stops waiting for writability, and a shutdown that was waiting for this is carried out.
\<close>

theorem tcp_drains:
  assumes "TcpConnection_new defRecvBuf maxSendQue True err_cb high_cb = Some c0" "allowed exec_op op_ok ops c0"
    and "run exec_op ops c0 = Some c" "outputBufferList c \<noteq> []" "has_complete_cb c"
  shows "\<exists>c'. run exec_op (drain c) c = Some c' \<and> outputBufferList c' = [] \<and> wire c' = wire c @ unsent c \<and>
    pendingFunctors c' = pendingFunctors c @ map (Call_write_complete \<circ> out_params) (outputBufferList c) \<and>
    \<not> isWriting c' \<and> (conn_state c = kDisconnecting \<longrightarrow> write_shut c')"
proof -
  have "conn_safe c" using conn.run_safe [OF TcpConnection_new_ok(1) [OF assms(1)] assms(2)] assms(3) by simp
  from drain_ok [OF this] assms(4,5) show ?thesis by (auto simp: stream_def)
qed

theorem tcp_drains_witness:
  "\<exists>c'. run exec_op (drain sample_end) sample_end = Some c' \<and> wire c' = ''abc'' \<and> outputBufferList c' = []"
proof -
  have "outputBufferList sample_end \<noteq> []" using sample_facts(6) by auto
  with tcp_drains [OF sample_facts(1-3) _ sample_facts(7)] sample_facts(4,5) show ?thesis by auto
qed

text \<open>
  Receiving. The bytes that \<open>readv\<close> delivers are appended to the input buffer before the message callback runs, and
  shrinking the buffer afterwards keeps what the callback left in it; an end of file closes the connection, an
  error leaves it as it is.
\<close>

theorem tcp_read:
  assumes "buffer_inv (inputBuffer c)" "length (storage (inputBuffer c)) + kExtraBufSize \<le> max_size"
    and "\<And>k bytes. readv k = Inr bytes \<Longrightarrow> length bytes \<le> k"
    and "\<And>c1. buffer_inv (inputBuffer c1) \<Longrightarrow> buffer_inv (inputBuffer (cb c1)) \<and> nDefRecvBuf (cb c1) + kCheapPrepend \<le> max_size"
  shows "case readv (iov_total (inputBuffer c)) of
      Inl e \<Rightarrow> handleRead readv cb c = Some c
    | Inr bytes \<Rightarrow> \<exists>b. buffer_inv b \<and> contents b = contents (inputBuffer c) @ bytes \<and>
        (if bytes = [] then handleRead readv cb c = handleClose (c\<lparr>inputBuffer := b\<rparr>)
         else (let c1 = cb (c\<lparr>inputBuffer := b\<rparr>) in \<exists>b2. buffer_inv b2 \<and> contents b2 = contents (inputBuffer c1) \<and>
           handleRead readv cb c = Some (c1\<lparr>inputBuffer := b2\<rparr>)))"
proof (cases "readv (iov_total (inputBuffer c))")
  case (Inl e)
  then show ?thesis by (simp add: handleRead_def readFd_def Let_def)
next
  case (Inr bytes)
  obtain b where b: "readFd readv (inputBuffer c) = Some (int (length bytes), None, b)" "buffer_inv b"
    "contents b = contents (inputBuffer c) @ bytes"
    using readFd_ok [of "inputBuffer c" readv bytes] assms(1,2) assms(3) [OF Inr] Inr by blast
  let ?c1 = "cb (c\<lparr>inputBuffer := b\<rparr>)"
  obtain b2 where b2: "shrink_if_need (nDefRecvBuf ?c1) (inputBuffer ?c1) = Some b2" "buffer_inv b2"
    "contents b2 = contents (inputBuffer ?c1)"
    using shrink_if_need_ok [of "inputBuffer ?c1" "nDefRecvBuf ?c1"] assms(4) [of "c\<lparr>inputBuffer := b\<rparr>"] b(2) by auto
  have h: "bytes = [] \<Longrightarrow> handleRead readv cb c = handleClose (c\<lparr>inputBuffer := b\<rparr>)"
    "bytes \<noteq> [] \<Longrightarrow> handleRead readv cb c = Some (?c1\<lparr>inputBuffer := b2\<rparr>)"
    using b(1) b2(1) by (simp_all add: handleRead_def Let_def)
  have "if bytes = [] then handleRead readv cb c = handleClose (c\<lparr>inputBuffer := b\<rparr>)
     else (\<exists>b2. buffer_inv b2 \<and> contents b2 = contents (inputBuffer ?c1) \<and> handleRead readv cb c = Some (?c1\<lparr>inputBuffer := b2\<rparr>))"
    using h b2(2,3) by auto
  then show ?thesis using b(2,3) unfolding Inr Let_def sum.case by blast
qed

theorem tcp_read_witness:
  "\<exists>b. handleRead (\<lambda>k. Inr (take k ''abcdef'')) (\<lambda>c. c\<lparr>nDefRecvBuf := 2\<rparr>)
      (sample_start\<lparr>inputBuffer := \<lparr>storage = replicate 10 NUL, readerIndex = 8, writerIndex = 8\<rparr>, nDefRecvBuf := 2\<rparr>) =
      Some (sample_start\<lparr>nDefRecvBuf := 2, inputBuffer := b\<rparr>) \<and> contents b = ''abcdef''"
  using tcp_read [of "sample_start\<lparr>inputBuffer := \<lparr>storage = replicate 10 NUL, readerIndex = 8, writerIndex = 8\<rparr>, nDefRecvBuf := 2\<rparr>"
      "\<lambda>k. Inr (take k ''abcdef'')" "\<lambda>c. c\<lparr>nDefRecvBuf := 2\<rparr>"]
  by (auto simp: buffer_inv_def kCheapPrepend_def max_size_def contents_def kExtraBufSize_def iov_total_def writableBytes_def Let_def)


text \<open>Sending a buffer is sending its contents; when they were taken the buffer is empty afterwards.\<close>

lemma send_buffer_is_send:
  assumes "buffer_inv buf" "send inLoop res (contents buf) p timeout c = Some (ret, c')"
  shows "\<exists>buf'. send_buffer inLoop res p timeout buf c = Some (ret, buf', c') \<and> buffer_inv buf' \<and>
    (if ret = SEND_SUCCESS then contents buf' = [] else buf' = buf)"
proof -
  have r: "readableBytes buf = length (contents buf)" by (rule inv_sizes(1) [OF assms(1)])
  have data: "take (readableBytes buf) (drop (peek buf) (storage buf)) = contents buf"
    using assms(1) r by (simp add: contents_def peek_def buffer_inv_def min_def split: if_splits)
  obtain b where "retrieve (length (contents buf)) buf = Some b" "buffer_inv b" "contents b = []"
    using retrieve_ok [OF assms(1), of "length (contents buf)"] by auto
  moreover have "buffer_inv (retrieveAll buf)" "contents (retrieveAll buf) = []"
    using assms(1) by (auto simp: retrieveAll_def buffer_inv_def contents_def kCheapPrepend_def)
  ultimately show ?thesis
    using assms data r by (auto simp: send_buffer_def send_def retrieveAllAsString_def retrieveAsString_def Let_def split: if_splits)
qed


section \<open>Observations\<close>

text \<open>\<open>send\<close> on a connection that is not up answers with success; only the callback tells the difference.\<close>

lemma send_not_connected_succeeds:
  assumes "conn_state c \<noteq> kConnected" "sendQueSize c < nMaxSendQue c"
  shows "send True res data p timeout c = Some (SEND_SUCCESS, report_err p SEND_DISCONNECTED c)"
  using assms by (simp add: send_def sendInLoop_def)

text \<open>A write that would block makes \<open>handleWrite\<close> drop the whole output, even if a part of it is on the wire.\<close>

lemma blocked_write_drops_output:
  assumes "isWriting c" "outputBufferList c = o1 # os"
  shows "\<exists>c'. handleWrite (Failed EWOULDBLOCK) c = Some c' \<and> outputBufferList c' = os \<and> wire c' = wire c \<and>
    pendingFunctors c' = pendingFunctors c @ (if has_err_cb c then [Call_write_err (out_params o1) SEND_WRITEERR] else [])"
  using assms by (simp add: handleWrite_def report_err_def queueInLoop_def cancel_timer_def)

text \<open>
  When the last output times out the channel keeps waiting for writability. \<open>handleWrite\<close> then does nothing, and a
  shutdown waits for an end of writing that does not come.
\<close>

lemma timeout_leaves_writing:
  assumes "conn_inv c" "outputBufferList c = [o1]" "sendTimeoutCallBack (node o1) c = Some c'"
  shows "outputBufferList c' = [] \<and> handleWrite res c' = Some c' \<and> shutdownInLoop c' = c'"
proof -
  have "isWriting c" using assms(1,2) by (simp add: conn_inv_def)
  then have "outputBufferList c' = []" "isWriting c'"
    using assms(2,3) by (auto simp: sendTimeoutCallBack_def report_err_def queueInLoop_def isWriting_def Let_def)
  then show ?thesis by (simp add: handleWrite_def shutdownInLoop_def)
qed

text \<open>An empty message is never reported while another one is being sent.\<close>

lemma empty_message_unreported:
  "conn_state c = kConnected \<Longrightarrow> isWriting c \<Longrightarrow> sendInLoop res [] p timeout c = Some c"
  by (simp add: sendInLoop_def)

end
