(* ===== verification/Timer_Queue.thy ===== *)
theory Timer_Queue
  imports Runs "HOL-Library.Product_Lexorder" "HOL-Library.Monad_Syntax"
begin

text \<open>
  \<open>TimerQueue\<close> and \<open>Timer\<close> (\<open>net/TimerQueue.cc\<close>, \<open>net/Timer.cc\<close>). The \<open>Timer\<close> objects live in a heap from addresses to
  timers, with allocation and deletion, so that a use of a deleted timer is a run that aborts. \<open>std::set\<close> of entries is
  the sorted list of its elements. What a callback does to the queue is a list of operations, an argument of the
  handler; the time of \<open>timerfd\<close> is kept as it was set last.
\<close>

section \<open>Structures\<close>

text \<open>
  A \<open>Timer\<close>. The interval, a double, is represented by what is computed from it: whether it is positive, and the
  number of microseconds \<open>addTime\<close> adds for it.
\<close>

record 'cb timer =
  callback :: 'cb
  expiration :: int
  repeats :: bool
  delta :: int
  sequence :: int

type_synonym timer_addr = nat
type_synonym timer_entry = "int \<times> timer_addr"
type_synonym active_timer = "timer_addr \<times> int"

record 'cb TimerQueue =
  tq_heap :: "timer_addr \<Rightarrow> 'cb timer option"
  tq_timers :: "timer_entry list"
  tq_active :: "active_timer set"
  tq_calling :: bool
  tq_canceling :: "active_timer set"
  tq_created :: int
  tq_timerfd :: "int option"
  tq_ran :: "(int \<times> 'cb) list"

definition UINTPTR_MAX :: nat where
  "UINTPTR_MAX = 2 ^ 64 - 1"

definition assert_t :: "bool \<Rightarrow> unit option" where
  "assert_t P = (if P then Some () else None)"

lemma assert_t_simps [simp]: "assert_t True = Some ()" "assert_t False = None"
  by (simp_all add: assert_t_def)


section \<open>Operations\<close>

definition new_Timer :: "timer_addr \<Rightarrow> 'cb \<Rightarrow> int \<Rightarrow> bool \<Rightarrow> int \<Rightarrow> 'cb TimerQueue \<Rightarrow> 'cb TimerQueue" where
  "new_Timer a cb when rep d q =
     (let n = tq_created q + 1
      in q\<lparr>tq_created := n,
           tq_heap := (tq_heap q)(a \<mapsto> \<lparr>callback = cb, expiration = when, repeats = rep, delta = d, sequence = n\<rparr>)\<rparr>)"

definition restart :: "int \<Rightarrow> 'cb timer \<Rightarrow> 'cb timer" where
  "restart now t = (if repeats t then t\<lparr>expiration := now + delta t\<rparr> else t\<lparr>expiration := 0\<rparr>)"

definition delete_timer :: "timer_addr \<Rightarrow> 'cb TimerQueue \<Rightarrow> 'cb TimerQueue" where
  "delete_timer a q = q\<lparr>tq_heap := (tq_heap q)(a := None)\<rparr>"

definition resetTimerfd :: "int \<Rightarrow> 'cb TimerQueue \<Rightarrow> 'cb TimerQueue" where
  "resetTimerfd when q = q\<lparr>tq_timerfd := Some when\<rparr>"

definition sizes_equal :: "'cb TimerQueue \<Rightarrow> bool" where
  "sizes_equal q \<longleftrightarrow> length (tq_timers q) = card (tq_active q)"

definition TimerQueue_new :: "'cb TimerQueue" where
  "TimerQueue_new = \<lparr>tq_heap = Map.empty, tq_timers = [], tq_active = {}, tq_calling = False, tq_canceling = {},
     tq_created = 0, tq_timerfd = None, tq_ran = []\<rparr>"

definition insert_timer :: "timer_addr \<Rightarrow> 'cb TimerQueue \<Rightarrow> (bool \<times> 'cb TimerQueue) option" where
  "insert_timer a q = do {
     assert_t (sizes_equal q);
     t \<leftarrow> tq_heap q a;
     let when = expiration t;
     let earliestChanged = (tq_timers q = [] \<or> when < fst (hd (tq_timers q)));
     assert_t ((when, a) \<notin> set (tq_timers q));
     assert_t ((a, sequence t) \<notin> tq_active q);
     let q1 = q\<lparr>tq_timers := insort (when, a) (tq_timers q), tq_active := insert (a, sequence t) (tq_active q)\<rparr>;
     assert_t (sizes_equal q1);
     Some (earliestChanged, q1) }"

definition addTimerInLoop :: "timer_addr \<Rightarrow> 'cb TimerQueue \<Rightarrow> 'cb TimerQueue option" where
  "addTimerInLoop a q = do {
     (earliestChanged, q1) \<leftarrow> insert_timer a q;
     if earliestChanged then do { t \<leftarrow> tq_heap q1 a; Some (resetTimerfd (expiration t) q1) } else Some q1 }"

text \<open>\<open>addTimer\<close>, in the thread of the loop.\<close>

definition addTimer :: "timer_addr \<Rightarrow> 'cb \<Rightarrow> int \<Rightarrow> bool \<Rightarrow> int \<Rightarrow> 'cb TimerQueue \<Rightarrow> 'cb TimerQueue option" where
  "addTimer a cb when rep d q = addTimerInLoop a (new_Timer a cb when rep d q)"

definition cancelInLoop :: "active_timer \<Rightarrow> 'cb TimerQueue \<Rightarrow> 'cb TimerQueue option" where
  "cancelInLoop timerId q = do {
     assert_t (sizes_equal q);
     q1 \<leftarrow> (if timerId \<in> tq_active q then do {
               t \<leftarrow> tq_heap q (fst timerId);
               let e = (expiration t, fst timerId);
               assert_t (e \<in> set (tq_timers q));
               let q1 = delete_timer (fst timerId) (q\<lparr>tq_timers := remove1 e (tq_timers q)\<rparr>);
               Some (q1\<lparr>tq_active := tq_active q1 - {timerId}\<rparr>) }
             else if tq_calling q then Some (q\<lparr>tq_canceling := insert timerId (tq_canceling q)\<rparr>)
             else Some q);
     assert_t (sizes_equal q1);
     Some q1 }"

primrec erase_active :: "timer_entry list \<Rightarrow> 'cb TimerQueue \<Rightarrow> 'cb TimerQueue option" where
  "erase_active [] q = Some q"
| "erase_active (e # es) q = do {
     t \<leftarrow> tq_heap q (snd e);
     assert_t ((snd e, sequence t) \<in> tq_active q);
     erase_active es (q\<lparr>tq_active := tq_active q - {(snd e, sequence t)}\<rparr>) }"

definition getExpired :: "int \<Rightarrow> 'cb TimerQueue \<Rightarrow> (timer_entry list \<times> 'cb TimerQueue) option" where
  "getExpired now q = do {
     assert_t (sizes_equal q);
     let sentry = (now, UINTPTR_MAX);
     let expired = takeWhile (\<lambda>e. e < sentry) (tq_timers q);
     let rest = dropWhile (\<lambda>e. e < sentry) (tq_timers q);
     assert_t (rest = [] \<or> now < fst (hd rest));
     q1 \<leftarrow> erase_active expired (q\<lparr>tq_timers := rest\<rparr>);
     assert_t (sizes_equal q1);
     Some (expired, q1) }"

text \<open>The calls a callback makes: \<open>addTimer\<close>, with the address the new timer gets, and \<open>cancel\<close>.\<close>

datatype 'cb timer_call = Add timer_addr 'cb int bool int | Cancel active_timer

primrec exec_call :: "'cb timer_call \<Rightarrow> 'cb TimerQueue \<Rightarrow> 'cb TimerQueue option" where
  "exec_call (Add a cb when rep d) q = addTimer a cb when rep d q"
| "exec_call (Cancel timerId) q = cancelInLoop timerId q"

text \<open>The loop of \<open>handleRead\<close> over the expired timers; the \<open>i\<close>-th callback makes the \<open>i\<close>-th list of calls.\<close>

fun run_expired :: "timer_entry list \<Rightarrow> 'cb timer_call list list \<Rightarrow> 'cb TimerQueue \<Rightarrow> 'cb TimerQueue option" where
  "run_expired [] calls q = Some q"
| "run_expired (e # es) calls q = do {
     t \<leftarrow> tq_heap q (snd e);
     q1 \<leftarrow> run exec_call (case calls of [] \<Rightarrow> [] | c # cs \<Rightarrow> c) (q\<lparr>tq_ran := tq_ran q @ [(sequence t, callback t)]\<rparr>);
     run_expired es (tl calls) q1 }"

primrec reset_entries :: "timer_entry list \<Rightarrow> int \<Rightarrow> 'cb TimerQueue \<Rightarrow> 'cb TimerQueue option" where
  "reset_entries [] now q = Some q"
| "reset_entries (e # es) now q = do {
     t \<leftarrow> tq_heap q (snd e);
     if repeats t \<and> (snd e, sequence t) \<notin> tq_canceling q then do {
       (_, q1) \<leftarrow> insert_timer (snd e) (q\<lparr>tq_heap := (tq_heap q)(snd e \<mapsto> restart now t)\<rparr>);
       reset_entries es now q1 }
     else reset_entries es now (delete_timer (snd e) q) }"

definition reset :: "timer_entry list \<Rightarrow> int \<Rightarrow> 'cb TimerQueue \<Rightarrow> 'cb TimerQueue option" where
  "reset expired now q = do {
     q1 \<leftarrow> reset_entries expired now q;
     nextExpire \<leftarrow> (if tq_timers q1 \<noteq> [] then do { t \<leftarrow> tq_heap q1 (snd (hd (tq_timers q1))); Some (expiration t) }
                    else Some 0);
     Some (if 0 < nextExpire then resetTimerfd nextExpire q1 else q1) }"

text \<open>\<open>handleRead\<close>; reading \<open>timerfd\<close> takes its expiration away.\<close>

definition handleTimers :: "int \<Rightarrow> 'cb timer_call list list \<Rightarrow> 'cb TimerQueue \<Rightarrow> 'cb TimerQueue option" where
  "handleTimers now calls q = do {
     (expired, q1) \<leftarrow> getExpired now (q\<lparr>tq_timerfd := None\<rparr>);
     q2 \<leftarrow> run_expired expired calls (q1\<lparr>tq_calling := True, tq_canceling := {}\<rparr>);
     reset expired now (q2\<lparr>tq_calling := False\<rparr>) }"


section \<open>The invariant\<close>

text \<open>
  \<open>queue_inv F q\<close>: the entries are sorted and belong to live timers, the active set mirrors them, and the live timers are those of
  the entries and, apart from them, those at the addresses \<open>F\<close>, whose callbacks are being run.
\<close>

definition key_of :: "(timer_addr \<Rightarrow> 'cb timer option) \<Rightarrow> timer_entry \<Rightarrow> active_timer" where
  "key_of h e = (snd e, sequence (the (h (snd e))))"

definition queue_inv :: "timer_addr set \<Rightarrow> 'cb TimerQueue \<Rightarrow> bool" where
  "queue_inv F q \<longleftrightarrow> sorted (tq_timers q) \<and> distinct (map snd (tq_timers q)) \<and>
     (\<forall>e \<in> set (tq_timers q). \<exists>t. tq_heap q (snd e) = Some t \<and> expiration t = fst e \<and> 0 < fst e) \<and>
     tq_active q = key_of (tq_heap q) ` set (tq_timers q) \<and>
     dom (tq_heap q) = F \<union> snd ` set (tq_timers q) \<and> F \<inter> snd ` set (tq_timers q) = {} \<and>
     (\<forall>a \<in> dom (tq_heap q). a < UINTPTR_MAX) \<and>
     (\<forall>a t. tq_heap q a = Some t \<longrightarrow> sequence t \<le> tq_created q \<and> 0 \<le> delta t) \<and>
     (\<forall>a b t u. tq_heap q a = Some t \<and> tq_heap q b = Some u \<and> sequence t = sequence u \<longrightarrow> a = b)"

lemma key_inj: "queue_inv F q \<Longrightarrow> inj_on (key_of (tq_heap q)) (set (tq_timers q))"
  by (auto simp: queue_inv_def inj_on_def key_of_def distinct_map)

lemma queue_sizes:
  assumes "queue_inv F q"
  shows "sizes_equal q"
proof -
  have "tq_active q = key_of (tq_heap q) ` set (tq_timers q)" "distinct (tq_timers q)"
    using assms by (auto simp: queue_inv_def distinct_map)
  with key_inj [OF assms] show ?thesis by (simp add: sizes_equal_def card_image distinct_card)
qed

lemma active_addr:
  assumes "queue_inv F q" "(a, s) \<in> tq_active q"
  shows "a \<in> snd ` set (tq_timers q)"
proof -
  have "(a, s) \<in> key_of (tq_heap q) ` set (tq_timers q)" using assms by (simp add: queue_inv_def)
  then show ?thesis by (auto simp: key_of_def)
qed

lemma insort_distinct_snd: "distinct (map snd xs) \<Longrightarrow> snd x \<notin> snd ` set xs \<Longrightarrow> distinct (map snd (insort x xs))"
  by (induction xs) (auto simp: set_insort_key)

text \<open>A live timer that is not in the set is inserted.\<close>

lemma insert_ok:
  assumes "queue_inv F q" "a \<in> F" "tq_heap q a = Some t" "0 < expiration t"
  shows "\<exists>q'. insert_timer a q = Some (tq_timers q = [] \<or> expiration t < fst (hd (tq_timers q)), q') \<and> queue_inv (F - {a}) q' \<and>
    q' = q\<lparr>tq_timers := insort (expiration t, a) (tq_timers q), tq_active := insert (a, sequence t) (tq_active q)\<rparr>"
proof -
  let ?e = "(expiration t, a)"
  let ?q = "q\<lparr>tq_timers := insort ?e (tq_timers q), tq_active := insert (a, sequence t) (tq_active q)\<rparr>"
  have fresh: "a \<notin> snd ` set (tq_timers q)" using assms(1,2) by (auto simp: queue_inv_def)
  then have new: "?e \<notin> set (tq_timers q)" "(a, sequence t) \<notin> tq_active q"
    using active_addr [OF assms(1)] by force+
  have k: "key_of (tq_heap q) ?e = (a, sequence t)" using assms(3) by (simp add: key_of_def)
  have inv: "queue_inv (F - {a}) ?q"
    unfolding queue_inv_def
  proof (intro conjI)
    show "sorted (tq_timers ?q)" "distinct (map snd (tq_timers ?q))"
      using assms(1) fresh insort_distinct_snd [of "tq_timers q" ?e] by (auto simp: queue_inv_def sorted_insort)
    show "tq_active ?q = key_of (tq_heap ?q) ` set (tq_timers ?q)"
      using assms(1) k by (auto simp: queue_inv_def set_insort_key)
    show "\<forall>e \<in> set (tq_timers ?q). \<exists>t. tq_heap ?q (snd e) = Some t \<and> expiration t = fst e \<and> 0 < fst e"
      "dom (tq_heap ?q) = F - {a} \<union> snd ` set (tq_timers ?q)" "(F - {a}) \<inter> snd ` set (tq_timers ?q) = {}"
      using assms by (auto simp: queue_inv_def set_insort_key)
  qed (use assms(1) in \<open>auto simp: queue_inv_def\<close>)
  from queue_sizes [OF this] queue_sizes [OF assms(1)] new inv assms(3) show ?thesis
    by (simp add: insert_timer_def Let_def)
qed

lemma sorted_hd_le: "sorted (xs :: timer_entry list) \<Longrightarrow> x \<in> set xs \<Longrightarrow> fst (hd xs) \<le> fst x"
  by (cases xs) (auto simp: less_eq_prod_def)

text \<open>Outside the handler \<open>timerfd\<close> is set to a time that is not after the first entry.\<close>

definition armed :: "'cb TimerQueue \<Rightarrow> bool" where
  "armed q \<longleftrightarrow> tq_timers q = [] \<or> (\<exists>w. tq_timerfd q = Some w \<and> (\<forall>e \<in> set (tq_timers q). w \<le> fst e))"

lemma armed_insort:
  assumes "sorted (tq_timers q)" "armed q" "tq_timers q' = insort (when, a) (tq_timers q)"
    "tq_timerfd q' = (if tq_timers q = [] \<or> when < fst (hd (tq_timers q)) then Some when else tq_timerfd q)"
  shows "armed q'"
proof (cases "tq_timers q = [] \<or> when < fst (hd (tq_timers q))")
  case True
  have "when \<le> fst e" if "e \<in> set (tq_timers q)" for e
    using True sorted_hd_le [OF assms(1) that] that by auto
  then show ?thesis using True assms(3,4) by (simp add: armed_def set_insort_key)
next
  case False
  then obtain w where w: "tq_timerfd q = Some w" "\<forall>e \<in> set (tq_timers q). w \<le> fst e"
    using assms(2) by (auto simp: armed_def)
  then have "w \<le> fst (hd (tq_timers q))" "fst (hd (tq_timers q)) \<le> when" using False by auto
  then have "w \<le> when" by (rule order_trans)
  then show ?thesis using False assms(3,4) w by (simp add: armed_def set_insort_key)
qed

primrec call_ok :: "'cb timer_call \<Rightarrow> 'cb TimerQueue \<Rightarrow> bool" where
  "call_ok (Add a cb when rep d) q \<longleftrightarrow> tq_heap q a = None \<and> a < UINTPTR_MAX \<and> 0 < when \<and> 0 \<le> d"
| "call_ok (Cancel timerId) q \<longleftrightarrow> True"

primrec cancelled :: "'cb timer_call \<Rightarrow> active_timer set" where
  "cancelled (Add a cb when rep d) = {}"
| "cancelled (Cancel timerId) = {timerId}"

text \<open>No live timer has this sequence number, and none will get it.\<close>

definition gone :: "int \<Rightarrow> 'cb TimerQueue \<Rightarrow> bool" where
  "gone s q \<longleftrightarrow> s \<le> tq_created q \<and> (\<forall>a t. tq_heap q a = Some t \<longrightarrow> sequence t \<noteq> s)"

text \<open>What calls of \<open>addTimer\<close> and \<open>cancel\<close> leave alone while the timers at \<open>F\<close> are being run.\<close>

definition calls_frame :: "timer_addr set \<Rightarrow> active_timer set list \<Rightarrow> 'cb TimerQueue \<Rightarrow> 'cb TimerQueue \<Rightarrow> bool" where
  "calls_frame F ids q q' \<longleftrightarrow> (\<forall>a \<in> F. tq_heap q' a = tq_heap q a) \<and> tq_ran q' = tq_ran q \<and> tq_calling q' = tq_calling q \<and>
     (\<forall>s. gone s q \<longrightarrow> gone s q') \<and> (armed q \<longrightarrow> armed q') \<and>
     (\<forall>a t. tq_heap q a = Some t \<and> (a, sequence t) \<notin> \<Union> (set ids) \<longrightarrow> tq_heap q' a = Some t) \<and>
     (\<forall>a t. tq_heap q a = Some t \<and> (a, sequence t) \<in> \<Union> (set ids) \<longrightarrow> a \<in> F \<or> gone (sequence t) q') \<and>
     (tq_calling q \<longrightarrow> (\<forall>x. fst x \<in> F \<longrightarrow> (x \<in> tq_canceling q' \<longleftrightarrow> x \<in> tq_canceling q \<or> x \<in> \<Union> (set ids))))"

lemma gone_armed_simps [simp]:
  "gone s (q\<lparr>tq_ran := l\<rparr>) = gone s q" "armed (q\<lparr>tq_ran := l\<rparr>) = armed q"
  "gone s (q\<lparr>tq_calling := c\<rparr>) = gone s q" "gone s (q\<lparr>tq_canceling := ids\<rparr>) = gone s q"
  by (simp_all add: gone_def armed_def)

lemma calls_frameD:
  assumes "calls_frame F ids q q'"
  shows "a \<in> F \<Longrightarrow> tq_heap q' a = tq_heap q a" "tq_ran q' = tq_ran q" "tq_calling q' = tq_calling q" "gone s q \<Longrightarrow> gone s q'"
    "armed q \<Longrightarrow> armed q'" "tq_heap q a = Some t \<Longrightarrow> (a, sequence t) \<notin> \<Union> (set ids) \<Longrightarrow> tq_heap q' a = Some t"
    "tq_heap q a = Some t \<Longrightarrow> (a, sequence t) \<in> \<Union> (set ids) \<Longrightarrow> a \<in> F \<or> gone (sequence t) q'"
    "tq_calling q \<Longrightarrow> fst x \<in> F \<Longrightarrow> x \<in> tq_canceling q' \<longleftrightarrow> x \<in> tq_canceling q \<or> x \<in> \<Union> (set ids)"
  using assms unfolding calls_frame_def by blast+

lemma calls_frameI:
  assumes "\<And>a. a \<in> F \<Longrightarrow> tq_heap q' a = tq_heap q a" "tq_ran q' = tq_ran q" "tq_calling q' = tq_calling q" "\<And>s. gone s q \<Longrightarrow> gone s q'"
    "armed q \<Longrightarrow> armed q'" "\<And>a t. tq_heap q a = Some t \<Longrightarrow> (a, sequence t) \<notin> \<Union> (set ids) \<Longrightarrow> tq_heap q' a = Some t"
    "\<And>a t. tq_heap q a = Some t \<Longrightarrow> (a, sequence t) \<in> \<Union> (set ids) \<Longrightarrow> a \<in> F \<or> gone (sequence t) q'"
    "\<And>x. tq_calling q \<Longrightarrow> fst x \<in> F \<Longrightarrow> x \<in> tq_canceling q' \<longleftrightarrow> x \<in> tq_canceling q \<or> x \<in> \<Union> (set ids)"
  shows "calls_frame F ids q q'"
  unfolding calls_frame_def using assms by blast

lemma calls_frame_trans:
  assumes "calls_frame F ids1 q q1" "calls_frame F ids2 q1 q2"
  shows "calls_frame F (ids1 @ ids2) q q2"
proof (rule calls_frameI)
  note d1 = calls_frameD [OF assms(1)] and d2 = calls_frameD [OF assms(2)]
  show "a \<in> F \<Longrightarrow> tq_heap q2 a = tq_heap q a" "tq_ran q2 = tq_ran q" "tq_calling q2 = tq_calling q" "gone s q \<Longrightarrow> gone s q2"
    "armed q \<Longrightarrow> armed q2" for a s
    by (simp_all add: d1 d2)
  show "tq_heap q2 a = Some t" if "tq_heap q a = Some t" "(a, sequence t) \<notin> \<Union> (set (ids1 @ ids2))" for a t
    using d2(6) [OF d1(6) [OF that(1)]] that(2) by simp
  show "a \<in> F \<or> gone (sequence t) q2" if "tq_heap q a = Some t" "(a, sequence t) \<in> \<Union> (set (ids1 @ ids2))" for a t
  proof (cases "(a, sequence t) \<in> \<Union> (set ids1)")
    case True
    with d1(7) [OF that(1)] d2(4) show ?thesis by blast
  next
    case False
    with d2(7) [OF d1(6) [OF that(1)]] that(2) show ?thesis by simp
  qed
  show "x \<in> tq_canceling q2 \<longleftrightarrow> x \<in> tq_canceling q \<or> x \<in> \<Union> (set (ids1 @ ids2))" if "tq_calling q" "fst x \<in> F" for x
    using d1(3) d1(8) [OF that] d2(8) [of x] that by simp
qed

lemma live_active:
  assumes "queue_inv F q" "tq_heap q a = Some t" "a \<notin> F"
  shows "(a, sequence t) \<in> tq_active q" "(expiration t, a) \<in> set (tq_timers q)"
proof -
  have "a \<in> F \<union> snd ` set (tq_timers q)" using assms(1,2) unfolding queue_inv_def by blast
  then obtain e where e: "e \<in> set (tq_timers q)" "a = snd e" using assms(3) by auto
  then have "expiration t = fst e" "tq_active q = key_of (tq_heap q) ` set (tq_timers q)"
    using assms(1,2) by (auto simp: queue_inv_def)
  with e assms(2) show "(a, sequence t) \<in> tq_active q" "(expiration t, a) \<in> set (tq_timers q)"
    by (auto simp: key_of_def image_iff intro!: bexI [of _ e])
qed

lemma new_Timer_inv:
  assumes "queue_inv F q" "tq_heap q a = None" "a < UINTPTR_MAX" "0 \<le> d"
  shows "queue_inv (insert a F) (new_Timer a cb when rep d q)"
proof -
  let ?q = "new_Timer a cb when rep d q"
  have a: "a \<notin> snd ` set (tq_timers q)" using assms(1,2) by (auto simp: queue_inv_def)
  then have k: "key_of (tq_heap ?q) e = key_of (tq_heap q) e" if "e \<in> set (tq_timers q)" for e
    using that by (auto simp: key_of_def new_Timer_def Let_def)
  then have "key_of (tq_heap ?q) ` set (tq_timers q) = key_of (tq_heap q) ` set (tq_timers q)" by (rule image_cong [OF refl])
  then show ?thesis
    using assms a by (fastforce simp: queue_inv_def new_Timer_def Let_def)
qed

lemma addTimer_ok:
  assumes "queue_inv F q" "call_ok (Add a cb when rep d) q"
  shows "\<exists>q'. addTimer a cb when rep d q = Some q' \<and> queue_inv F q' \<and> calls_frame F [{}] q q' \<and>
    tq_timers q' = insort (when, a) (tq_timers q) \<and>
    tq_heap q' = (tq_heap q)(a \<mapsto> \<lparr>callback = cb, expiration = when, repeats = rep, delta = d, sequence = tq_created q + 1\<rparr>)"
proof -
  let ?q = "new_Timer a cb when rep d q"
  let ?t = "\<lparr>callback = cb, expiration = when, repeats = rep, delta = d, sequence = tq_created q + 1\<rparr>"
  have ok: "tq_heap q a = None" "a < UINTPTR_MAX" "0 < when" "0 \<le> d" using assms(2) by auto
  have F: "a \<notin> F" using assms(1) ok(1) by (auto simp: queue_inv_def)
  have t: "tq_heap ?q a = Some ?t" by (simp add: new_Timer_def Let_def)
  define q1 where "q1 = ?q\<lparr>tq_timers := insort (when, a) (tq_timers ?q), tq_active := insert (a, sequence ?t) (tq_active ?q)\<rparr>"
  from insert_ok [OF new_Timer_inv [OF assms(1) ok(1,2,4)] _ t] ok(3) F
  have ins: "insert_timer a ?q = Some (tq_timers ?q = [] \<or> when < fst (hd (tq_timers ?q)), q1)" "queue_inv F q1"
    by (simp_all add: q1_def)
  define q2 where "q2 = (if tq_timers q = [] \<or> when < fst (hd (tq_timers q)) then resetTimerfd when q1 else q1)"
  have heap1: "tq_heap q1 = (tq_heap q)(a \<mapsto> ?t)" "tq_timers q1 = insort (when, a) (tq_timers q)"
    by (simp_all add: q1_def new_Timer_def Let_def)
  have "addTimer a cb when rep d q = Some q2"
    using ins(1) heap1 by (simp add: addTimer_def addTimerInLoop_def q2_def) (simp add: new_Timer_def Let_def)
  moreover have "queue_inv F q2"
    using ins(2) by (simp add: q2_def resetTimerfd_def queue_inv_def)
  moreover have f: "tq_heap q2 = (tq_heap q)(a \<mapsto> ?t)" "tq_timers q2 = insort (when, a) (tq_timers q)"
    "tq_ran q2 = tq_ran q" "tq_calling q2 = tq_calling q" "tq_canceling q2 = tq_canceling q" "tq_created q2 = tq_created q + 1"
    "tq_timerfd q2 = (if tq_timers q = [] \<or> when < fst (hd (tq_timers q)) then Some when else tq_timerfd q)"
    by (simp_all add: q2_def q1_def resetTimerfd_def new_Timer_def Let_def)
  moreover have "armed q \<longrightarrow> armed q2"
    using armed_insort [OF _ _ f(2,7)] assms(1) by (simp add: queue_inv_def)
  moreover have "\<forall>s. gone s q \<longrightarrow> gone s q2" using f(1,6) by (auto simp: gone_def)
  ultimately show ?thesis using F ok(1) by (auto simp: calls_frame_def)
qed

lemma cancel_ok:
  assumes "queue_inv F q"
  shows "\<exists>q'. cancelInLoop timerId q = Some q' \<and> queue_inv F q' \<and> calls_frame F [{timerId}] q q' \<and>
    tq_active q' = tq_active q - {timerId} \<and> (timerId \<in> tq_active q \<longrightarrow> gone (snd timerId) q')"
proof (cases "timerId \<in> tq_active q")
  case True
  then obtain e where e: "e \<in> set (tq_timers q)" "key_of (tq_heap q) e = timerId"
    using assms by (auto simp: queue_inv_def)
  then obtain t where t: "tq_heap q (snd e) = Some t" "expiration t = fst e" using assms by (auto simp: queue_inv_def)
  have id: "fst timerId = snd e" "snd timerId = sequence t" "(expiration t, snd e) = e"
    using e(2) t by (auto simp: key_of_def)
  define q' where "q' = q\<lparr>tq_timers := remove1 e (tq_timers q), tq_heap := (tq_heap q)(snd e := None), tq_active := tq_active q - {timerId}\<rparr>"
  have d: "distinct (map snd (tq_timers q))" using assms by (simp add: queue_inv_def)
  then have set: "set (remove1 e (tq_timers q)) = set (tq_timers q) - {e}" by (simp add: distinct_map)
  have other: "snd e' \<noteq> snd e" if "e' \<in> set (tq_timers q) - {e}" for e'
    using d e(1) that by (auto simp: distinct_map inj_on_def)
  have addrs: "snd ` (set (tq_timers q) - {e}) = snd ` set (tq_timers q) - {snd e}"
    using inj_on_image_set_diff [of snd "set (tq_timers q)" "set (tq_timers q)" "{e}"] d e(1) by (simp add: distinct_map)
  have "key_of (tq_heap q') ` (set (tq_timers q) - {e}) = key_of (tq_heap q) ` (set (tq_timers q) - {e})"
    using other by (intro image_cong) (auto simp: key_of_def q'_def)
  also have "\<dots> = tq_active q - {timerId}"
    using inj_on_image_set_diff [OF key_inj [OF assms], of "set (tq_timers q)" "{e}"] e assms by (simp add: queue_inv_def)
  finally have active: "key_of (tq_heap q') ` (set (tq_timers q) - {e}) = tq_active q - {timerId}" .
  have "snd e \<notin> F" using assms e(1) by (auto simp: queue_inv_def)
  moreover have "queue_inv F q'"
    unfolding queue_inv_def
  proof (intro conjI)
    show "sorted (tq_timers q')" "distinct (map snd (tq_timers q'))"
      using assms by (auto simp: queue_inv_def q'_def sorted_remove1 distinct_map inj_on_def dest: notin_set_remove1)
    show "tq_active q' = key_of (tq_heap q') ` set (tq_timers q')"
      using active set by (simp add: q'_def)
    show "\<forall>e' \<in> set (tq_timers q'). \<exists>t. tq_heap q' (snd e') = Some t \<and> expiration t = fst e' \<and> 0 < fst e'"
      using assms set other by (auto simp: queue_inv_def q'_def)
    show "dom (tq_heap q') = F \<union> snd ` set (tq_timers q')" "F \<inter> snd ` set (tq_timers q') = {}"
      using assms addrs calculation by (auto simp: queue_inv_def q'_def set)
  qed (use assms in \<open>auto simp: queue_inv_def q'_def split: if_splits\<close>)
  moreover have "cancelInLoop timerId q = Some q'"
    using True t id e(1) queue_sizes [OF assms] queue_sizes [OF calculation(2)]
    by (simp add: cancelInLoop_def delete_timer_def Let_def q'_def)
  moreover have "armed q \<longrightarrow> armed q'" using set by (auto simp: armed_def q'_def)
  moreover have "gone (snd timerId) q'"
    using assms t id(2) by (fastforce simp: gone_def q'_def queue_inv_def)
  moreover have "calls_frame F [{timerId}] q q'"
  proof (rule calls_frameI)
    have n: "snd e \<notin> F" by fact
    show "tq_heap q' a = tq_heap q a" if "a \<in> F" for a using that n by (auto simp: q'_def)
    show "gone s q \<Longrightarrow> gone s q'" for s by (auto simp: gone_def q'_def)
    show "tq_heap q' a = Some u" if "tq_heap q a = Some u" "(a, sequence u) \<notin> \<Union> (set [{timerId}])" for a u
      using that t(1) id(1,2) by (auto simp: q'_def prod_eq_iff)
    show "a \<in> F \<or> gone (sequence u) q'" if "tq_heap q a = Some u" "(a, sequence u) \<in> \<Union> (set [{timerId}])" for a u
      using that calculation(5) by auto
    show "x \<in> tq_canceling q' \<longleftrightarrow> x \<in> tq_canceling q \<or> x \<in> \<Union> (set [{timerId}])" if "fst x \<in> F" for x
      using that n id(1) by (auto simp: q'_def)
  qed (use calculation in \<open>simp_all add: q'_def\<close>)
  moreover have "tq_active q' = tq_active q - {timerId}" by (simp add: q'_def)
  ultimately show ?thesis by blast
next
  case False
  with queue_sizes [OF assms] assms live_active(1) [OF assms] show ?thesis
    by (auto simp: cancelInLoop_def calls_frame_def queue_inv_def sizes_equal_def gone_def armed_def)
qed

lemma exec_call_ok:
  assumes "queue_inv F q" "call_ok c q"
  shows "\<exists>q'. exec_call c q = Some q' \<and> queue_inv F q' \<and> calls_frame F [cancelled c] q q'"
  using addTimer_ok [OF assms(1)] cancel_ok [OF assms(1)] assms(2) by (cases c) fastforce+

text \<open>The calls of one callback.\<close>

interpretation calls: traced_steps exec_call call_ok "queue_inv F" "\<lambda>c q. cancelled c" "calls_frame F" for F
proof
  show "\<exists>q'. exec_call c q = Some q' \<and> queue_inv F q'" if "queue_inv F q" "call_ok c q" for c and q :: "'a TimerQueue"
    using exec_call_ok [OF that] by blast
  show "calls_frame F (cancelled c # ids) q q2"
    if "queue_inv F q" "call_ok c q" "exec_call c q = Some q1" "queue_inv F q1" "calls_frame F ids q1 q2"
    for c ids and q q1 q2 :: "'a TimerQueue"
    using exec_call_ok [OF that(1,2)] that(3,5) calls_frame_trans [of F "[cancelled c]" q q1] by auto
qed (simp add: calls_frame_def)

lemma trace_cancelled: "run exec_call cs q = Some q' \<Longrightarrow> trace exec_call (\<lambda>c q. cancelled c) cs q = map cancelled cs"
  by (induction cs arbitrary: q) (auto split: option.splits)

lemma run_calls:
  assumes "queue_inv F q" "allowed exec_call call_ok cs q"
  shows "\<exists>q'. run exec_call cs q = Some q' \<and> queue_inv F q' \<and> calls_frame F (map cancelled cs) q q'"
proof -
  obtain q' where q': "run exec_call cs q = Some q'" "queue_inv F q'" using calls.run_safe [OF assms] by blast
  with calls.run_rel [OF assms q'(1)] trace_cancelled [OF q'(1)] show ?thesis by simp
qed


section \<open>Expiry\<close>

lemma erase_active_ok:
  assumes "\<And>e. e \<in> set es \<Longrightarrow> \<exists>t. tq_heap q (snd e) = Some t" "\<And>e. e \<in> set es \<Longrightarrow> key_of (tq_heap q) e \<in> tq_active q"
    "distinct (map snd es)"
  shows "erase_active es q = Some (q\<lparr>tq_active := tq_active q - key_of (tq_heap q) ` set es\<rparr>)"
  using assms
proof (induction es arbitrary: q)
  case (Cons e es)
  obtain t where t: "tq_heap q (snd e) = Some t" using Cons.prems(1) [of e] by auto
  then have k: "key_of (tq_heap q) e = (snd e, sequence t)" by (simp add: key_of_def)
  let ?q = "q\<lparr>tq_active := tq_active q - {(snd e, sequence t)}\<rparr>"
  have "key_of (tq_heap q) e' \<noteq> (snd e, sequence t)" if "e' \<in> set es" for e'
    using Cons.prems(3) that by (auto simp: key_of_def) (metis image_eqI)
  then have "erase_active es ?q = Some (?q\<lparr>tq_active := tq_active ?q - key_of (tq_heap ?q) ` set es\<rparr>)"
    using Cons.prems by (intro Cons.IH) auto
  moreover have "tq_active ?q - key_of (tq_heap ?q) ` set es = tq_active q - key_of (tq_heap q) ` set (e # es)"
    using k by (simp add: Diff_insert2 [symmetric])
  ultimately show ?case using t k Cons.prems(2) [of e] by simp
qed simp

text \<open>The sentry separates the entries up to the current time from the later ones.\<close>

lemma expired_filter:
  assumes "sorted ts" "\<And>e. e \<in> set ts \<Longrightarrow> snd e < UINTPTR_MAX"
  shows "takeWhile (\<lambda>e. e < (now, UINTPTR_MAX)) ts = filter (\<lambda>e. fst e \<le> now) ts \<and>
    dropWhile (\<lambda>e. e < (now, UINTPTR_MAX)) ts = filter (\<lambda>e. now < fst e) ts"
  using assms
proof (induction ts)
  case (Cons e ts)
  have lt: "e < (now, UINTPTR_MAX) \<longleftrightarrow> fst e \<le> now" using Cons.prems(2) [of e] by (auto simp: less_prod_def)
  have later: "now < fst e'" if "e' \<in> set ts" "now < fst e" for e'
    using Cons.prems(1) that by (auto simp: less_eq_prod_def)
  show ?case using Cons lt later by (auto simp: filter_empty_conv filter_id_conv not_le)
qed simp

lemma getExpired_ok:
  assumes "queue_inv {} q"
  shows "\<exists>q'. getExpired now q = Some (filter (\<lambda>e. fst e \<le> now) (tq_timers q), q') \<and>
    queue_inv (snd ` {e \<in> set (tq_timers q). fst e \<le> now}) q' \<and>
    q' = q\<lparr>tq_timers := filter (\<lambda>e. now < fst e) (tq_timers q), tq_active := key_of (tq_heap q) ` {e \<in> set (tq_timers q). now < fst e}\<rparr>"
proof -
  let ?ts = "tq_timers q"
  define es where "es = filter (\<lambda>e. fst e \<le> now) ?ts"
  define rest where "rest = filter (\<lambda>e. now < fst e) ?ts"
  define q' where "q' = q\<lparr>tq_timers := rest, tq_active := tq_active q - key_of (tq_heap q) ` set es\<rparr>"
  have d: "distinct (map snd ?ts)" and heap: "\<And>e. e \<in> set ?ts \<Longrightarrow> \<exists>t. tq_heap q (snd e) = Some t"
    and act: "tq_active q = key_of (tq_heap q) ` set ?ts" using assms by (auto simp: queue_inv_def)
  have split: "set ?ts - set es = set rest" "set es \<union> set rest = set ?ts" by (auto simp: es_def rest_def)
  then have active: "tq_active q - key_of (tq_heap q) ` set es = key_of (tq_heap q) ` set rest"
    using inj_on_image_set_diff [OF key_inj [OF assms], of "set ?ts" "set es"] act by (auto simp: es_def)
  have addrs: "snd ` set es \<inter> snd ` set rest = {}"
    using inj_on_image_Int [of snd "set ?ts" "set es" "set rest"] d by (auto simp: es_def rest_def distinct_map)
  have "takeWhile (\<lambda>e. e < (now, UINTPTR_MAX)) ?ts = es" "dropWhile (\<lambda>e. e < (now, UINTPTR_MAX)) ?ts = rest"
    using expired_filter [of ?ts now] assms by (auto simp: queue_inv_def es_def rest_def)
  moreover have "rest = [] \<or> now < fst (hd rest)"
    using hd_in_set [of rest] by (auto simp: rest_def)
  moreover have "erase_active es (q\<lparr>tq_timers := rest\<rparr>) = Some q'"
    using erase_active_ok [of es "q\<lparr>tq_timers := rest\<rparr>"] heap act d by (auto simp: es_def q'_def distinct_map_filter)
  moreover have inv: "queue_inv (snd ` set es) q'"
    unfolding queue_inv_def
  proof (intro conjI)
    show "sorted (tq_timers q')" "distinct (map snd (tq_timers q'))" "\<forall>e \<in> set (tq_timers q'). \<exists>t. tq_heap q' (snd e) = Some t \<and> expiration t = fst e \<and> 0 < fst e"
      using assms by (auto simp: queue_inv_def q'_def rest_def distinct_map_filter sorted_filter [where f = "\<lambda>x. x", simplified])
    show "tq_active q' = key_of (tq_heap q') ` set (tq_timers q')" using active by (simp add: q'_def)
    show "dom (tq_heap q') = snd ` set es \<union> snd ` set (tq_timers q')" "snd ` set es \<inter> snd ` set (tq_timers q') = {}"
      using assms split(2) addrs by (auto simp: queue_inv_def q'_def image_Un [symmetric])
  qed (use assms in \<open>auto simp: queue_inv_def q'_def\<close>)
  ultimately have "getExpired now q = Some (es, q')"
    using queue_sizes [OF assms] queue_sizes [OF inv] by (simp add: getExpired_def Let_def del: dropWhile_eq_Nil_conv)
  with inv show ?thesis
    unfolding q'_def active by (simp add: es_def rest_def)
qed

lemma queue_inv_fields:
  assumes "tq_heap q' = tq_heap q" "tq_timers q' = tq_timers q" "tq_active q' = tq_active q" "tq_created q' = tq_created q"
  shows "queue_inv F q' = queue_inv F q" "gone s q' = gone s q"
  using assms by (simp_all add: queue_inv_def gone_def)

text \<open>The environment of the callbacks: every allocation of a callback gives a free address.\<close>

fun calls_ok :: "timer_entry list \<Rightarrow> 'cb timer_call list list \<Rightarrow> 'cb TimerQueue \<Rightarrow> bool" where
  "calls_ok [] calls q = True"
| "calls_ok (e # es) calls q =
     (case tq_heap q (snd e) of
        None \<Rightarrow> True
      | Some t \<Rightarrow>
          (let cs = (case calls of [] \<Rightarrow> [] | c # cs \<Rightarrow> c); q1 = q\<lparr>tq_ran := tq_ran q @ [(sequence t, callback t)]\<rparr>
           in allowed exec_call call_ok cs q1 \<and>
              (case run exec_call cs q1 of None \<Rightarrow> True | Some q2 \<Rightarrow> calls_ok es (tl calls) q2)))"

definition ran_entry :: "'cb TimerQueue \<Rightarrow> timer_entry \<Rightarrow> int \<times> 'cb" where
  "ran_entry q e = (let t = the (tq_heap q (snd e)) in (sequence t, callback t))"

lemma run_expired_ok:
  assumes "queue_inv F q" "snd ` set es \<subseteq> F" "calls_ok es calls q" "length calls \<le> length es"
  shows "\<exists>q'. run_expired es calls q = Some q' \<and> queue_inv F q' \<and> tq_ran q' = tq_ran q @ map (ran_entry q) es \<and>
    calls_frame F (map cancelled (concat calls)) (q\<lparr>tq_ran := []\<rparr>) (q'\<lparr>tq_ran := []\<rparr>)"
  using assms
proof (induction es arbitrary: q calls)
  case Nil
  then show ?case by (simp add: calls_frame_def)
next
  case (Cons e es)
  let ?cs = "case calls of [] \<Rightarrow> [] | c # cs \<Rightarrow> c"
  have "snd e \<in> dom (tq_heap q)" using Cons.prems(1,2) by (auto simp: queue_inv_def)
  then obtain t where t: "tq_heap q (snd e) = Some t" by auto
  let ?q = "q\<lparr>tq_ran := tq_ran q @ [(sequence t, callback t)]\<rparr>"
  have "queue_inv F ?q" using Cons.prems(1) queue_inv_fields(1) [of ?q q] by simp
  moreover have "allowed exec_call call_ok ?cs ?q" using Cons.prems(3) t by (simp add: Let_def)
  ultimately obtain q1 where q1: "run exec_call ?cs ?q = Some q1" "queue_inv F q1" "calls_frame F (map cancelled ?cs) ?q q1"
    using run_calls by blast
  have ok: "calls_ok es (tl calls) q1" "length (tl calls) \<le> length es"
    using Cons.prems(3,4) t q1(1) by (auto simp: Let_def)
  from Cons.IH [OF q1(2) _ ok] Cons.prems(2) obtain q2 where q2: "run_expired es (tl calls) q1 = Some q2" "queue_inv F q2"
    "tq_ran q2 = tq_ran q1 @ map (ran_entry q1) es"
    "calls_frame F (map cancelled (concat (tl calls))) (q1\<lparr>tq_ran := []\<rparr>) (q2\<lparr>tq_ran := []\<rparr>)"
    by auto
  have same: "tq_heap q1 a = tq_heap q a" if "a \<in> F" for a using q1(3) that by (simp add: calls_frame_def)
  have "map (ran_entry q1) es = map (ran_entry q) es"
    using same Cons.prems(2) by (auto simp: ran_entry_def)
  moreover have "tq_ran q1 = tq_ran q @ [ran_entry q e]"
    using q1(3) t by (simp add: calls_frame_def ran_entry_def)
  moreover have "calls_frame F (map cancelled ?cs) (q\<lparr>tq_ran := []\<rparr>) (q1\<lparr>tq_ran := []\<rparr>)"
    using q1(3) by (simp add: calls_frame_def)
  from calls_frame_trans [OF this q2(4)] have
    "calls_frame F (map cancelled (concat calls)) (q\<lparr>tq_ran := []\<rparr>) (q2\<lparr>tq_ran := []\<rparr>)"
    by (cases calls) simp_all
  ultimately show ?case using q2 q1(1) t by simp
qed

text \<open>A timer whose callback was run is restarted or deleted.\<close>

lemma queue_inv_F_heap:
  assumes "queue_inv F q" "a \<in> F" "tq_heap q a = Some t" "sequence t' = sequence t" "0 \<le> delta t'"
  shows "queue_inv F (q\<lparr>tq_heap := (tq_heap q)(a \<mapsto> t')\<rparr>)" "queue_inv (F - {a}) (delete_timer a q)"
proof -
  have a: "a \<notin> snd ` set (tq_timers q)" "a \<in> dom (tq_heap q)" "\<And>e. e \<in> set (tq_timers q) \<Longrightarrow> snd e \<noteq> a"
    using assms(1,2) by (auto simp: queue_inv_def)
  then have key: "key_of ((tq_heap q)(a := x)) ` set (tq_timers q) = key_of (tq_heap q) ` set (tq_timers q)" for x
    by (intro image_cong) (auto simp: key_of_def)
  have orig: "\<exists>u'. tq_heap q b = Some u' \<and> sequence u' = sequence u" if "((tq_heap q)(a \<mapsto> t')) b = Some u" for b u
    using that assms(3,4) by (auto split: if_splits)
  have uniq: "tq_heap q b = Some u \<Longrightarrow> tq_heap q c = Some v \<Longrightarrow> sequence u = sequence v \<Longrightarrow> b = c" for b c u v
    using assms(1) unfolding queue_inv_def by blast
  show "queue_inv F (q\<lparr>tq_heap := (tq_heap q)(a \<mapsto> t')\<rparr>)"
    unfolding queue_inv_def
  proof (intro conjI)
    show "\<forall>b c u v. tq_heap (q\<lparr>tq_heap := (tq_heap q)(a \<mapsto> t')\<rparr>) b = Some u \<and>
        tq_heap (q\<lparr>tq_heap := (tq_heap q)(a \<mapsto> t')\<rparr>) c = Some v \<and> sequence u = sequence v \<longrightarrow> b = c"
      using orig uniq by simp metis
  qed (use assms a key in \<open>simp_all add: queue_inv_def insert_absorb\<close>)
  show "queue_inv (F - {a}) (delete_timer a q)"
    unfolding queue_inv_def
  proof (intro conjI)
    show "\<forall>b c u v. tq_heap (delete_timer a q) b = Some u \<and> tq_heap (delete_timer a q) c = Some v \<and> sequence u = sequence v \<longrightarrow> b = c"
      using uniq by (auto simp: delete_timer_def split: if_splits)
    show "dom (tq_heap (delete_timer a q)) = F - {a} \<union> snd ` set (tq_timers (delete_timer a q))"
      "(F - {a}) \<inter> snd ` set (tq_timers (delete_timer a q)) = {}"
      using assms(1) a by (auto simp: delete_timer_def queue_inv_def)
  qed (use assms a key in \<open>simp_all add: queue_inv_def delete_timer_def\<close>)
qed

definition after_run :: "int \<Rightarrow> active_timer set \<Rightarrow> timer_addr \<Rightarrow> 'cb timer \<Rightarrow> 'cb timer option" where
  "after_run now canceled a t = (if repeats t \<and> (a, sequence t) \<notin> canceled then Some (restart now t) else None)"

lemma restart_fields [simp]: "sequence (restart now t) = sequence t" "delta (restart now t) = delta t" "repeats (restart now t) = repeats t"
  by (simp_all add: restart_def)

lemma reset_entries_ok:
  assumes "queue_inv (snd ` set es) q" "distinct (map snd es)" "0 < now"
  shows "\<exists>q'. reset_entries es now q = Some q' \<and> queue_inv {} q' \<and> tq_ran q' = tq_ran q \<and> tq_created q' = tq_created q \<and>
    tq_calling q' = tq_calling q \<and>
    tq_heap q' = (\<lambda>a. if a \<in> snd ` set es then Option.bind (tq_heap q a) (after_run now (tq_canceling q) a) else tq_heap q a)"
  using assms
proof (induction es arbitrary: q)
  case (Cons e es)
  let ?a = "snd e" and ?F = "snd ` set (e # es)"
  have F: "?F - {?a} = snd ` set es" "?a \<in> ?F" using Cons.prems(2) by auto
  have "?a \<in> dom (tq_heap q)" using Cons.prems(1) by (auto simp: queue_inv_def)
  then obtain t where t: "tq_heap q ?a = Some t" by auto
  have d: "0 \<le> delta t" using Cons.prems(1) t by (simp add: queue_inv_def)
  have "\<exists>q1. reset_entries (e # es) now q = reset_entries es now q1 \<and> queue_inv (snd ` set es) q1 \<and>
    tq_heap q1 = (tq_heap q)(?a := after_run now (tq_canceling q) ?a t) \<and>
    tq_ran q1 = tq_ran q \<and> tq_created q1 = tq_created q \<and> tq_calling q1 = tq_calling q \<and> tq_canceling q1 = tq_canceling q"
  proof (cases "repeats t \<and> (?a, sequence t) \<notin> tq_canceling q")
    case True
    let ?q = "q\<lparr>tq_heap := (tq_heap q)(?a \<mapsto> restart now t)\<rparr>"
    have "queue_inv ?F ?q" by (rule queue_inv_F_heap(1) [OF Cons.prems(1) F(2) t]) (use d in simp_all)
    from insert_ok [OF this F(2), of "restart now t"] True Cons.prems(3) d
    obtain q1 where "insert_timer ?a ?q = Some (tq_timers ?q = [] \<or> expiration (restart now t) < fst (hd (tq_timers ?q)), q1)"
      "queue_inv (?F - {?a}) q1" "q1 = ?q\<lparr>tq_timers := insort (expiration (restart now t), ?a) (tq_timers ?q), tq_active := insert (?a, sequence (restart now t)) (tq_active ?q)\<rparr>"
      by (auto simp: restart_def)
    with True t F(1) show ?thesis by (intro exI [of _ q1]) (auto simp: after_run_def)
  next
    case False
    with queue_inv_F_heap(2) [OF Cons.prems(1) F(2) t refl d] t F(1) show ?thesis
      by (intro exI [of _ "delete_timer ?a q"]) (auto simp: after_run_def delete_timer_def)
  qed
  then obtain q1 where q1: "reset_entries (e # es) now q = reset_entries es now q1" "queue_inv (snd ` set es) q1"
    "tq_heap q1 = (tq_heap q)(?a := after_run now (tq_canceling q) ?a t)"
    "tq_ran q1 = tq_ran q" "tq_created q1 = tq_created q" "tq_calling q1 = tq_calling q" "tq_canceling q1 = tq_canceling q"
    by blast
  from Cons.IH [OF q1(2) _ Cons.prems(3)] Cons.prems(2) obtain q' where q': "reset_entries es now q1 = Some q'" "queue_inv {} q'"
    "tq_ran q' = tq_ran q1" "tq_created q' = tq_created q1" "tq_calling q' = tq_calling q1"
    "tq_heap q' = (\<lambda>a. if a \<in> snd ` set es then Option.bind (tq_heap q1 a) (after_run now (tq_canceling q1) a) else tq_heap q1 a)"
    by auto
  have "?a \<notin> snd ` set es" using Cons.prems(2) by simp
  then have "tq_heap q' = (\<lambda>a. if a \<in> ?F then Option.bind (tq_heap q a) (after_run now (tq_canceling q) a) else tq_heap q a)"
    unfolding q'(6) q1(3,7) using t by (auto simp: fun_eq_iff)
  with q' q1 show ?case by simp
qed (auto simp: fun_eq_iff)

lemma reset_ok:
  assumes "queue_inv (snd ` set es) q" "distinct (map snd es)" "0 < now"
  shows "\<exists>q'. reset es now q = Some q' \<and> queue_inv {} q' \<and> armed q' \<and> tq_ran q' = tq_ran q \<and> tq_created q' = tq_created q \<and>
    tq_calling q' = tq_calling q \<and>
    tq_heap q' = (\<lambda>a. if a \<in> snd ` set es then Option.bind (tq_heap q a) (after_run now (tq_canceling q) a) else tq_heap q a)"
proof -
  obtain q1 where q1: "reset_entries es now q = Some q1" "queue_inv {} q1" "tq_ran q1 = tq_ran q" "tq_created q1 = tq_created q"
    "tq_calling q1 = tq_calling q"
    "tq_heap q1 = (\<lambda>a. if a \<in> snd ` set es then Option.bind (tq_heap q a) (after_run now (tq_canceling q) a) else tq_heap q a)"
    using reset_entries_ok [OF assms] by blast
  show ?thesis
  proof (cases "tq_timers q1 = []")
    case True
    with q1 show ?thesis by (auto simp: reset_def armed_def)
  next
    case False
    let ?e = "hd (tq_timers q1)"
    have "?e \<in> set (tq_timers q1)" using False by simp
    then obtain t where t: "tq_heap q1 (snd ?e) = Some t" "expiration t = fst ?e" "0 < fst ?e"
      using q1(2) by (auto simp: queue_inv_def)
    let ?q = "resetTimerfd (fst ?e) q1"
    have "sorted (tq_timers q1)" using q1(2) by (simp add: queue_inv_def)
    then have "armed ?q" using sorted_hd_le by (auto simp: armed_def resetTimerfd_def)
    moreover have "queue_inv {} ?q" using q1(2) queue_inv_fields(1) [of ?q q1] by (simp add: resetTimerfd_def)
    moreover have "reset es now q = Some ?q" using q1(1) False t by (simp add: reset_def)
    ultimately show ?thesis using q1 by (auto simp: resetTimerfd_def)
  qed
qed


section \<open>Runs of the queue\<close>

datatype 'cb queue_op = Call "'cb timer_call" | Expire int "'cb timer_call list list"

primrec exec_queue :: "'cb queue_op \<Rightarrow> 'cb TimerQueue \<Rightarrow> 'cb TimerQueue option" where
  "exec_queue (Call c) q = exec_call c q"
| "exec_queue (Expire now calls) q = handleTimers now calls q"

definition expired_at :: "int \<Rightarrow> 'cb TimerQueue \<Rightarrow> timer_entry list" where
  "expired_at now q = filter (\<lambda>e. fst e \<le> now) (tq_timers q)"

text \<open>
  The environment: a clock after the epoch, fresh addresses, and calls of callbacks only for callbacks that are run.
\<close>

primrec queue_op_ok :: "'cb queue_op \<Rightarrow> 'cb TimerQueue \<Rightarrow> bool" where
  "queue_op_ok (Call c) q = call_ok c q"
| "queue_op_ok (Expire now calls) q =
     (0 < now \<and> length calls \<le> length (expired_at now q) \<and>
      (case getExpired now (q\<lparr>tq_timerfd := None\<rparr>) of
         None \<Rightarrow> True
       | Some (expired, q1) \<Rightarrow> calls_ok expired calls (q1\<lparr>tq_calling := True, tq_canceling := {}\<rparr>)))"

definition queue_safe :: "'cb TimerQueue \<Rightarrow> bool" where
  "queue_safe q \<longleftrightarrow> queue_inv {} q \<and> armed q \<and> \<not> tq_calling q"

lemma handleTimers_ok:
  assumes "queue_inv {} q" "queue_op_ok (Expire now calls) q"
  shows "\<exists>q'. handleTimers now calls q = Some q' \<and> queue_inv {} q' \<and> armed q' \<and> \<not> tq_calling q' \<and>
    tq_ran q' = tq_ran q @ map (ran_entry q) (expired_at now q) \<and> (\<forall>s. gone s q \<longrightarrow> gone s q') \<and>
    (\<forall>a t. tq_heap q a = Some t \<longrightarrow>
      (if expiration t \<le> now then tq_heap q' a = after_run now (\<Union> (set (map cancelled (concat calls)))) a t
       else if (a, sequence t) \<notin> \<Union> (set (map cancelled (concat calls))) then tq_heap q' a = Some t
       else gone (sequence t) q'))"
proof -
  define ids where "ids = map cancelled (concat calls)"
  let ?q0 = "q\<lparr>tq_timerfd := None\<rparr>"
  define es where "es = expired_at now q"
  let ?F = "snd ` set es"
  have inv0: "queue_inv {} ?q0" using assms(1) queue_inv_fields(1) [of ?q0 q] by simp
  have d: "distinct (map snd es)" using assms(1) by (simp add: es_def expired_at_def queue_inv_def distinct_map_filter)
  obtain q1 where q1: "getExpired now ?q0 = Some (es, q1)" "queue_inv ?F q1" "tq_heap q1 = tq_heap q" "tq_ran q1 = tq_ran q"
    "tq_created q1 = tq_created q"
    using getExpired_ok [OF inv0, of now] by (auto simp: es_def expired_at_def)
  let ?q1 = "q1\<lparr>tq_calling := True, tq_canceling := {}\<rparr>"
  have "queue_inv ?F ?q1" using q1(2) queue_inv_fields(1) [of ?q1 q1] by simp
  then obtain q2 where q2: "run_expired es calls ?q1 = Some q2" "queue_inv ?F q2" "tq_ran q2 = tq_ran ?q1 @ map (ran_entry ?q1) es"
    and fr: "calls_frame ?F ids (?q1\<lparr>tq_ran := []\<rparr>) (q2\<lparr>tq_ran := []\<rparr>)"
    using run_expired_ok [of ?F ?q1 es calls] assms(2) q1(1) by (auto simp: es_def ids_def)
  let ?q2 = "q2\<lparr>tq_calling := False\<rparr>"
  have "queue_inv ?F ?q2" using q2(2) queue_inv_fields(1) [of ?q2 q2] by simp
  then obtain q' where q': "reset es now ?q2 = Some q'" "queue_inv {} q'" "armed q'" "tq_ran q' = tq_ran q2" "tq_created q' = tq_created q2"
    "\<not> tq_calling q'"
    "tq_heap q' = (\<lambda>a. if a \<in> ?F then Option.bind (tq_heap q2 a) (after_run now (tq_canceling q2) a) else tq_heap q2 a)"
    using reset_ok [of es ?q2 now] d assms(2) by (auto cong: if_cong)
  have fr1: "tq_heap q2 a = tq_heap q a" "x \<in> tq_canceling q2 \<longleftrightarrow> x \<in> \<Union> (set ids)" if "a \<in> ?F" "fst x \<in> ?F" for a x
    using calls_frameD(1) [OF fr that(1)] calls_frameD(8) [OF fr, of x] that q1(3) by simp_all
  have fr2: "if (a, sequence t) \<notin> \<Union> (set ids) then tq_heap q2 a = Some t else a \<in> ?F \<or> gone (sequence t) q2" if "tq_heap q a = Some t" for a t
    using calls_frameD(6,7) [OF fr, of a t] that q1(3) by simp
  have g1: "gone s q2" if "gone s q" for s
    using calls_frameD(4) [OF fr, of s] that q1(3,5) by (simp add: gone_def)
  have g2: "gone s q'" if "gone s q2" for s
    using that unfolding gone_def q'(5,7) by (fastforce simp: after_run_def bind_eq_Some_conv split: if_splits)
  have F: "a \<in> ?F \<longleftrightarrow> expiration t \<le> now" if t: "tq_heap q a = Some t" for a t
  proof
    assume "a \<in> ?F"
    then obtain e where e: "e \<in> set (tq_timers q)" "fst e \<le> now" "snd e = a" by (auto simp: es_def expired_at_def)
    then have "expiration t = fst e" using assms(1) t by (auto simp: queue_inv_def)
    with e(2) show "expiration t \<le> now" by simp
  next
    assume "expiration t \<le> now"
    with live_active(2) [OF assms(1) t] show "a \<in> ?F" by (auto simp: es_def expired_at_def intro!: image_eqI [of _ _ "(expiration t, a)"])
  qed
  have "if expiration t \<le> now then tq_heap q' a = after_run now (\<Union> (set ids)) a t
       else if (a, sequence t) \<notin> \<Union> (set ids) then tq_heap q' a = Some t else gone (sequence t) q'" if "tq_heap q a = Some t" for a t
    using F [OF that] fr1 [of a "(a, sequence t)"] fr2 [OF that] g2 that by (auto simp: q'(7) after_run_def split: if_splits)
  moreover have "handleTimers now calls q = Some q'" using q1(1) q2(1) q'(1) by (simp add: handleTimers_def)
  moreover have "map (ran_entry ?q1) es = map (ran_entry q) es" using q1(3) by (simp add: ran_entry_def)
  then have "tq_ran q' = tq_ran q @ map (ran_entry q) (expired_at now q)" using q'(4) q2(3) q1(4) by (simp add: es_def)
  ultimately show ?thesis using q'(2,3,6) g1 g2 unfolding ids_def [symmetric] by blast
qed

lemma exec_queue_safe:
  assumes "queue_safe q" "queue_op_ok op q"
  shows "\<exists>q'. exec_queue op q = Some q' \<and> queue_safe q'"
proof (cases op)
  case (Call c)
  with exec_call_ok [of "{}" q c] assms show ?thesis by (auto simp: queue_safe_def calls_frame_def)
next
  case (Expire now calls)
  with handleTimers_ok [of q now calls] assms show ?thesis by (auto simp: queue_safe_def simp del: queue_op_ok.simps)
qed

text \<open>A timer that is gone does not run any more.\<close>

definition quiet :: "unit list \<Rightarrow> 'cb TimerQueue \<Rightarrow> 'cb TimerQueue \<Rightarrow> bool" where
  "quiet ls q q' \<longleftrightarrow> (\<forall>s. gone s q \<longrightarrow> gone s q' \<and> filter (\<lambda>r. fst r = s) (tq_ran q') = filter (\<lambda>r. fst r = s) (tq_ran q))"

lemma exec_queue_quiet:
  assumes "queue_safe q" "queue_op_ok op q" "exec_queue op q = Some q'" "gone s q"
  shows "gone s q' \<and> filter (\<lambda>r. fst r = s) (tq_ran q') = filter (\<lambda>r. fst r = s) (tq_ran q)"
proof (cases op)
  case (Call c)
  with exec_call_ok [of "{}" q c] assms show ?thesis by (auto simp: queue_safe_def calls_frame_def)
next
  case (Expire now calls)
  have inv: "queue_inv {} q" using assms(1) by (simp add: queue_safe_def)
  have "fst (ran_entry q e) \<noteq> s" if "e \<in> set (expired_at now q)" for e
  proof -
    have "e \<in> set (tq_timers q)" using that by (simp add: expired_at_def)
    then obtain t where "tq_heap q (snd e) = Some t" using inv unfolding queue_inv_def by blast
    with assms(4) show ?thesis by (simp add: ran_entry_def gone_def)
  qed
  then have "filter (\<lambda>r. fst r = s) (map (ran_entry q) (expired_at now q)) = []" by (auto simp: filter_empty_conv)
  with handleTimers_ok [OF inv, of now calls] Expire assms(2-4) show ?thesis by (auto simp del: queue_op_ok.simps filter_map)
qed

interpretation timer_queue: traced_steps exec_queue queue_op_ok queue_safe "\<lambda>op q. ()" quiet
proof
  show "\<exists>q'. exec_queue op q = Some q' \<and> queue_safe q'" if "queue_safe q" "queue_op_ok op q" for op and q :: "'a TimerQueue"
    by (rule exec_queue_safe [OF that])
  show "quiet (() # ls) q q2"
    if "queue_safe q" "queue_op_ok op q" "exec_queue op q = Some q1" "queue_safe q1" "quiet ls q1 q2"
    for op ls and q q1 q2 :: "'a TimerQueue"
    using exec_queue_quiet [OF that(1-3)] that(5) by (auto simp: quiet_def)
qed (simp add: quiet_def)

lemma TimerQueue_new_safe: "queue_safe TimerQueue_new"
  by (simp add: queue_safe_def queue_inv_def armed_def TimerQueue_new_def)


section \<open>Properties\<close>

text \<open>Two timers, the second of which repeats every 10 microseconds and is cancelled by the callback of the first.\<close>

definition sample_timers :: "string queue_op list" where
  "sample_timers = [Call (Add 16 ''once'' 5 False 0), Call (Add 32 ''often'' 3 True 10)]"

definition sample_queue :: "string TimerQueue" where
  "sample_queue = \<lparr>tq_heap = [16 \<mapsto> \<lparr>callback = ''once'', expiration = 5, repeats = False, delta = 0, sequence = 1\<rparr>,
       32 \<mapsto> \<lparr>callback = ''often'', expiration = 3, repeats = True, delta = 10, sequence = 2\<rparr>],
     tq_timers = [(3, 32), (5, 16)], tq_active = {(32, 2), (16, 1)}, tq_calling = False, tq_canceling = {},
     tq_created = 2, tq_timerfd = Some 3, tq_ran = []\<rparr>"

lemma sample_queue_runs:
  "allowed exec_queue queue_op_ok sample_timers TimerQueue_new" "run exec_queue sample_timers TimerQueue_new = Some sample_queue"
  by (simp_all add: sample_timers_def sample_queue_def TimerQueue_new_def addTimer_def addTimerInLoop_def insert_timer_def new_Timer_def
      sizes_equal_def resetTimerfd_def UINTPTR_MAX_def Let_def less_eq_prod_def)



text \<open>
  C21: expiry. \<open>handleRead\<close> runs exactly the timers whose time has come, in the order of their times. Of these, a repeating
  timer that no callback cancelled is set anew relative to the current time; every other one is deleted. A
  timer whose time has not come stays as it is unless a callback cancels it, and then it is deleted.
\<close>

theorem timer_expiry:
  assumes "allowed exec_queue queue_op_ok ops TimerQueue_new" "run exec_queue ops TimerQueue_new = Some q"
    and "queue_op_ok (Expire now calls) q" "ids = \<Union> (set (map cancelled (concat calls)))"
  shows "\<exists>q'. handleTimers now calls q = Some q' \<and>
    tq_ran q' = tq_ran q @ map (ran_entry q) (filter (\<lambda>e. fst e \<le> now) (tq_timers q)) \<and>
    (\<forall>a t. tq_heap q a = Some t \<longrightarrow>
      (if expiration t \<le> now
       then tq_heap q' a = (if repeats t \<and> (a, sequence t) \<notin> ids then Some (t\<lparr>expiration := now + delta t\<rparr>) else None)
       else if (a, sequence t) \<notin> ids then tq_heap q' a = Some t
       else \<forall>b u. tq_heap q' b = Some u \<longrightarrow> sequence u \<noteq> sequence t))"
proof -
  have "queue_inv {} q" using timer_queue.run_safe [OF TimerQueue_new_safe assms(1)] assms(2) by (auto simp: queue_safe_def)
  from handleTimers_ok [OF this assms(3)] obtain q' where q': "handleTimers now calls q = Some q'"
    "tq_ran q' = tq_ran q @ map (ran_entry q) (expired_at now q)"
    "\<And>a t. tq_heap q a = Some t \<Longrightarrow>
      if expiration t \<le> now then tq_heap q' a = after_run now ids a t
      else if (a, sequence t) \<notin> ids then tq_heap q' a = Some t else gone (sequence t) q'"
    unfolding assms(4) [symmetric] by blast
  have "if expiration t \<le> now
       then tq_heap q' a = (if repeats t \<and> (a, sequence t) \<notin> ids then Some (t\<lparr>expiration := now + delta t\<rparr>) else None)
       else if (a, sequence t) \<notin> ids then tq_heap q' a = Some t
       else \<forall>b u. tq_heap q' b = Some u \<longrightarrow> sequence u \<noteq> sequence t" if "tq_heap q a = Some t" for a t
    using q'(3) [OF that] by (auto simp: after_run_def restart_def gone_def split: if_splits)
  with q'(1,2) show ?thesis by (auto simp: expired_at_def)
qed

lemma sample_expiry: "queue_op_ok (Expire 4 [[Cancel (16, 1)]]) sample_queue"
  by (simp add: sample_queue_def getExpired_def expired_at_def sizes_equal_def UINTPTR_MAX_def less_prod_def Let_def split: option.split)

theorem timer_expiry_witness:
  "\<exists>q'. handleTimers 4 [[Cancel (16, 1)]] sample_queue = Some q' \<and> tq_ran q' = [(2, ''often'')] \<and>
     tq_heap q' 32 = Some \<lparr>callback = ''often'', expiration = 14, repeats = True, delta = 10, sequence = 2\<rparr>"
proof -
  let ?t = "\<lparr>callback = ''often'', expiration = 3, repeats = True, delta = 10, sequence = 2\<rparr>"
  obtain q' where q': "handleTimers 4 [[Cancel (16, 1)]] sample_queue = Some q'"
    "tq_ran q' = tq_ran sample_queue @ map (ran_entry sample_queue) (filter (\<lambda>e. fst e \<le> 4) (tq_timers sample_queue))"
    "\<forall>a t. tq_heap sample_queue a = Some t \<longrightarrow>
      (if expiration t \<le> 4
       then tq_heap q' a = (if repeats t \<and> (a, sequence t) \<notin> {(16, 1)} then Some (t\<lparr>expiration := 4 + delta t\<rparr>) else None)
       else if (a, sequence t) \<notin> {(16, 1)} then tq_heap q' a = Some t
       else \<forall>b u. tq_heap q' b = Some u \<longrightarrow> sequence u \<noteq> sequence t)"
    using timer_expiry [OF sample_queue_runs sample_expiry, of "{(16, 1)}"] by auto
  have "tq_heap sample_queue 32 = Some ?t" by (simp add: sample_queue_def)
  with q'(3) have "tq_heap q' 32 = Some (?t\<lparr>expiration := 14\<rparr>)" by fastforce
  moreover have "tq_ran q' = [(2, ''often'')]" unfolding q'(2) by (simp add: sample_queue_def ran_entry_def)
  ultimately show ?thesis using q'(1) by simp
qed

text \<open>
  C22: cancellation is final. A timer that is cancelled while it waits never runs again, whatever happens afterwards, even if
  its memory is reused for another timer.
\<close>

theorem timer_cancel_final:
  assumes "allowed exec_queue queue_op_ok ops TimerQueue_new" "run exec_queue ops TimerQueue_new = Some q"
    and "timerId \<in> tq_active q" "cancelInLoop timerId q = Some q1"
    and "allowed exec_queue queue_op_ok ops2 q1" "run exec_queue ops2 q1 = Some q2"
  shows "filter (\<lambda>r. fst r = snd timerId) (tq_ran q2) = filter (\<lambda>r. fst r = snd timerId) (tq_ran q)"
proof -
  have safe: "queue_safe q" using timer_queue.run_safe [OF TimerQueue_new_safe assms(1)] assms(2) by auto
  then have inv: "queue_inv {} q" by (simp add: queue_safe_def)
  have g: "gone (snd timerId) q1" "tq_ran q1 = tq_ran q"
    using cancel_ok [OF inv, of timerId] assms(3,4) by (auto simp: calls_frame_def)
  have "queue_safe q1" using exec_queue_safe [OF safe, of "Call (Cancel timerId)"] assms(4) by simp
  from timer_queue.run_rel [OF this assms(5,6)] g show ?thesis by (simp add: quiet_def)
qed

theorem timer_cancel_final_witness:
  "\<exists>q1 q2. cancelInLoop (32, 2) sample_queue = Some q1 \<and> run exec_queue [Expire 100 []] q1 = Some q2 \<and>
     filter (\<lambda>r. fst r = 2) (tq_ran q2) = []"
proof -
  define q1 :: "string TimerQueue" where
    "q1 = \<lparr>tq_heap = [16 \<mapsto> \<lparr>callback = ''once'', expiration = 5, repeats = False, delta = 0, sequence = 1\<rparr>],
     tq_timers = [(5, 16)], tq_active = {(16, 1)}, tq_calling = False, tq_canceling = {}, tq_created = 2, tq_timerfd = Some 3, tq_ran = []\<rparr>"
  have c: "cancelInLoop (32, 2) sample_queue = Some q1"
    by (simp add: cancelInLoop_def sample_queue_def q1_def sizes_equal_def delete_timer_def Let_def fun_eq_iff)
  moreover have "allowed exec_queue queue_op_ok [Expire 100 []] q1" and r: "\<exists>q2. run exec_queue [Expire 100 []] q1 = Some q2"
    by (simp_all add: q1_def handleTimers_def getExpired_def expired_at_def sizes_equal_def UINTPTR_MAX_def less_prod_def Let_def
        reset_def delete_timer_def split: option.split)
  moreover have "(32, 2) \<in> tq_active sample_queue" "tq_ran sample_queue = []" by (simp_all add: sample_queue_def)
  ultimately show ?thesis
    using timer_cancel_final [OF sample_queue_runs, of "(32, 2)" q1 "[Expire 100 []]"] by fastforce
qed


section \<open>Observations\<close>

text \<open>
  Cancelling a timer of the batch that is being run does not keep it from running: here the callback of the first timer
  cancels the second, whose callback is called all the same.
\<close>

lemma cancel_in_batch_still_runs:
  "\<exists>q'. handleTimers 9 [[Cancel (16, 1)]] sample_queue = Some q' \<and> tq_ran q' = [(2, ''often''), (1, ''once'')]"
proof -
  have "queue_op_ok (Expire 9 [[Cancel (16, 1)]]) sample_queue"
    by (simp add: sample_queue_def getExpired_def expired_at_def sizes_equal_def UINTPTR_MAX_def less_prod_def Let_def
        cancelInLoop_def split: option.split)
  moreover have "queue_inv {} sample_queue"
    using timer_queue.run_safe [OF TimerQueue_new_safe sample_queue_runs(1)] sample_queue_runs(2) by (auto simp: queue_safe_def)
  ultimately obtain q' where "handleTimers 9 [[Cancel (16, 1)]] sample_queue = Some q'"
    "tq_ran q' = tq_ran sample_queue @ map (ran_entry sample_queue) (expired_at 9 sample_queue)"
    using handleTimers_ok by blast
  then show ?thesis by (simp add: sample_queue_def expired_at_def ran_entry_def)
qed

end
