(* ===== verification/User_Online.thy ===== *)
theory User_Online
  imports Runs "HOL-Library.Monad_Syntax"
begin

text \<open>
  \<open>UserOnlineList\<close> (\<open>netserver/UserOnlineList.cc\<close>): the users that are online, their connections and the counters per
  user, per connection and per command. A \<open>std::map\<close> is the list of its pairs in the order of the keys. A
  connection object has an identity, so that the weak pointer to the connection with the smallest window is expired
  when the object has left the map, which alone owns it. \<open>None\<close> is an index out of range or an exception.
\<close>

section \<open>Maps and vectors\<close>

definition sm_insert :: "'k::linorder \<Rightarrow> 'v \<Rightarrow> ('k \<times> 'v) list \<Rightarrow> ('k \<times> 'v) list" where
  "sm_insert k v m = (if map_of m k = None then insort_key fst (k, v) m else m)"

definition sm_modify :: "'k \<Rightarrow> ('v \<Rightarrow> 'v) \<Rightarrow> ('k \<times> 'v) list \<Rightarrow> ('k \<times> 'v) list" where
  "sm_modify k f m = map (\<lambda>(k', v). (k', if k' = k then f v else v)) m"

definition sm_erase :: "'k \<Rightarrow> ('k \<times> 'v) list \<Rightarrow> ('k \<times> 'v) list" where
  "sm_erase k m = filter (\<lambda>p. fst p \<noteq> k) m"

definition vec_at :: "int \<Rightarrow> 'a list \<Rightarrow> 'a option" where
  "vec_at i xs = (if 0 \<le> i \<and> nat i < length xs then Some (xs ! nat i) else None)"

definition vec_modify :: "int \<Rightarrow> ('a \<Rightarrow> 'a) \<Rightarrow> 'a list \<Rightarrow> 'a list option" where
  "vec_modify i f xs = (if 0 \<le> i \<and> nat i < length xs then Some (xs[nat i := f (xs ! nat i)]) else None)"

definition vec_resize :: "int \<Rightarrow> 'a \<Rightarrow> 'a list option" where
  "vec_resize n x = (if n < 0 then None else Some (replicate (nat n) x))"


section \<open>Structures\<close>

datatype enumCntOpt = DEC_CNT | INT_CNT

primrec opt_val :: "enumCntOpt \<Rightarrow> u64" where
  "opt_val DEC_CNT = - 1"
| "opt_val INT_CNT = 1"

record tStatistics =
  waitsndcnt :: u64
  waitrspcnt :: u64
  slidewndcnt :: u64
  totalrecvcnt :: u64
  totalsendcnt :: u64
  last_active :: int

definition new_tStatistics :: "int \<Rightarrow> tStatistics" where
  "new_tStatistics now = \<lparr>waitsndcnt = 0, waitrspcnt = 0, slidewndcnt = 0, totalrecvcnt = 0, totalsendcnt = 0, last_active = now\<rparr>"

record 'c tConnInfo =
  conn_object :: nat
  conn_uuid :: u64
  conn_any :: 'c
  ipport :: string
  connStat :: tStatistics
  connCmdStat :: "tStatistics list"

record tMinSlideWndConn =
  minwnd :: u64
  pConn :: "nat option"

record ('c, 'i) tUserOnlineInfo =
  useruuid :: u64
  userinfo :: 'i
  userStat :: tStatistics
  userCmdStat :: "tStatistics list"
  minWndConn :: "tMinSlideWndConn list"
  mapConnInfo :: "(u64 \<times> 'c tConnInfo) list"

record ('c, 'i) UserOnlineList =
  maxcmdcnt :: int
  mapUserOnlineInfo :: "(u64 \<times> ('c, 'i) tUserOnlineInfo) list"
  objects :: nat

definition UserOnlineList_new :: "int \<Rightarrow> ('c, 'i) UserOnlineList" where
  "UserOnlineList_new n = \<lparr>maxcmdcnt = n, mapUserOnlineInfo = [], objects = 0\<rparr>"

definition CHECK_CMD_VALUE_INVALID :: "int \<Rightarrow> int \<Rightarrow> int" where
  "CHECK_CMD_VALUE_INVALID cmd n = (if cmd < 0 \<or> n \<le> cmd then 0 else cmd)"

definition find_user :: "u64 \<Rightarrow> ('c, 'i) UserOnlineList \<Rightarrow> ('c, 'i) tUserOnlineInfo option" where
  "find_user u l = map_of (mapUserOnlineInfo l) u"

definition set_user :: "u64 \<Rightarrow> ('c, 'i) tUserOnlineInfo \<Rightarrow> ('c, 'i) UserOnlineList \<Rightarrow> ('c, 'i) UserOnlineList" where
  "set_user u info l = l\<lparr>mapUserOnlineInfo := sm_modify u (\<lambda>_. info) (mapUserOnlineInfo l)\<rparr>"

text \<open>\<open>weak_ptr::lock\<close>: the object, if the map still owns it.\<close>

definition lock_conn :: "nat option \<Rightarrow> (u64 \<times> 'c tConnInfo) list \<Rightarrow> 'c tConnInfo option" where
  "lock_conn w m = (case w of None \<Rightarrow> None | Some i \<Rightarrow> find (\<lambda>c. conn_object c = i) (map snd m))"


section \<open>Joining and leaving\<close>

definition new_tConnInfo :: "nat \<Rightarrow> int \<Rightarrow> u64 \<Rightarrow> 'c \<Rightarrow> string \<Rightarrow> int \<Rightarrow> int \<Rightarrow> 'c tConnInfo option" where
  "new_tConnInfo object n c conn ip tNow tStat = do {
     stats \<leftarrow> vec_resize n (new_tStatistics tStat);
     Some \<lparr>conn_object = object, conn_uuid = c, conn_any = conn, ipport = ip,
       connStat = (new_tStatistics tStat)\<lparr>last_active := tNow\<rparr>, connCmdStat = stats\<rparr> }"

text \<open>\<open>tNow\<close> is the time read first, \<open>tStat\<close> the time the constructor of the statistics reads.\<close>

definition AddToOnlineList :: "u64 \<Rightarrow> 'i \<Rightarrow> u64 \<Rightarrow> 'c \<Rightarrow> string \<Rightarrow> int \<Rightarrow> int \<Rightarrow> ('c, 'i) UserOnlineList \<Rightarrow>
    (int \<times> ('c, 'i) UserOnlineList) option" where
  "AddToOnlineList u ui c conn ip tNow tStat l =
     (case find_user u l of
        Some info0 \<Rightarrow>
          (let info = info0\<lparr>useruuid := u, userinfo := ui, userStat := (userStat info0)\<lparr>last_active := tNow\<rparr>\<rparr> in
           case map_of (mapConnInfo info) c of
             Some ci \<Rightarrow>
               (let ci1 = ci\<lparr>conn_uuid := c, conn_any := conn, connStat := (connStat ci)\<lparr>last_active := tNow\<rparr>\<rparr>
                in Some (0, set_user u (info\<lparr>mapConnInfo := sm_modify c (\<lambda>_. ci1) (mapConnInfo info)\<rparr>) l))
           | None \<Rightarrow> do {
               ci \<leftarrow> new_tConnInfo (objects l) (maxcmdcnt l) c conn ip tNow tStat;
               Some (0, (set_user u (info\<lparr>mapConnInfo := sm_insert c ci (mapConnInfo info)\<rparr>) l)\<lparr>objects := objects l + 1\<rparr>) })
      | None \<Rightarrow> do {
          wnds \<leftarrow> vec_resize (maxcmdcnt l) \<lparr>minwnd = 0, pConn = None\<rparr>;
          stats \<leftarrow> vec_resize (maxcmdcnt l) (new_tStatistics tStat);
          ci \<leftarrow> new_tConnInfo (objects l) (maxcmdcnt l) c conn ip tNow tStat;
          let info = \<lparr>useruuid = u, userinfo = ui, userStat = (new_tStatistics tStat)\<lparr>last_active := tNow\<rparr>, userCmdStat = stats,
            minWndConn = wnds, mapConnInfo = sm_insert c ci []\<rparr>;
          Some (0, l\<lparr>mapUserOnlineInfo := sm_insert u info (mapUserOnlineInfo l), objects := objects l + 1\<rparr>) })"

definition DelFromOnlineList :: "u64 \<Rightarrow> u64 \<Rightarrow> ('c, 'i) UserOnlineList \<Rightarrow> int \<times> ('c, 'i) UserOnlineList" where
  "DelFromOnlineList u c l =
     (case find_user u l of
        Some info \<Rightarrow> (0, set_user u (info\<lparr>mapConnInfo := sm_erase c (mapConnInfo info)\<rparr>) l)
      | None \<Rightarrow> (0, l))"

text \<open>\<open>GetBestConn\<close>: the return value, and the values of the output parameters when they are set.\<close>

definition GetBestConn :: "u64 \<Rightarrow> int \<Rightarrow> ('c, 'i) UserOnlineList \<Rightarrow> (int \<times> (u64 \<times> 'c) option \<times> ('c, 'i) UserOnlineList) option" where
  "GetBestConn u cmd0 l =
     (let cmd = CHECK_CMD_VALUE_INVALID cmd0 (maxcmdcnt l) in
      case find_user u l of
        None \<Rightarrow> Some (1, None, l)
      | Some info \<Rightarrow>
          (case mapConnInfo info of
             [] \<Rightarrow> Some (1, None, l)
           | (k, ci) # rest \<Rightarrow> do {
               w \<leftarrow> vec_at cmd (minWndConn info);
               case lock_conn (pConn w) (mapConnInfo info) of
                 None \<Rightarrow> do {
                   s \<leftarrow> vec_at cmd (connCmdStat ci);
                   wnds \<leftarrow> vec_modify cmd (\<lambda>w. w\<lparr>minwnd := slidewndcnt s, pConn := Some (conn_object ci)\<rparr>) (minWndConn info);
                   Some (0, Some (conn_uuid ci, conn_any ci), set_user u (info\<lparr>minWndConn := wnds\<rparr>) l) }
               | Some ci1 \<Rightarrow> Some (0, Some (conn_uuid ci1, conn_any ci1), l) }))"

definition GetUserOnlineConnCnt :: "u64 \<Rightarrow> ('c, 'i) UserOnlineList \<Rightarrow> nat" where
  "GetUserOnlineConnCnt u l = (case find_user u l of None \<Rightarrow> 0 | Some info \<Rightarrow> length (mapConnInfo info))"


section \<open>Counters\<close>

text \<open>The part that the update functions share: the statistics of the user and of the connection, in total and per command.\<close>

definition update_conn :: "(tStatistics \<Rightarrow> tStatistics) \<Rightarrow> int \<Rightarrow> 'c tConnInfo \<Rightarrow> 'c tConnInfo option" where
  "update_conn f cmd ci = do {
     stats \<leftarrow> vec_modify cmd f (connCmdStat ci);
     Some (ci\<lparr>connStat := f (connStat ci), connCmdStat := stats\<rparr>) }"

definition update_user :: "(tStatistics \<Rightarrow> tStatistics) \<Rightarrow> u64 \<Rightarrow> int \<Rightarrow> ('c, 'i) tUserOnlineInfo \<Rightarrow> ('c, 'i) tUserOnlineInfo option" where
  "update_user f c cmd info = do {
     stats \<leftarrow> vec_modify cmd f (userCmdStat info);
     let info1 = info\<lparr>userStat := f (userStat info), userCmdStat := stats\<rparr>;
     case map_of (mapConnInfo info1) c of
       None \<Rightarrow> Some info1
     | Some ci \<Rightarrow> do {
         ci1 \<leftarrow> update_conn f cmd ci;
         Some (info1\<lparr>mapConnInfo := sm_modify c (\<lambda>_. ci1) (mapConnInfo info1)\<rparr>) } }"

definition update_stats :: "(tStatistics \<Rightarrow> tStatistics) \<Rightarrow> u64 \<Rightarrow> u64 \<Rightarrow> int \<Rightarrow> ('c, 'i) UserOnlineList \<Rightarrow> ('c, 'i) UserOnlineList option" where
  "update_stats f u c cmd0 l =
     (let cmd = CHECK_CMD_VALUE_INVALID cmd0 (maxcmdcnt l) in
      case find_user u l of
        None \<Rightarrow> Some l
      | Some info \<Rightarrow> do { info1 \<leftarrow> update_user f c cmd info; Some (set_user u info1 l) })"

definition UpdateTotalRecvCnt :: "int \<Rightarrow> u64 \<Rightarrow> u64 \<Rightarrow> int \<Rightarrow> ('c, 'i) UserOnlineList \<Rightarrow> ('c, 'i) UserOnlineList option" where
  "UpdateTotalRecvCnt tNow = update_stats (\<lambda>s. s\<lparr>totalrecvcnt := totalrecvcnt s + 1, last_active := tNow\<rparr>)"

definition UpdateTotalSendCnt :: "u64 \<Rightarrow> u64 \<Rightarrow> int \<Rightarrow> ('c, 'i) UserOnlineList \<Rightarrow> ('c, 'i) UserOnlineList option" where
  "UpdateTotalSendCnt = update_stats (\<lambda>s. s\<lparr>totalsendcnt := totalsendcnt s + 1\<rparr>)"

definition UpdateWaitSndCnt :: "enumCntOpt \<Rightarrow> u64 \<Rightarrow> u64 \<Rightarrow> int \<Rightarrow> ('c, 'i) UserOnlineList \<Rightarrow> ('c, 'i) UserOnlineList option" where
  "UpdateWaitSndCnt opt = update_stats (\<lambda>s. s\<lparr>waitsndcnt := waitsndcnt s + opt_val opt\<rparr>)"

definition UpdateWaitRspCnt :: "enumCntOpt \<Rightarrow> u64 \<Rightarrow> u64 \<Rightarrow> int \<Rightarrow> ('c, 'i) UserOnlineList \<Rightarrow> ('c, 'i) UserOnlineList option" where
  "UpdateWaitRspCnt opt = update_stats (\<lambda>s. s\<lparr>waitrspcnt := waitrspcnt s + opt_val opt\<rparr>)"

text \<open>\<open>UpdateSlideWndCnt\<close> also remembers the connection if its window is now smaller than the smallest so far.\<close>

definition note_min_window :: "u64 \<Rightarrow> int \<Rightarrow> ('c, 'i) tUserOnlineInfo \<Rightarrow> ('c, 'i) tUserOnlineInfo option" where
  "note_min_window c cmd info =
     (case map_of (mapConnInfo info) c of
        None \<Rightarrow> Some info
      | Some ci \<Rightarrow> do {
          s \<leftarrow> vec_at cmd (connCmdStat ci);
          w \<leftarrow> vec_at cmd (minWndConn info);
          if slidewndcnt s < minwnd w then do {
            wnds \<leftarrow> vec_modify cmd (\<lambda>w. w\<lparr>minwnd := slidewndcnt s, pConn := Some (conn_object ci)\<rparr>) (minWndConn info);
            Some (info\<lparr>minWndConn := wnds\<rparr>) }
          else Some info })"

definition UpdateSlideWndCnt :: "enumCntOpt \<Rightarrow> u64 \<Rightarrow> u64 \<Rightarrow> int \<Rightarrow> ('c, 'i) UserOnlineList \<Rightarrow> ('c, 'i) UserOnlineList option" where
  "UpdateSlideWndCnt opt u c cmd0 l =
     (let cmd = CHECK_CMD_VALUE_INVALID cmd0 (maxcmdcnt l) in
      case find_user u l of
        None \<Rightarrow> Some l
      | Some info \<Rightarrow> do {
          info1 \<leftarrow> update_user (\<lambda>s. s\<lparr>slidewndcnt := slidewndcnt s + opt_val opt\<rparr>) c cmd info;
          info2 \<leftarrow> note_min_window c cmd info1;
          Some (set_user u info2 l) })"

text \<open>The part that the query functions share; the test for all commands comes after the normalisation.\<close>

definition get_stats :: "(tStatistics \<Rightarrow> u64) \<Rightarrow> u64 \<Rightarrow> u64 \<Rightarrow> int \<Rightarrow> ('c, 'i) UserOnlineList \<Rightarrow> u64 option" where
  "get_stats sel u c cmd0 l =
     (let cmd = CHECK_CMD_VALUE_INVALID cmd0 (maxcmdcnt l) in
      case find_user u l of
        None \<Rightarrow> Some 0
      | Some info \<Rightarrow>
          if c = 0 then (if maxcmdcnt l = cmd then Some (sel (userStat info)) else map_option sel (vec_at cmd (userCmdStat info)))
          else (case map_of (mapConnInfo info) c of
                  None \<Rightarrow> Some 0
                | Some ci \<Rightarrow> if maxcmdcnt l = cmd then Some (sel (connStat ci)) else map_option sel (vec_at cmd (connCmdStat ci))))"

definition GetTotalRecvCnt :: "u64 \<Rightarrow> u64 \<Rightarrow> int \<Rightarrow> ('c, 'i) UserOnlineList \<Rightarrow> u64 option" where
  "GetTotalRecvCnt = get_stats totalrecvcnt"

definition GetTotalSendCnt :: "u64 \<Rightarrow> u64 \<Rightarrow> int \<Rightarrow> ('c, 'i) UserOnlineList \<Rightarrow> u64 option" where
  "GetTotalSendCnt = get_stats totalsendcnt"

definition GetWaitSndCnt :: "u64 \<Rightarrow> u64 \<Rightarrow> int \<Rightarrow> ('c, 'i) UserOnlineList \<Rightarrow> u64 option" where
  "GetWaitSndCnt = get_stats waitsndcnt"

definition GetWaitRspCnt :: "u64 \<Rightarrow> u64 \<Rightarrow> int \<Rightarrow> ('c, 'i) UserOnlineList \<Rightarrow> u64 option" where
  "GetWaitRspCnt = get_stats waitrspcnt"

definition GetSlideWndCnt :: "u64 \<Rightarrow> u64 \<Rightarrow> int \<Rightarrow> ('c, 'i) UserOnlineList \<Rightarrow> u64 option" where
  "GetSlideWndCnt = get_stats slidewndcnt"


section \<open>Lemmas on maps and vectors\<close>

lemma sm_modify_get [simp]: "map_of (sm_modify k f m) x = (if x = k then map_option f (map_of m x) else map_of m x)"
  by (induction m) (auto simp: sm_modify_def)

lemma sm_modify_keys [simp]: "map fst (sm_modify k f m) = map fst m"
  by (induction m) (auto simp: sm_modify_def)

lemma map_of_insort: "map_of m k = None \<Longrightarrow> map_of (insort_key fst (k, v) m) = (map_of m)(k \<mapsto> v)"
  by (induction m) (auto split: if_splits)

lemma sm_insert_get [simp]: "map_of (sm_insert k v m) = (if map_of m k = None then (map_of m)(k \<mapsto> v) else map_of m)"
  by (simp add: sm_insert_def map_of_insort)

lemma sm_erase_get [simp]: "map_of (sm_erase k m) x = (if x = k then None else map_of m x)"
  by (induction m) (auto simp: sm_erase_def)

abbreviation keys_sorted :: "('k::linorder \<times> 'v) list \<Rightarrow> bool" where
  "keys_sorted m \<equiv> sorted_wrt (<) (map fst m)"

lemma sm_insert_sorted: "keys_sorted m \<Longrightarrow> keys_sorted (sm_insert k v m)"
proof -
  assume m: "keys_sorted m"
  have "keys_sorted (insort_key fst (k, v) m)" if "map_of m k = None"
    using m that
  proof (induction m)
    case (Cons p m)
    then show ?case by (cases p) (auto simp: set_insort_key split: if_splits)
  qed simp
  with m show ?thesis by (simp add: sm_insert_def)
qed

lemma sm_erase_sorted: "keys_sorted m \<Longrightarrow> keys_sorted (sm_erase k m)"
  by (induction m) (auto simp: sm_erase_def)

lemma vec_ok:
  assumes "0 \<le> i" "nat i < length xs"
  shows "vec_at i xs = Some (xs ! nat i)" "vec_modify i f xs = Some (xs[nat i := f (xs ! nat i)])"
  using assms by (simp_all add: vec_at_def vec_modify_def)

lemma CHECK_range: "0 < n \<Longrightarrow> 0 \<le> CHECK_CMD_VALUE_INVALID cmd n \<and> CHECK_CMD_VALUE_INVALID cmd n < n"
  by (simp add: CHECK_CMD_VALUE_INVALID_def)


section \<open>The invariant\<close>

datatype counter = Wait_snd | Wait_rsp | Slide_wnd | Total_recv | Total_send

primrec count_of :: "counter \<Rightarrow> tStatistics \<Rightarrow> u64" where
  "count_of Wait_snd = waitsndcnt"
| "count_of Wait_rsp = waitrspcnt"
| "count_of Slide_wnd = slidewndcnt"
| "count_of Total_recv = totalrecvcnt"
| "count_of Total_send = totalsendcnt"

text \<open>The total of a counter is the sum of the counters per command.\<close>

definition balanced :: "tStatistics \<Rightarrow> tStatistics list \<Rightarrow> bool" where
  "balanced s ss \<longleftrightarrow> (\<forall>k. count_of k s = sum_list (map (count_of k) ss))"

definition conn_ok :: "int \<Rightarrow> nat \<Rightarrow> u64 \<Rightarrow> 'c tConnInfo \<Rightarrow> bool" where
  "conn_ok n objs c ci \<longleftrightarrow> conn_uuid ci = c \<and> length (connCmdStat ci) = nat n \<and> balanced (connStat ci) (connCmdStat ci) \<and>
     conn_object ci < objs"

definition info_ok :: "int \<Rightarrow> nat \<Rightarrow> u64 \<Rightarrow> ('c, 'i) tUserOnlineInfo \<Rightarrow> bool" where
  "info_ok n objs u info \<longleftrightarrow> useruuid info = u \<and> length (userCmdStat info) = nat n \<and> length (minWndConn info) = nat n \<and>
     balanced (userStat info) (userCmdStat info) \<and> keys_sorted (mapConnInfo info) \<and>
     (\<forall>c ci. map_of (mapConnInfo info) c = Some ci \<longrightarrow> conn_ok n objs c ci)"

definition list_ok :: "('c, 'i) UserOnlineList \<Rightarrow> bool" where
  "list_ok l \<longleftrightarrow> 0 < maxcmdcnt l \<and> keys_sorted (mapUserOnlineInfo l) \<and>
     (\<forall>u info. find_user u l = Some info \<longrightarrow> info_ok (maxcmdcnt l) (objects l) u info)"

lemma find_set_user:
  "find_user v (set_user u info l) = (if v = u then map_option (\<lambda>_. info) (find_user u l) else find_user v l)"
  by (simp add: find_user_def set_user_def)

lemma set_user_fields [simp]: "maxcmdcnt (set_user u info l) = maxcmdcnt l" "objects (set_user u info l) = objects l"
  by (simp_all add: set_user_def)

lemma set_user_ok:
  assumes "list_ok l" "info_ok (maxcmdcnt l) (objects l) u info"
  shows "list_ok (set_user u info l)"
  using assms by (auto simp: list_ok_def find_set_user) (simp add: set_user_def)

lemma info_ok_mono: "info_ok n objs u info \<Longrightarrow> objs \<le> objs' \<Longrightarrow> info_ok n objs' u info"
  by (fastforce simp: info_ok_def conn_ok_def)

lemma balanced_new: "balanced (new_tStatistics t\<lparr>last_active := t'\<rparr>) (replicate n (new_tStatistics t''))"
proof -
  have "count_of k (new_tStatistics t\<lparr>last_active := t'\<rparr>) = 0" "count_of k (new_tStatistics t'') = 0" for k
    by (cases k; simp add: new_tStatistics_def)+
  then show ?thesis by (simp add: balanced_def sum_list_replicate)
qed

lemma balanced_active [simp]: "balanced (s\<lparr>last_active := t\<rparr>) ss = balanced s ss"
proof -
  have "count_of k (s\<lparr>last_active := t\<rparr>) = count_of k s" for k by (cases k) simp_all
  then show ?thesis by (simp add: balanced_def)
qed

text \<open>Functions that add to one counter.\<close>

definition adds :: "counter \<Rightarrow> u64 \<Rightarrow> (tStatistics \<Rightarrow> tStatistics) \<Rightarrow> bool" where
  "adds k d f \<longleftrightarrow> (\<forall>s j. count_of j (f s) = count_of j s + (if j = k then d else 0))"

lemma sum_list_modify:
  fixes g :: "'a \<Rightarrow> u64"
  shows "i < length xs \<Longrightarrow> g (f (xs ! i)) = g (xs ! i) + d \<Longrightarrow> sum_list (map g (xs[i := f (xs ! i)])) = sum_list (map g xs) + d"
  by (induction xs arbitrary: i) (auto split: nat.split)

lemma balanced_adds:
  assumes "balanced s ss" "adds k d f" "i < length ss"
  shows "balanced (f s) (ss[i := f (ss ! i)])"
  using assms sum_list_modify [of i ss _ f] by (auto simp: balanced_def adds_def)

lemma update_conn_ok:
  assumes "conn_ok n objs c ci" "0 \<le> cmd" "cmd < n" "adds k d f"
  shows "\<exists>ci'. update_conn f cmd ci = Some ci' \<and> conn_ok n objs c ci' \<and> conn_object ci' = conn_object ci \<and> conn_any ci' = conn_any ci \<and>
    connCmdStat ci' = (connCmdStat ci)[nat cmd := f (connCmdStat ci ! nat cmd)]"
  using assms balanced_adds [of "connStat ci" "connCmdStat ci" k d f "nat cmd"]
  by (auto simp: update_conn_def conn_ok_def vec_ok nat_less_iff)

lemma update_user_ok:
  assumes "info_ok n objs u info" "0 \<le> cmd" "cmd < n" "adds k d f"
  shows "\<exists>info'. update_user f c cmd info = Some info' \<and> info_ok n objs u info' \<and> minWndConn info' = minWndConn info \<and>
    userCmdStat info' = (userCmdStat info)[nat cmd := f (userCmdStat info ! nat cmd)] \<and>
    (\<forall>c'. map_option (\<lambda>ci. (conn_object ci, conn_any ci, connCmdStat ci)) (map_of (mapConnInfo info') c') =
      map_option (\<lambda>ci. (conn_object ci, conn_any ci,
        if c' = c then (connCmdStat ci)[nat cmd := f (connCmdStat ci ! nat cmd)] else connCmdStat ci)) (map_of (mapConnInfo info) c'))"
proof -
  have i: "nat cmd < length (userCmdStat info)" using assms(1-3) by (simp add: info_ok_def nat_less_iff)
  let ?info1 = "info\<lparr>userStat := f (userStat info), userCmdStat := (userCmdStat info)[nat cmd := f (userCmdStat info ! nat cmd)]\<rparr>"
  have 1: "info_ok n objs u ?info1"
    using assms(1,4) balanced_adds [OF _ assms(4) i, of "userStat info"] by (simp add: info_ok_def)
  show ?thesis
  proof (cases "map_of (mapConnInfo info) c")
    case None
    with 1 i assms(2) show ?thesis by (auto simp: update_user_def vec_ok Let_def intro!: option.map_cong)
  next
    case (Some ci)
    then have "conn_ok n objs c ci" using assms(1) by (simp add: info_ok_def)
    from update_conn_ok [OF this assms(2-4)] obtain ci' where ci': "update_conn f cmd ci = Some ci'" "conn_ok n objs c ci'"
      "conn_object ci' = conn_object ci" "conn_any ci' = conn_any ci"
      "connCmdStat ci' = (connCmdStat ci)[nat cmd := f (connCmdStat ci ! nat cmd)]" by blast
    let ?info2 = "?info1\<lparr>mapConnInfo := sm_modify c (\<lambda>_. ci') (mapConnInfo info)\<rparr>"
    have "info_ok n objs u ?info2" using 1 ci'(2) by (auto simp: info_ok_def)
    moreover have "update_user f c cmd info = Some ?info2" using Some i assms(2) ci'(1) by (simp add: update_user_def vec_ok Let_def)
    ultimately show ?thesis using Some ci'(3-5) by (auto intro!: option.map_cong)
  qed
qed


section \<open>Runs\<close>

datatype ('c, 'i) online_op =
    Join u64 'i u64 'c string int int | Leave u64 u64 | Best u64 int
  | Recv int u64 u64 int | Sent u64 u64 int
  | Waiting_send enumCntOpt u64 u64 int | Waiting_response enumCntOpt u64 u64 int | Window enumCntOpt u64 u64 int

primrec exec_online :: "('c, 'i) online_op \<Rightarrow> ('c, 'i) UserOnlineList \<Rightarrow> ('c, 'i) UserOnlineList option" where
  "exec_online (Join u ui c conn ip t t') l = map_option snd (AddToOnlineList u ui c conn ip t t' l)"
| "exec_online (Leave u c) l = Some (snd (DelFromOnlineList u c l))"
| "exec_online (Best u cmd) l = map_option (\<lambda>r. snd (snd r)) (GetBestConn u cmd l)"
| "exec_online (Recv t u c cmd) l = UpdateTotalRecvCnt t u c cmd l"
| "exec_online (Sent u c cmd) l = UpdateTotalSendCnt u c cmd l"
| "exec_online (Waiting_send opt u c cmd) l = UpdateWaitSndCnt opt u c cmd l"
| "exec_online (Waiting_response opt u c cmd) l = UpdateWaitRspCnt opt u c cmd l"
| "exec_online (Window opt u c cmd) l = UpdateSlideWndCnt opt u c cmd l"

text \<open>What an update does: to which counter, by how much, for which user, connection and command.\<close>

primrec op_change :: "('c, 'i) online_op \<Rightarrow> (counter \<times> u64 \<times> u64 \<times> u64 \<times> int) option" where
  "op_change (Join u ui c conn ip t t') = None"
| "op_change (Leave u c) = None"
| "op_change (Best u cmd) = None"
| "op_change (Recv t u c cmd) = Some (Total_recv, 1, u, c, cmd)"
| "op_change (Sent u c cmd) = Some (Total_send, 1, u, c, cmd)"
| "op_change (Waiting_send opt u c cmd) = Some (Wait_snd, opt_val opt, u, c, cmd)"
| "op_change (Waiting_response opt u c cmd) = Some (Wait_rsp, opt_val opt, u, c, cmd)"
| "op_change (Window opt u c cmd) = Some (Slide_wnd, opt_val opt, u, c, cmd)"

text \<open>The gain of a counter, of the user (\<open>None\<close>) or of one connection, for the command with this index.\<close>

definition gain :: "int \<Rightarrow> counter \<Rightarrow> u64 \<Rightarrow> u64 option \<Rightarrow> int \<Rightarrow> ('c, 'i) online_op \<Rightarrow> u64" where
  "gain n k u c d op =
     (case op_change op of
        None \<Rightarrow> 0
      | Some (k', x, u', c', cmd) \<Rightarrow>
          if k' = k \<and> u' = u \<and> (c = None \<or> c = Some c') \<and> CHECK_CMD_VALUE_INVALID cmd n = d then x else 0)"

text \<open>How the counters of a user change over a list of operations.\<close>

definition user_counted :: "int \<Rightarrow> ('c, 'i) online_op list \<Rightarrow> u64 \<Rightarrow> ('c, 'i) tUserOnlineInfo \<Rightarrow> ('c, 'i) tUserOnlineInfo \<Rightarrow> bool" where
  "user_counted n ops u info info' \<longleftrightarrow>
     (\<forall>k d. 0 \<le> d \<and> d < n \<longrightarrow> count_of k (userCmdStat info' ! nat d) =
        count_of k (userCmdStat info ! nat d) + sum_list (map (gain n k u None d) ops)) \<and>
     (\<forall>c ci. map_of (mapConnInfo info) c = Some ci \<and> Leave u c \<notin> set ops \<longrightarrow>
        (\<exists>ci'. map_of (mapConnInfo info') c = Some ci' \<and>
           (\<forall>k d. 0 \<le> d \<and> d < n \<longrightarrow> count_of k (connCmdStat ci' ! nat d) =
              count_of k (connCmdStat ci ! nat d) + sum_list (map (gain n k u (Some c) d) ops))))"

definition counted :: "('c, 'i) online_op list \<Rightarrow> ('c, 'i) UserOnlineList \<Rightarrow> ('c, 'i) UserOnlineList \<Rightarrow> bool" where
  "counted ops l l' \<longleftrightarrow> maxcmdcnt l' = maxcmdcnt l \<and>
     (\<forall>u info. find_user u l = Some info \<longrightarrow>
        (\<exists>info'. find_user u l' = Some info' \<and> user_counted (maxcmdcnt l) ops u info info'))"

lemma user_countedD:
  assumes "user_counted n ops u info info'"
  shows "0 \<le> d \<Longrightarrow> d < n \<Longrightarrow>
      count_of k (userCmdStat info' ! nat d) = count_of k (userCmdStat info ! nat d) + sum_list (map (gain n k u None d) ops)"
    "map_of (mapConnInfo info) c = Some ci \<Longrightarrow> Leave u c \<notin> set ops \<Longrightarrow> \<exists>ci'. map_of (mapConnInfo info') c = Some ci' \<and>
      (\<forall>k d. 0 \<le> d \<and> d < n \<longrightarrow>
        count_of k (connCmdStat ci' ! nat d) = count_of k (connCmdStat ci ! nat d) + sum_list (map (gain n k u (Some c) d) ops))"
  using assms unfolding user_counted_def by simp_all

lemma user_counted_trans:
  assumes "user_counted n ops1 u i0 i1" "user_counted n ops2 u i1 i2"
  shows "user_counted n (ops1 @ ops2) u i0 i2"
  unfolding user_counted_def
proof (intro conjI allI impI)
  fix k d assume "0 \<le> d \<and> d < n"
  then show "count_of k (userCmdStat i2 ! nat d) = count_of k (userCmdStat i0 ! nat d) + sum_list (map (gain n k u None d) (ops1 @ ops2))"
    using user_countedD(1) [OF assms(1), of d k] user_countedD(1) [OF assms(2), of d k] by simp
next
  fix c ci assume c: "map_of (mapConnInfo i0) c = Some ci \<and> Leave u c \<notin> set (ops1 @ ops2)"
  then obtain c1 where c1: "map_of (mapConnInfo i1) c = Some c1"
    "\<forall>k d. 0 \<le> d \<and> d < n \<longrightarrow> count_of k (connCmdStat c1 ! nat d) =
      count_of k (connCmdStat ci ! nat d) + sum_list (map (gain n k u (Some c) d) ops1)"
    using user_countedD(2) [OF assms(1), of c ci] by auto
  obtain c2 where "map_of (mapConnInfo i2) c = Some c2"
    "\<forall>k d. 0 \<le> d \<and> d < n \<longrightarrow> count_of k (connCmdStat c2 ! nat d) =
      count_of k (connCmdStat c1 ! nat d) + sum_list (map (gain n k u (Some c) d) ops2)"
    using user_countedD(2) [OF assms(2) c1(1)] c by auto
  with c1(2) show "\<exists>ci'. map_of (mapConnInfo i2) c = Some ci' \<and>
      (\<forall>k d. 0 \<le> d \<and> d < n \<longrightarrow> count_of k (connCmdStat ci' ! nat d) =
        count_of k (connCmdStat ci ! nat d) + sum_list (map (gain n k u (Some c) d) (ops1 @ ops2)))"
    by (simp add: add.assoc)
qed

lemma counted_trans:
  assumes "counted ops1 l l1" "counted ops2 l1 l2"
  shows "counted (ops1 @ ops2) l l2"
  using assms user_counted_trans unfolding counted_def by metis

lemma user_counted_same:
  assumes "userCmdStat info' = userCmdStat info" "op_change op = None"
    "\<And>c ci. map_of (mapConnInfo info) c = Some ci \<Longrightarrow> op \<noteq> Leave u c \<Longrightarrow>
      \<exists>ci'. map_of (mapConnInfo info') c = Some ci' \<and> connCmdStat ci' = connCmdStat ci"
  shows "user_counted n [op] u info info'"
  using assms by (fastforce simp: user_counted_def gain_def)

lemma counted_set_user:
  assumes "find_user u l = Some info" "user_counted (maxcmdcnt l) [op] u info info'"
    "\<And>v. v \<noteq> u \<Longrightarrow> \<forall>k x u' c' cmd. op_change op = Some (k, x, u', c', cmd) \<longrightarrow> u' \<noteq> v" "\<And>v c. v \<noteq> u \<Longrightarrow> op \<noteq> Leave v c"
  shows "counted [op] l (set_user u info' l)"
proof -
  have "user_counted (maxcmdcnt l) [op] v i i" if "v \<noteq> u" for v i
    using assms(3) [OF that] by (auto simp: user_counted_def gain_def split: option.split)
  with assms(1,2) show ?thesis by (auto simp: counted_def find_set_user)
qed


text \<open>The operations, one by one.\<close>

lemma counted_no_user:
  assumes "list_ok l" "op_change op = Some (k, x, u, c, cmd)" "find_user u l = None"
  shows "counted [op] l l"
  using assms by (auto simp: counted_def user_counted_def gain_def)

lemma counted_update:
  assumes "op_change op = Some (k, x, u, c, cmd0)" "adds k x f" "cmd = CHECK_CMD_VALUE_INVALID cmd0 n" "0 \<le> cmd"
    and "length (userCmdStat info) = nat n" "\<And>c ci. map_of (mapConnInfo info) c = Some ci \<Longrightarrow> length (connCmdStat ci) = nat n"
    and "userCmdStat info' = (userCmdStat info)[nat cmd := f (userCmdStat info ! nat cmd)]"
    and "\<And>c'. map_option (\<lambda>ci. (conn_object ci, conn_any ci, connCmdStat ci)) (map_of (mapConnInfo info') c') =
      map_option (\<lambda>ci. (conn_object ci, conn_any ci,
        if c' = c then (connCmdStat ci)[nat cmd := f (connCmdStat ci ! nat cmd)] else connCmdStat ci)) (map_of (mapConnInfo info) c')"
  shows "user_counted n [op] u info info'"
  unfolding user_counted_def
proof (intro conjI allI impI)
  have upd: "count_of k' (ss[nat cmd := f (ss ! nat cmd)] ! nat d) = count_of k' (ss ! nat d) + (if k' = k \<and> cmd = d then x else 0)"
    if "length ss = nat n" "0 \<le> d" "d < n" for ss k' d
    using assms(2,4) that by (cases "cmd = d") (auto simp: adds_def nth_list_update eq_nat_nat_iff nat_less_iff)
  show "count_of k' (userCmdStat info' ! nat d) = count_of k' (userCmdStat info ! nat d) + sum_list (map (gain n k' u None d) [op])"
    if "0 \<le> d \<and> d < n" for k' d
    using that assms(1,3,5,7) upd by (simp add: gain_def)
  fix c' ci assume c': "map_of (mapConnInfo info) c' = Some ci \<and> Leave u c' \<notin> set [op]"
  with assms(8) [of c'] obtain ci' where ci': "map_of (mapConnInfo info') c' = Some ci'"
    "connCmdStat ci' = (if c' = c then (connCmdStat ci)[nat cmd := f (connCmdStat ci ! nat cmd)] else connCmdStat ci)"
    by (auto split: if_splits)
  moreover have "count_of k' (connCmdStat ci' ! nat d) = count_of k' (connCmdStat ci ! nat d) + sum_list (map (gain n k' u (Some c') d) [op])"
    if "0 \<le> d \<and> d < n" for k' d
    using that assms(1,3) upd [OF assms(6), of c' ci d k'] c' ci'(2) by (auto simp: gain_def)
  ultimately show "\<exists>ci'. map_of (mapConnInfo info') c' = Some ci' \<and>
      (\<forall>k d. 0 \<le> d \<and> d < n \<longrightarrow> count_of k (connCmdStat ci' ! nat d) =
        count_of k (connCmdStat ci ! nat d) + sum_list (map (gain n k u (Some c') d) [op]))"
    by blast
qed

lemma adds_ops [simp]:
  "adds Total_recv 1 (\<lambda>s. s\<lparr>totalrecvcnt := totalrecvcnt s + 1, last_active := t\<rparr>)"
  "adds Total_send 1 (\<lambda>s. s\<lparr>totalsendcnt := totalsendcnt s + 1\<rparr>)"
  "adds Wait_snd x (\<lambda>s. s\<lparr>waitsndcnt := waitsndcnt s + x\<rparr>)"
  "adds Wait_rsp x (\<lambda>s. s\<lparr>waitrspcnt := waitrspcnt s + x\<rparr>)"
  "adds Slide_wnd x (\<lambda>s. s\<lparr>slidewndcnt := slidewndcnt s + x\<rparr>)"
proof -
  have "count_of j (s\<lparr>totalrecvcnt := totalrecvcnt s + 1, last_active := t\<rparr>) = count_of j s + (if j = Total_recv then 1 else 0)"
    "count_of j (s\<lparr>totalsendcnt := totalsendcnt s + 1\<rparr>) = count_of j s + (if j = Total_send then 1 else 0)"
    "count_of j (s\<lparr>waitsndcnt := waitsndcnt s + x\<rparr>) = count_of j s + (if j = Wait_snd then x else 0)"
    "count_of j (s\<lparr>waitrspcnt := waitrspcnt s + x\<rparr>) = count_of j s + (if j = Wait_rsp then x else 0)"
    "count_of j (s\<lparr>slidewndcnt := slidewndcnt s + x\<rparr>) = count_of j s + (if j = Slide_wnd then x else 0)" for j s
    by (cases j; simp)+
  then show "adds Total_recv 1 (\<lambda>s. s\<lparr>totalrecvcnt := totalrecvcnt s + 1, last_active := t\<rparr>)"
    "adds Total_send 1 (\<lambda>s. s\<lparr>totalsendcnt := totalsendcnt s + 1\<rparr>)"
    "adds Wait_snd x (\<lambda>s. s\<lparr>waitsndcnt := waitsndcnt s + x\<rparr>)"
    "adds Wait_rsp x (\<lambda>s. s\<lparr>waitrspcnt := waitrspcnt s + x\<rparr>)"
    "adds Slide_wnd x (\<lambda>s. s\<lparr>slidewndcnt := slidewndcnt s + x\<rparr>)"
    by (simp_all only: adds_def simp_thms)
qed

lemma note_min_window_ok:
  assumes "info_ok n objs u info" "0 \<le> cmd" "cmd < n"
  shows "\<exists>info'. note_min_window c cmd info = Some info' \<and> info_ok n objs u info' \<and> userCmdStat info' = userCmdStat info \<and>
    mapConnInfo info' = mapConnInfo info"
proof (cases "map_of (mapConnInfo info) c")
  case (Some ci)
  then have "nat cmd < length (connCmdStat ci)" "nat cmd < length (minWndConn info)"
    using assms by (auto simp: info_ok_def conn_ok_def nat_less_iff)
  then show ?thesis using Some assms by (auto simp: note_min_window_def vec_ok info_ok_def)
qed (use assms(1) in \<open>simp add: note_min_window_def\<close>)

text \<open>An update, followed by a step that leaves the counters alone.\<close>

lemma update_step:
  assumes "list_ok l" "op_change op = Some (k, x, u, c, cmd0)" "adds k x f" "\<And>v w. op \<noteq> Leave v w"
    and "\<And>info. info_ok (maxcmdcnt l) (objects l) u info \<Longrightarrow> \<exists>info'. g info = Some info' \<and>
      info_ok (maxcmdcnt l) (objects l) u info' \<and> userCmdStat info' = userCmdStat info \<and> mapConnInfo info' = mapConnInfo info"
    and "r = (case find_user u l of None \<Rightarrow> Some l
      | Some info \<Rightarrow> do { info1 \<leftarrow> update_user f c (CHECK_CMD_VALUE_INVALID cmd0 (maxcmdcnt l)) info; info2 \<leftarrow> g info1; Some (set_user u info2 l) })"
  shows "\<exists>l'. r = Some l' \<and> list_ok l' \<and> counted [op] l l'"
proof (cases "find_user u l")
  case None
  with assms(1,6) counted_no_user [OF assms(1,2)] show ?thesis by simp
next
  case (Some info)
  let ?n = "maxcmdcnt l" and ?cmd = "CHECK_CMD_VALUE_INVALID cmd0 (maxcmdcnt l)"
  have n: "0 \<le> ?cmd" "?cmd < ?n" using CHECK_range [of ?n cmd0] assms(1) by (auto simp: list_ok_def)
  have ok: "info_ok ?n (objects l) u info" using assms(1) Some by (simp add: list_ok_def)
  from update_user_ok [OF this n assms(3), of c] obtain info1 where i1: "update_user f c ?cmd info = Some info1"
    "info_ok ?n (objects l) u info1"
    "userCmdStat info1 = (userCmdStat info)[nat ?cmd := f (userCmdStat info ! nat ?cmd)]"
    "\<And>c'. map_option (\<lambda>ci. (conn_object ci, conn_any ci, connCmdStat ci)) (map_of (mapConnInfo info1) c') =
      map_option (\<lambda>ci. (conn_object ci, conn_any ci,
        if c' = c then (connCmdStat ci)[nat ?cmd := f (connCmdStat ci ! nat ?cmd)] else connCmdStat ci)) (map_of (mapConnInfo info) c')"
    by auto
  from assms(5) [OF i1(2)] obtain info2 where i2: "g info1 = Some info2" "info_ok ?n (objects l) u info2"
    "userCmdStat info2 = userCmdStat info1" "mapConnInfo info2 = mapConnInfo info1" by blast
  have "user_counted ?n [op] u info info2"
    by (rule counted_update [OF assms(2,3) refl n(1)]) (use ok i1(3,4) i2(3,4) in \<open>auto simp: info_ok_def conn_ok_def\<close>)
  then have "counted [op] l (set_user u info2 l)"
    using assms(2,4) by (intro counted_set_user [OF Some]) auto
  with set_user_ok [OF assms(1) i2(2)] i1(1) i2(1) Some assms(6) show ?thesis by simp
qed

lemma exec_update:
  assumes "list_ok l" "op_change op = Some (k, x, u, c, cmd)"
  shows "\<exists>l'. exec_online op l = Some l' \<and> list_ok l' \<and> counted [op] l l'"
proof (cases op)
  case (Window opt u' c' cmd')
  show ?thesis
    by (rule update_step [OF assms, where f = "\<lambda>s. s\<lparr>slidewndcnt := slidewndcnt s + opt_val opt\<rparr>"
          and g = "note_min_window c (CHECK_CMD_VALUE_INVALID cmd (maxcmdcnt l))"])
      (use assms Window note_min_window_ok CHECK_range [of "maxcmdcnt l" cmd] in
        \<open>auto simp: UpdateSlideWndCnt_def list_ok_def Let_def split: option.split\<close>)
next
  case (Recv t u' c' cmd')
  show ?thesis
    by (rule update_step [OF assms, where f = "\<lambda>s. s\<lparr>totalrecvcnt := totalrecvcnt s + 1, last_active := t\<rparr>" and g = Some])
      (use assms Recv in \<open>auto simp: UpdateTotalRecvCnt_def update_stats_def Let_def split: option.split\<close>)
next
  case (Sent u' c' cmd')
  show ?thesis
    by (rule update_step [OF assms, where f = "\<lambda>s. s\<lparr>totalsendcnt := totalsendcnt s + 1\<rparr>" and g = Some])
      (use assms Sent in \<open>auto simp: UpdateTotalSendCnt_def update_stats_def Let_def split: option.split\<close>)
next
  case (Waiting_send opt u' c' cmd')
  show ?thesis
    by (rule update_step [OF assms, where f = "\<lambda>s. s\<lparr>waitsndcnt := waitsndcnt s + opt_val opt\<rparr>" and g = Some])
      (use assms Waiting_send in \<open>auto simp: UpdateWaitSndCnt_def update_stats_def Let_def split: option.split\<close>)
next
  case (Waiting_response opt u' c' cmd')
  show ?thesis
    by (rule update_step [OF assms, where f = "\<lambda>s. s\<lparr>waitrspcnt := waitrspcnt s + opt_val opt\<rparr>" and g = Some])
      (use assms Waiting_response in \<open>auto simp: UpdateWaitRspCnt_def update_stats_def Let_def split: option.split\<close>)
qed (use assms in auto)

lemma new_conn:
  assumes "0 < n"
  shows "\<exists>ci. new_tConnInfo object n c conn ip tNow tStat = Some ci \<and> conn_ok n (object + 1) c ci"
  using assms balanced_new by (simp add: new_tConnInfo_def vec_resize_def conn_ok_def)

lemma join_new_conn:
  assumes "info_ok n objs u info" "conn_ok n (objs + 1) c ci"
  shows "info_ok n (objs + 1) u (info\<lparr>mapConnInfo := sm_insert c ci (mapConnInfo info)\<rparr>)"
proof -
  have "info_ok n (objs + 1) u info" using info_ok_mono [OF assms(1), of "objs + 1"] by simp
  with assms(2) show ?thesis by (auto simp: info_ok_def sm_insert_sorted)
qed

lemma objects_ok:
  assumes "list_ok l" "objects l \<le> m"
  shows "list_ok (l\<lparr>objects := m\<rparr>)"
  using assms info_ok_mono by (fastforce simp: list_ok_def find_user_def)

lemma set_user_objects: "(set_user u info l)\<lparr>objects := m\<rparr> = set_user u info (l\<lparr>objects := m\<rparr>)"
  by (cases l) (simp add: set_user_def)

lemma counted_objects: "counted ops l (l'\<lparr>objects := m\<rparr>) = counted ops l l'"
  by (simp add: counted_def find_user_def)

lemma exec_join:
  assumes "list_ok l"
  shows "\<exists>l'. exec_online (Join u ui c conn ip t t') l = Some l' \<and> list_ok l' \<and> counted [Join u ui c conn ip t t'] l l'"
proof -
  let ?op = "Join u ui c conn ip t t'" and ?n = "maxcmdcnt l" and ?m = "objects l + 1"
  have n: "0 < ?n" using assms by (simp add: list_ok_def)
  obtain ci where ci: "new_tConnInfo (objects l) ?n c conn ip t t' = Some ci" "conn_ok ?n ?m c ci"
    using new_conn [OF n] by metis
  have l1: "list_ok (l\<lparr>objects := ?m\<rparr>)" by (rule objects_ok [OF assms]) simp
  show ?thesis
  proof (cases "find_user u l")
    case None
    define info where "info = \<lparr>useruuid = u, userinfo = ui, userStat = (new_tStatistics t')\<lparr>last_active := t\<rparr>,
      userCmdStat = replicate (nat ?n) (new_tStatistics t'), minWndConn = replicate (nat ?n) \<lparr>minwnd = 0, pConn = None\<rparr>,
      mapConnInfo = sm_insert c ci []\<rparr>"
    have i: "info_ok ?n ?m u info"
      using ci(2) balanced_new by (auto simp: info_ok_def info_def sm_insert_def)
    define l' where "l' = l\<lparr>mapUserOnlineInfo := sm_insert u info (mapUserOnlineInfo l), objects := ?m\<rparr>"
    have f: "find_user v l' = (if v = u then Some info else find_user v l)" for v
      using None by (simp add: l'_def find_user_def)
    have "list_ok l'"
      using l1 i f by (auto simp: list_ok_def l'_def sm_insert_sorted find_user_def split: if_splits)
    moreover have "counted [?op] l l'"
      using None f by (auto simp: counted_def user_counted_def gain_def l'_def)
    moreover have "exec_online ?op l = Some l'"
      using None n ci(1) by (simp add: AddToOnlineList_def vec_resize_def l'_def info_def Let_def)
    ultimately show ?thesis by blast
  next
    case (Some info0)
    let ?info = "info0\<lparr>useruuid := u, userinfo := ui, userStat := (userStat info0)\<lparr>last_active := t\<rparr>\<rparr>"
    have ok: "info_ok ?n (objects l) u ?info" using assms Some by (simp add: list_ok_def info_ok_def)
    show ?thesis
    proof (cases "map_of (mapConnInfo info0) c")
      case new: None
      let ?info2 = "?info\<lparr>mapConnInfo := sm_insert c ci (mapConnInfo info0)\<rparr>"
      have i: "info_ok ?n ?m u ?info2" using join_new_conn [OF ok ci(2)] by simp
      have "list_ok ((set_user u ?info2 l)\<lparr>objects := ?m\<rparr>)"
        using set_user_ok [OF l1, of u ?info2] i by (simp add: set_user_objects)
      moreover have "counted [?op] l (set_user u ?info2 l)"
        by (rule counted_set_user [OF Some user_counted_same]) (use new in auto)
      moreover have "exec_online ?op l = Some ((set_user u ?info2 l)\<lparr>objects := ?m\<rparr>)"
        using Some new ci(1) by (simp add: AddToOnlineList_def Let_def)
      ultimately show ?thesis by (auto simp: counted_objects)
    next
      case old: (Some ci0)
      let ?ci = "ci0\<lparr>conn_uuid := c, conn_any := conn, connStat := (connStat ci0)\<lparr>last_active := t\<rparr>\<rparr>"
      let ?info2 = "?info\<lparr>mapConnInfo := sm_modify c (\<lambda>_. ?ci) (mapConnInfo info0)\<rparr>"
      have "info_ok ?n (objects l) u ?info2" using ok old by (auto simp: info_ok_def conn_ok_def)
      from set_user_ok [OF assms this] have "list_ok (set_user u ?info2 l)" .
      moreover have "counted [?op] l (set_user u ?info2 l)"
        by (rule counted_set_user [OF Some user_counted_same]) (use old in auto)
      moreover have "exec_online ?op l = Some (set_user u ?info2 l)"
        using Some old by (simp add: AddToOnlineList_def Let_def)
      ultimately show ?thesis by blast
    qed
  qed
qed

lemma exec_leave:
  assumes "list_ok l"
  shows "list_ok (snd (DelFromOnlineList u c l)) \<and> counted [Leave u c] l (snd (DelFromOnlineList u c l))"
proof (cases "find_user u l")
  case None
  then show ?thesis using assms by (auto simp: DelFromOnlineList_def counted_def user_counted_def gain_def)
next
  case (Some info)
  let ?info = "info\<lparr>mapConnInfo := sm_erase c (mapConnInfo info)\<rparr>"
  have "info_ok (maxcmdcnt l) (objects l) u ?info" using assms Some by (auto simp: list_ok_def info_ok_def sm_erase_sorted)
  moreover have "counted [Leave u c] l (set_user u ?info l)"
    by (rule counted_set_user [OF Some user_counted_same]) auto
  ultimately show ?thesis using set_user_ok [OF assms] Some by (simp add: DelFromOnlineList_def)
qed

lemma find_value:
  assumes "find P (map snd m) = Some v" "keys_sorted m"
  shows "\<exists>k. map_of m k = Some v"
proof -
  obtain i where "i < length (map snd m)" "v = map snd m ! i" using assms(1) by (auto simp: find_Some_iff)
  then have "v \<in> snd ` set m" by (metis list.set_map nth_mem)
  then obtain p where "p \<in> set m" "snd p = v" by blast
  moreover have "distinct (map fst m)" using assms(2) by (simp add: strict_sorted_iff)
  ultimately have "map_of m (fst p) = Some v" by (cases p) (auto simp: map_of_eq_Some_iff)
  then show ?thesis by blast
qed

text \<open>\<open>GetBestConn\<close> answers with a connection of the user, and a second call gives the same answer.\<close>

lemma best_ok:
  assumes "list_ok l"
  shows "\<exists>r out l'. GetBestConn u cmd l = Some (r, out, l') \<and> list_ok l' \<and> counted [Best u cmd] l l' \<and>
    (r = 0 \<longleftrightarrow> 0 < GetUserOnlineConnCnt u l) \<and> r \<in> {0, 1} \<and>
    (r = 0 \<longrightarrow> (\<exists>info c ci. find_user u l = Some info \<and> map_of (mapConnInfo info) c = Some ci \<and> out = Some (c, conn_any ci))) \<and>
    GetBestConn u cmd l' = Some (r, out, l')"
proof (cases "\<exists>info. find_user u l = Some info \<and> mapConnInfo info \<noteq> []")
  case False
  moreover have "counted [Best u cmd] l l" by (auto simp: counted_def user_counted_def gain_def)
  ultimately show ?thesis using assms by (auto simp: GetBestConn_def GetUserOnlineConnCnt_def Let_def split: option.split)
next
  case True
  then obtain info k ci rest where info: "find_user u l = Some info" "mapConnInfo info = (k, ci) # rest"
    by (metis list.exhaust prod.exhaust)
  let ?n = "maxcmdcnt l" and ?cmd = "CHECK_CMD_VALUE_INVALID cmd (maxcmdcnt l)"
  have ok: "info_ok ?n (objects l) u info" using assms info(1) by (simp add: list_ok_def)
  have first: "map_of (mapConnInfo info) k = Some ci" using info(2) by simp
  then have c: "conn_ok ?n (objects l) k ci" using ok by (simp add: info_ok_def)
  have n: "0 \<le> ?cmd" "nat ?cmd < length (minWndConn info)" "nat ?cmd < length (connCmdStat ci)"
    using CHECK_range [of ?n cmd] assms ok c by (auto simp: list_ok_def info_ok_def conn_ok_def nat_less_iff)
  have cnt: "0 < GetUserOnlineConnCnt u l" using info by (simp add: GetUserOnlineConnCnt_def)
  show ?thesis
  proof (cases "lock_conn (pConn (minWndConn info ! nat ?cmd)) (mapConnInfo info)")
    case None
    let ?wnds = "(minWndConn info)[nat ?cmd := (minWndConn info ! nat ?cmd)\<lparr>minwnd := slidewndcnt (connCmdStat ci ! nat ?cmd),
      pConn := Some (conn_object ci)\<rparr>]"
    let ?info = "info\<lparr>minWndConn := ?wnds\<rparr>" and ?l = "set_user u (info\<lparr>minWndConn := ?wnds\<rparr>) l"
    have g: "GetBestConn u cmd l = Some (0, Some (conn_uuid ci, conn_any ci), ?l)"
      using info None n by (simp add: GetBestConn_def Let_def vec_ok)
    have "info_ok ?n (objects l) u ?info" using ok by (simp add: info_ok_def)
    from set_user_ok [OF assms this] have "list_ok ?l" .
    moreover have "counted [Best u cmd] l ?l" by (rule counted_set_user [OF info(1) user_counted_same]) auto
    moreover have "lock_conn (Some (conn_object ci)) (mapConnInfo info) = Some ci" using info(2) by (simp add: lock_conn_def)
    then have "GetBestConn u cmd ?l = Some (0, Some (conn_uuid ci, conn_any ci), ?l)"
      using info n by (simp add: GetBestConn_def Let_def vec_ok find_set_user)
    moreover have "conn_uuid ci = k" using c by (simp add: conn_ok_def)
    ultimately show ?thesis using g cnt info(1) first by auto
  next
    case (Some ci1)
    then obtain k1 where k1: "map_of (mapConnInfo info) k1 = Some ci1"
      using find_value [of _ "mapConnInfo info" ci1] ok unfolding lock_conn_def info_ok_def by (metis option.case_eq_if option.distinct(1))
    then have "conn_uuid ci1 = k1" using ok by (simp add: info_ok_def conn_ok_def)
    moreover have g: "GetBestConn u cmd l = Some (0, Some (conn_uuid ci1, conn_any ci1), l)"
      using info Some n by (simp add: GetBestConn_def Let_def vec_ok)
    moreover have "counted [Best u cmd] l l" by (auto simp: counted_def user_counted_def gain_def)
    ultimately show ?thesis using cnt info(1) k1 assms by auto
  qed
qed

lemma exec_online_ok:
  assumes "list_ok l"
  shows "\<exists>l'. exec_online op l = Some l' \<and> list_ok l' \<and> counted [op] l l'"
proof (cases "op_change op")
  case (Some ch)
  then show ?thesis using exec_update [OF assms] by (metis prod_cases5)
next
  case None
  then show ?thesis
  proof (cases op)
    case (Best u cmd)
    with best_ok [OF assms, of u cmd] show ?thesis by auto
  qed (use exec_join [OF assms] exec_leave [OF assms] in auto)
qed

interpretation online: traced_steps exec_online "\<lambda>op l. True" list_ok "\<lambda>op l. op" counted
proof
  show "\<exists>l'. exec_online op l = Some l' \<and> list_ok l'" if "list_ok l" for op and l :: "('a, 'b) UserOnlineList"
    using exec_online_ok [OF that] by blast
  show "counted [] l l" for l :: "('a, 'b) UserOnlineList"
    by (auto simp: counted_def user_counted_def)
  show "counted (op # ops) l l2" if "list_ok l" "exec_online op l = Some l1" "counted ops l1 l2"
    for op ops and l l1 l2 :: "('a, 'b) UserOnlineList"
    using exec_online_ok [OF that(1), of op] that(2) counted_trans [of "[op]" l l1 ops l2] that(3) by auto
qed


section \<open>Properties\<close>

primrec query :: "counter \<Rightarrow> u64 \<Rightarrow> u64 \<Rightarrow> int \<Rightarrow> ('c, 'i) UserOnlineList \<Rightarrow> u64 option" where
  "query Wait_snd = GetWaitSndCnt"
| "query Wait_rsp = GetWaitRspCnt"
| "query Slide_wnd = GetSlideWndCnt"
| "query Total_recv = GetTotalRecvCnt"
| "query Total_send = GetTotalSendCnt"

lemma query_stats: "query k = get_stats (count_of k)"
  by (cases k) (simp_all add: GetWaitSndCnt_def GetWaitRspCnt_def GetSlideWndCnt_def GetTotalRecvCnt_def GetTotalSendCnt_def)

lemma query_value:
  assumes "list_ok l" "find_user u l = Some info"
  shows "query k u 0 cmd l = Some (count_of k (userCmdStat info ! nat (CHECK_CMD_VALUE_INVALID cmd (maxcmdcnt l))))"
    "c \<noteq> 0 \<Longrightarrow> map_of (mapConnInfo info) c = Some ci \<Longrightarrow>
      query k u c cmd l = Some (count_of k (connCmdStat ci ! nat (CHECK_CMD_VALUE_INVALID cmd (maxcmdcnt l))))"
proof -
  have ok: "info_ok (maxcmdcnt l) (objects l) u info" and n: "0 < maxcmdcnt l" using assms by (auto simp: list_ok_def)
  note r = CHECK_range [OF n, of cmd]
  show "query k u 0 cmd l = Some (count_of k (userCmdStat info ! nat (CHECK_CMD_VALUE_INVALID cmd (maxcmdcnt l))))"
    using assms(2) ok r by (auto simp: query_stats get_stats_def Let_def vec_ok info_ok_def nat_less_iff)
  show "query k u c cmd l = Some (count_of k (connCmdStat ci ! nat (CHECK_CMD_VALUE_INVALID cmd (maxcmdcnt l))))"
    if "c \<noteq> 0" "map_of (mapConnInfo info) c = Some ci"
    using assms(2) ok r that by (auto simp: query_stats get_stats_def Let_def vec_ok info_ok_def conn_ok_def nat_less_iff)
qed

lemma UserOnlineList_new_ok: "0 < n \<Longrightarrow> list_ok (UserOnlineList_new n)"
  by (simp add: UserOnlineList_new_def list_ok_def find_user_def)

text \<open>Two users; the first has two connections and has received a message for command 1.\<close>

definition sample_online :: "(string, string) online_op list" where
  "sample_online = [Join 7 ''ann'' 1 ''c1'' ''10.0.0.1:99'' 100 101, Join 7 ''ann'' 2 ''c2'' ''10.0.0.1:98'' 102 103,
     Join 9 ''bob'' 3 ''c3'' ''10.0.0.2:99'' 104 105, Recv 106 7 2 1]"

definition sample_list :: "(string, string) UserOnlineList" where
  "sample_list = the (run exec_online sample_online (UserOnlineList_new 2))"

lemma allowed_True: "allowed step (\<lambda>op s. True) ops s"
  by (induction ops arbitrary: s) (auto split: option.split)

lemma sample_list_run: "run exec_online sample_online (UserOnlineList_new 2) = Some sample_list"
  using online.run_safe [OF UserOnlineList_new_ok allowed_True, of 2 sample_online] by (auto simp: sample_list_def)

text \<open>
  C29: the online list is safe and consistent. With at least one command, no sequence of operations, with whatever users,
  connections and command numbers, indexes a vector out of its range; afterwards the keys are those stored in the
  objects, and the total of each counter, of every user and of every connection, is the sum over the commands.
\<close>

theorem online_list_safe:
  assumes "0 < n"
  shows "\<exists>l. run exec_online ops (UserOnlineList_new n) = Some l \<and>
    (\<forall>u info. find_user u l = Some info \<longrightarrow> useruuid info = u \<and>
      (\<forall>k. count_of k (userStat info) = sum_list (map (count_of k) (userCmdStat info))) \<and>
      (\<forall>c ci. map_of (mapConnInfo info) c = Some ci \<longrightarrow> conn_uuid ci = c \<and>
        (\<forall>k. count_of k (connStat ci) = sum_list (map (count_of k) (connCmdStat ci)))))"
  using online.run_safe [OF UserOnlineList_new_ok [OF assms] allowed_True, of ops]
  by (auto simp: list_ok_def info_ok_def conn_ok_def balanced_def)

text \<open>
  C30: the counters count. Whatever happens after a user has joined, a query of a counter of the user, for one command, has
  grown by what the updates of that counter for this user and this command added; and a query for one of its
  connections, as long as the connection does not leave, by what the updates for that connection added.
\<close>

theorem online_counts:
  assumes "0 < n" "run exec_online ops (UserOnlineList_new n) = Some l" "run exec_online ops2 l = Some l2"
    and "find_user u l = Some info" "0 \<le> cmd" "cmd < n"
  shows "(\<exists>x. query k u 0 cmd l = Some x \<and> query k u 0 cmd l2 = Some (x + sum_list (map (gain n k u None cmd) ops2))) \<and>
    (\<forall>c ci. c \<noteq> 0 \<and> map_of (mapConnInfo info) c = Some ci \<and> Leave u c \<notin> set ops2 \<longrightarrow>
      (\<exists>x. query k u c cmd l = Some x \<and> query k u c cmd l2 = Some (x + sum_list (map (gain n k u (Some c) cmd) ops2))))"
proof -
  have trace_id: "run exec_online ops' l0 = Some l' \<Longrightarrow> trace exec_online (\<lambda>op l. op) ops' l0 = ops'" for ops' and l0 l' :: "('a, 'b) UserOnlineList"
    by (induction ops' arbitrary: l0) (auto split: option.splits)
  have ok: "list_ok l" using online.run_safe [OF UserOnlineList_new_ok [OF assms(1)] allowed_True, of ops] assms(2) by auto
  have ok2: "list_ok l2" using online.run_safe [OF ok allowed_True, of ops2] assms(3) by auto
  have "counted ops (UserOnlineList_new n) l"
    using online.run_rel [OF UserOnlineList_new_ok [OF assms(1)] allowed_True assms(2)] trace_id [OF assms(2)] by simp
  then have n: "maxcmdcnt l = n" by (simp add: counted_def UserOnlineList_new_def)
  have "counted ops2 l l2" using online.run_rel [OF ok allowed_True assms(3)] trace_id [OF assms(3)] by simp
  then obtain info2 where i2: "find_user u l2 = Some info2" "user_counted n ops2 u info info2" and n2: "maxcmdcnt l2 = n"
    using assms(4) n by (auto simp: counted_def)
  have cmd: "CHECK_CMD_VALUE_INVALID cmd n = cmd" using assms(5,6) by (simp add: CHECK_CMD_VALUE_INVALID_def)
  have "\<exists>x. query k u 0 cmd l = Some x \<and> query k u 0 cmd l2 = Some (x + sum_list (map (gain n k u None cmd) ops2))"
    using query_value(1) [OF ok assms(4), of k cmd] query_value(1) [OF ok2 i2(1), of k cmd] user_countedD(1) [OF i2(2) assms(5,6)]
      cmd n n2 by simp
  moreover have "\<exists>x. query k u c cmd l = Some x \<and> query k u c cmd l2 = Some (x + sum_list (map (gain n k u (Some c) cmd) ops2))"
    if "c \<noteq> 0" "map_of (mapConnInfo info) c = Some ci" "Leave u c \<notin> set ops2" for c ci
    using user_countedD(2) [OF i2(2) that(2,3)] query_value(2) [OF ok assms(4) that(1,2), of k cmd]
      query_value(2) [OF ok2 i2(1) that(1), of _ k cmd] cmd assms(5,6) n n2 by fastforce
  ultimately show ?thesis by blast
qed

lemmas online_eval = sample_list_def sample_online_def UserOnlineList_new_def AddToOnlineList_def find_user_def set_user_def
  new_tConnInfo_def vec_resize_def sm_insert_def sm_modify_def UpdateTotalRecvCnt_def update_stats_def update_user_def
  update_conn_def vec_modify_def CHECK_CMD_VALUE_INVALID_def new_tStatistics_def Let_def

lemma sample_user:
  "\<exists>info ci. find_user 7 sample_list = Some info \<and> map_of (mapConnInfo info) 2 = Some ci \<and>
     query Total_recv 7 2 1 sample_list = Some 1 \<and> query Total_recv 7 0 1 sample_list = Some 1"
  by (simp add: online_eval GetTotalRecvCnt_def get_stats_def vec_at_def)

theorem online_list_safe_witness:
  "\<exists>info. find_user 7 sample_list = Some info \<and>
     count_of Total_recv (userStat info) = sum_list (map (count_of Total_recv) (userCmdStat info))"
proof -
  have "\<forall>u info k. find_user u sample_list = Some info \<longrightarrow> count_of k (userStat info) = sum_list (map (count_of k) (userCmdStat info))"
    using online_list_safe [of 2 sample_online] sample_list_run by auto
  then show ?thesis using sample_user by blast
qed

theorem online_counts_witness:
  "\<exists>l2. run exec_online [Recv 107 7 2 1, Recv 108 7 1 1, Recv 109 7 2 0] sample_list = Some l2 \<and>
     GetTotalRecvCnt 7 0 1 l2 = Some 3 \<and> GetTotalRecvCnt 7 2 1 l2 = Some 2"
proof -
  let ?ops = "[Recv 107 7 2 1, Recv 108 7 1 1, Recv 109 7 2 0] :: (string, string) online_op list"
  have "list_ok sample_list" using online.run_safe [OF UserOnlineList_new_ok allowed_True, of 2 sample_online] sample_list_run by auto
  then obtain l2 where l2: "run exec_online ?ops sample_list = Some l2" using online.run_safe [OF _ allowed_True] by blast
  obtain info ci where i: "find_user 7 sample_list = Some info" "map_of (mapConnInfo info) 2 = Some ci"
    "query Total_recv 7 2 1 sample_list = Some 1" "query Total_recv 7 0 1 sample_list = Some 1"
    using sample_user by blast
  have g: "sum_list (map (gain 2 Total_recv 7 None 1) ?ops) = 2" "sum_list (map (gain 2 Total_recv 7 (Some 2) 1) ?ops) = 1"
    by (simp_all add: gain_def CHECK_CMD_VALUE_INVALID_def)
  have c: "(0::int) < 2" "(0::int) \<le> 1" "(1::int) < 2" by simp_all
  note oc = online_counts [OF c(1) sample_list_run l2 i(1) c(2,3), of Total_recv]
  have "query Total_recv 7 0 1 l2 = Some (1 + 2)" using conjunct1 [OF oc] i(4) unfolding g by simp
  moreover have "query Total_recv 7 2 1 l2 = Some (1 + 1)"
    using conjunct2 [OF oc, THEN spec, of 2, THEN spec, of ci] i(2,3) unfolding g by simp
  ultimately have "query Total_recv 7 0 1 l2 = Some (1 + 2) \<and> query Total_recv 7 2 1 l2 = Some (1 + 1)" by blast
  with l2 show ?thesis by simp
qed

text \<open>
  C31: the best connection. \<open>GetBestConn\<close> succeeds exactly for a user with a connection; it then gives the identifier and
  the object of a connection the user has at that moment, never of one that has left, and asking again gives
  the same one.
\<close>

theorem online_best_connection:
  assumes "0 < n" "run exec_online ops (UserOnlineList_new n) = Some l"
  shows "\<exists>r out l'. GetBestConn u cmd l = Some (r, out, l') \<and> (r = 0 \<longleftrightarrow> 0 < GetUserOnlineConnCnt u l) \<and> r \<in> {0, 1} \<and>
    (r = 0 \<longrightarrow> (\<exists>info c ci. find_user u l = Some info \<and> map_of (mapConnInfo info) c = Some ci \<and> out = Some (c, conn_any ci))) \<and>
    GetBestConn u cmd l' = Some (r, out, l')"
  using online.run_safe [OF UserOnlineList_new_ok [OF assms(1)] allowed_True, of ops] assms(2) best_ok [of l u cmd] by auto

theorem online_best_connection_witness:
  "\<exists>out l'. GetBestConn 7 1 sample_list = Some (0, out, l') \<and> GetBestConn 7 1 l' = Some (0, out, l')"
proof -
  have "0 < GetUserOnlineConnCnt 7 sample_list" by (simp add: online_eval GetUserOnlineConnCnt_def)
  with online_best_connection [OF _ sample_list_run, of 7 1] show ?thesis by auto
qed


section \<open>Observations\<close>

text \<open>A command number of \<open>maxcmdcnt\<close>, which the comments describe as all commands, is taken for command 0.\<close>

lemma all_commands_is_command_0: "0 < maxcmdcnt l \<Longrightarrow> get_stats sel u c (maxcmdcnt l) l = get_stats sel u c 0 l"
  by (simp add: get_stats_def CHECK_CMD_VALUE_INVALID_def)

text \<open>
  The smallest window starts at 0, which no window is below: the connection with the smallest window is not the one that
  \<open>GetBestConn\<close> answers. Here connection 1 has one message in its window and connection 2 has none.
\<close>

lemma best_connection_not_smallest:
  "\<exists>l l'. UpdateSlideWndCnt INT_CNT 7 1 0 sample_list = Some l \<and> GetSlideWndCnt 7 1 0 l = Some 1 \<and> GetSlideWndCnt 7 2 0 l = Some 0 \<and>
     GetBestConn 7 0 l = Some (0, Some (1, ''c1''), l')"
  by (simp add: online_eval UpdateSlideWndCnt_def note_min_window_def vec_at_def GetSlideWndCnt_def get_stats_def GetBestConn_def lock_conn_def word_le_nat_alt)

end
