(* ===== verification/Calendar.thy ===== *)
theory Calendar
  imports Prelude "HOL-Library.Signed_Division"
begin

text \<open>
  \<open>Date\<close> (\<open>base/Date.cc\<close>): Julian day numbers. Division of C integers is \<open>sdiv\<close>, which truncates; an \<open>int\<close> is an
  unbounded integer, and \<open>getYearMonthDay_fits\<close> bounds the values of the computation. The calendar it is compared with
  is defined by the lengths of the months and the successor of a day.
\<close>

section \<open>Dates\<close>

record YearMonthDay =
  year :: int
  month :: int
  day :: int

definition getJulianDayNumber :: "int \<Rightarrow> int \<Rightarrow> int \<Rightarrow> int" where
  "getJulianDayNumber yr mon d =
     (let a = (14 - mon) sdiv 12;
          y = yr + 4800 - a;
          m = mon + 12 * a - 3
      in d + (153 * m + 2) sdiv 5 + y * 365 + y sdiv 4 - y sdiv 100 + y sdiv 400 - 32045)"

definition getYearMonthDay :: "int \<Rightarrow> YearMonthDay" where
  "getYearMonthDay julianDayNumber =
     (let a = julianDayNumber + 32044;
          b = (4 * a + 3) sdiv 146097;
          c = a - ((b * 146097) sdiv 4);
          d = (4 * c + 3) sdiv 1461;
          e = c - ((1461 * d) sdiv 4);
          m = (5 * e + 2) sdiv 153
      in \<lparr>year = b * 100 + d - 4800 + (m sdiv 10), month = m + 3 - 12 * (m sdiv 10), day = e - ((153 * m + 2) sdiv 5) + 1\<rparr>)"

definition kJulianDayOf1970_01_01 :: int where
  "kJulianDayOf1970_01_01 = getJulianDayNumber 1970 1 1"

definition weekDay :: "int \<Rightarrow> int" where
  "weekDay julianDayNumber = (julianDayNumber + 1) smod 7"


section \<open>The Gregorian calendar\<close>

definition leap :: "int \<Rightarrow> bool" where
  "leap y \<longleftrightarrow> 4 dvd y \<and> (100 dvd y \<longrightarrow> 400 dvd y)"

definition month_length :: "int \<Rightarrow> int \<Rightarrow> int" where
  "month_length y m = (if m \<in> {4, 6, 9, 11} then 30 else if m = 2 then (if leap y then 29 else 28) else 31)"

definition valid_date :: "YearMonthDay \<Rightarrow> bool" where
  "valid_date d \<longleftrightarrow> 1 \<le> month d \<and> month d \<le> 12 \<and> 1 \<le> day d \<and> day d \<le> month_length (year d) (month d)"

definition next_day :: "YearMonthDay \<Rightarrow> YearMonthDay" where
  "next_day d =
     (if day d < month_length (year d) (month d) then d\<lparr>day := day d + 1\<rparr>
      else if month d < 12 then d\<lparr>month := month d + 1, day := 1\<rparr>
      else \<lparr>year = year d + 1, month = 1, day = 1\<rparr>)"

definition julian :: "YearMonthDay \<Rightarrow> int" where
  "julian d = getJulianDayNumber (year d) (month d) (day d)"

lemma sdiv_nonneg: "0 \<le> a \<Longrightarrow> 0 < b \<Longrightarrow> a sdiv b = a div (b :: int)"
  by (simp add: signed_divide_int_def sgn_if)

text \<open>The day number in terms of years and months that start in March.\<close>

lemma julian_march:
  assumes "1 \<le> mon" "mon \<le> 12" "-4799 \<le> yr"
  defines "a \<equiv> (if mon \<le> 2 then 1 else 0)"
  shows "getJulianDayNumber yr mon d =
    (let y = yr + 4800 - a; m = mon + 12 * a - 3 in d + (153 * m + 2) div 5 + y * 365 + y div 4 - y div 100 + y div 400 - 32045)"
proof -
  have "(14 - mon) sdiv 12 = a"
    using assms by (auto simp: sdiv_nonneg)
  moreover have "0 \<le> yr + 4800 - a" "0 \<le> 153 * (mon + 12 * a - 3) + 2" using assms by (auto simp: a_def)
  ultimately show ?thesis by (simp add: getJulianDayNumber_def Let_def sdiv_nonneg)
qed

lemma month_offset:
  fixes m k :: int
  assumes "0 \<le> m" "m \<le> 11" "0 \<le> k" "k < (if m \<in> {1, 3, 6, 8} then 30 else 31)" "m = 11 \<longrightarrow> k < 29"
  shows "(5 * (k + (153 * m + 2) div 5) + 2) div 153 = m" "0 \<le> k + (153 * m + 2) div 5" "k + (153 * m + 2) div 5 \<le> 365"
    "k + (153 * m + 2) div 5 = 365 \<Longrightarrow> m = 11 \<and> k = 28"
proof -
  have "m = 0 \<or> m = 1 \<or> m = 2 \<or> m = 3 \<or> m = 4 \<or> m = 5 \<or> m = 6 \<or> m = 7 \<or> m = 8 \<or> m = 9 \<or> m = 10 \<or> m = 11"
    using assms(1,2) by presburger
  then show "(5 * (k + (153 * m + 2) div 5) + 2) div 153 = m" "0 \<le> k + (153 * m + 2) div 5" "k + (153 * m + 2) div 5 \<le> 365"
    "k + (153 * m + 2) div 5 = 365 \<Longrightarrow> m = 11 \<and> k = 28"
    using assms(3-5) by auto
qed

lemma year_offset:
  fixes r n :: int
  assumes "0 \<le> r" "0 \<le> n" "n \<le> 365" "n = 365 \<Longrightarrow> r mod 4 = 3"
  shows "(4 * (365 * r + r div 4 + n) + 3) div 1461 = r" "(1461 * r) div 4 = 365 * r + r div 4"
proof -
  define q s where "q = r div 4" and "s = r mod 4"
  have r: "r = 4 * q + s" "0 \<le> s" "s < 4" "r div 4 = q" by (simp_all add: q_def s_def)
  have "4 * (365 * (4 * q + s) + q + n) + 3 = (4 * q + s) * 1461 + (4 * n + 3 - s)" by (simp add: algebra_simps)
  then have "4 * (365 * r + r div 4 + n) + 3 = r * 1461 + (4 * n + 3 - s)" unfolding r(1) [symmetric] r(4) .
  moreover have "0 \<le> 4 * n + 3 - s" "4 * n + 3 - s < 1461" using assms(2,3) r(2,3) assms(4) [folded s_def] by linarith+
  ultimately show "(4 * (365 * r + r div 4 + n) + 3) div 1461 = r" by simp
  have "1461 * r = r + (365 * r) * 4" by simp
  then show "(1461 * r) div 4 = 365 * r + r div 4" by (simp only: div_mult_self1)
qed

lemma century_offset:
  fixes b c :: int
  assumes "0 \<le> b" "0 \<le> c" "c \<le> 36524" "c = 36524 \<Longrightarrow> b mod 4 = 3"
  shows "(4 * (36524 * b + b div 4 + c) + 3) div 146097 = b" "(b * 146097) div 4 = 36524 * b + b div 4"
proof -
  define q r where "q = b div 4" and "r = b mod 4"
  have b: "b = 4 * q + r" "0 \<le> r" "r < 4" "b div 4 = q" by (simp_all add: q_def r_def)
  have "4 * (36524 * (4 * q + r) + q + c) + 3 = (4 * q + r) * 146097 + (4 * c + 3 - r)" by (simp add: algebra_simps)
  then have "4 * (36524 * b + b div 4 + c) + 3 = b * 146097 + (4 * c + 3 - r)" unfolding b(1) [symmetric] b(4) .
  moreover have "0 \<le> 4 * c + 3 - r" "4 * c + 3 - r < 146097" using assms(2,3) b(2,3) assms(4) [folded r_def] by linarith+
  ultimately show "(4 * (36524 * b + b div 4 + c) + 3) div 146097 = b" by simp
  have "b * 146097 = b + (36524 * b) * 4" by simp
  then show "(b * 146097) div 4 = 36524 * b + b div 4" by (simp only: div_mult_self1)
qed

text \<open>\<open>getYearMonthDay\<close> of a day number that is given by a year \<open>y\<close> from March on, a month \<open>m\<close> and a day \<open>k\<close>, counted from 0.\<close>

lemma getYearMonthDay_march:
  fixes y m k :: int
  assumes "0 \<le> y" "0 \<le> m" "m \<le> 11" "0 \<le> k" "k < (if m \<in> {1, 3, 6, 8} then 30 else 31)" "m = 11 \<longrightarrow> k < 29"
    and "m = 11 \<and> k = 28 \<longrightarrow> leap (y + 1)"
    and "j = k + (153 * m + 2) div 5 + y * 365 + y div 4 - y div 100 + y div 400 - 32044"
  shows "getYearMonthDay j = \<lparr>year = y - 4800 + m div 10, month = m + 3 - 12 * (m div 10), day = k + 1\<rparr>"
proof -
  define n b r where "n = k + (153 * m + 2) div 5" and "b = y div 100" and "r = y mod 100"
  note n = month_offset [OF assms(2-6), folded n_def]
  have y: "y = 100 * b + r" "0 \<le> r" "r < 100" "0 \<le> b" using assms(1) by (simp_all add: b_def r_def)
  have y4: "y div 4 = 25 * b + r div 4" "y div 400 = b div 4" "y mod 4 = r mod 4"
proof -
    have "y = r + (25 * b) * 4" using y(1) by simp
    then show "y div 4 = 25 * b + r div 4" "y mod 4 = r mod 4" by (simp_all only: div_mult_self1 mod_mult_self1)
    show "y div 400 = b div 4" using zdiv_zmult2_eq [of 4 y 100] by (simp add: b_def)
  qed
  have leap: "r mod 4 = 3 \<and> (r = 99 \<longrightarrow> b mod 4 = 3)" if "n = 365"
  proof -
    have "leap (y + 1)" using n(4) [OF that] assms(7) by simp
    then have l: "4 dvd 100 * b + r + 1" "100 dvd 100 * b + r + 1 \<longrightarrow> 400 dvd 100 * b + r + 1" using y(1) by (auto simp: leap_def)
    have "r mod 4 = 3" using l(1) by presburger
    moreover have "b mod 4 = 3" if "r = 99"
    proof -
      have "100 * 4 dvd 100 * (b + 1)" using l(2) that by (simp add: algebra_simps)
      then have "4 dvd b + 1" by (simp only: dvd_mult_cancel_left) simp
      then show ?thesis by presburger
    qed
    ultimately show ?thesis by blast
  qed
  define c where "c = 365 * r + r div 4 + n"
  have c: "0 \<le> c" "c \<le> 36524" "c = 36524 \<Longrightarrow> b mod 4 = 3"
  proof -
    have "r div 4 \<le> 24" "0 \<le> r div 4" using y(2,3) by auto
    then show "0 \<le> c" "c \<le> 36524" using n(2,3) y(2,3) by (simp_all add: c_def)
    assume "c = 36524"
    then have "n = 365" "r = 99" using n(2,3) y(2,3) \<open>r div 4 \<le> 24\<close> unfolding c_def by linarith+
    with leap show "b mod 4 = 3" by blast
  qed
  have a: "j + 32044 = 36524 * b + b div 4 + c"
    unfolding assms(8) c_def n_def y4 b_def [symmetric] using y(1) by simp
  note cent = century_offset [OF y(4) c, folded a] and yr = year_offset [OF y(2) n(2,3), folded c_def]
  have nn: "0 \<le> 4 * (j + 32044) + 3" "0 \<le> b * 146097" "0 \<le> 4 * c + 3" "0 \<le> 1461 * r" "0 \<le> 5 * n + 2" "0 \<le> 153 * m + 2"
    using a c(1) y n(2) assms(2) by auto
  have 1: "(4 * (j + 32044) + 3) sdiv 146097 = b" using cent(1) nn by (simp add: sdiv_nonneg)
  have 2: "j + 32044 - (b * 146097) sdiv 4 = c" using cent(2) nn a by (simp add: sdiv_nonneg)
  have 3: "(4 * c + 3) sdiv 1461 = r" using yr(1) leap nn by (simp add: sdiv_nonneg)
  have 4: "c - (1461 * r) sdiv 4 = n" using yr(2) leap nn by (simp add: sdiv_nonneg c_def)
  have 5: "(5 * n + 2) sdiv 153 = m" using n(1) nn by (simp add: sdiv_nonneg n_def)
  have 6: "n - (153 * m + 2) sdiv 5 = k" using nn by (simp add: sdiv_nonneg n_def)
  have 7: "m sdiv 10 = m div 10" using assms(2) by (simp add: sdiv_nonneg)
  show ?thesis
    unfolding getYearMonthDay_def Let_def 1 2 3 4 5 6 7 using y(1) by simp
qed

text \<open>The first day that is considered: before year -4799 the divisions truncate towards zero.\<close>

definition in_calendar :: "YearMonthDay \<Rightarrow> bool" where
  "in_calendar d \<longleftrightarrow> valid_date d \<and> -4799 \<le> year d"

lemma in_calendarD:
  assumes "in_calendar d"
  shows "1 \<le> month d" "month d \<le> 12" "1 \<le> day d" "day d \<le> month_length (year d) (month d)" "-4799 \<le> year d"
  using assms by (auto simp: in_calendar_def valid_date_def)

lemma month_cases:
  fixes m :: int
  assumes "1 \<le> m" "m \<le> 12"
  obtains "m = 1" | "m = 2" | "m = 3" | "m = 4" | "m = 5" | "m = 6" | "m = 7" | "m = 8" | "m = 9" | "m = 10" | "m = 11" | "m = 12"
proof -
  have "m = 1 \<or> m = 2 \<or> m = 3 \<or> m = 4 \<or> m = 5 \<or> m = 6 \<or> m = 7 \<or> m = 8 \<or> m = 9 \<or> m = 10 \<or> m = 11 \<or> m = 12"
    using assms by presburger
  then show ?thesis using that by blast
qed

lemma getYearMonthDay_julian:
  assumes "in_calendar d"
  shows "getYearMonthDay (julian d) = d"
proof -
  note d = in_calendarD [OF assms]
  define a where "a = (if month d \<le> 2 then 1 else 0 :: int)"
  define y m k where "y = year d + 4800 - a" and "m = month d + 12 * a - 3" and "k = day d - 1"
  have j: "julian d = k + (153 * m + 2) div 5 + y * 365 + y div 4 - y div 100 + y div 400 - 32044"
    unfolding julian_def julian_march [OF d(1,2,5)] by (simp add: Let_def y_def m_def k_def a_def)
  have "leap (y + 1) \<longleftrightarrow> leap (year d)" if "a = 1"
  proof -
    have "y + 1 = year d + 4800" using that by (simp add: y_def)
    moreover have "(4 :: int) dvd 4800" "(100 :: int) dvd 4800" "(400 :: int) dvd 4800" by simp_all
    ultimately show ?thesis by (simp only: leap_def dvd_add_left_iff)
  qed
  then have b: "0 \<le> y" "0 \<le> m" "m \<le> 11" "0 \<le> k" "k < (if m \<in> {1, 3, 6, 8} then 30 else 31)" "m = 11 \<longrightarrow> k < 29"
    "m = 11 \<and> k = 28 \<longrightarrow> leap (y + 1)" and r: "m div 10 = a"
    using d by (cases rule: month_cases [OF d(1,2)]; simp add: y_def m_def k_def a_def month_length_def split: if_splits)+
  have "getYearMonthDay (julian d) = \<lparr>year = y - 4800 + m div 10, month = m + 3 - 12 * (m div 10), day = k + 1\<rparr>"
    by (rule getYearMonthDay_march [OF b j])
  also have "\<dots> = d" unfolding r by (cases d) (simp add: y_def m_def k_def)
  finally show ?thesis .
qed

lemma div_pred:
  fixes y k :: int
  assumes "0 < k"
  shows "y div k = (y - 1) div k + (if k dvd y then 1 else 0)"
proof (cases "k dvd y")
  case True
  then have "y - 1 = k * (y div k - 1) + (k - 1)" by (simp add: algebra_simps)
  then have "(y - 1) div k = y div k - 1" by (rule int_div_pos_eq) (use assms in auto)
  with True show ?thesis by simp
next
  case False
  then have "y mod k \<noteq> 0" by (simp add: dvd_eq_mod_eq_0)
  moreover have "y - 1 = k * (y div k) + (y mod k - 1)" by (simp add: algebra_simps)
  moreover have "0 \<le> y mod k" "y mod k < k" using assms by simp_all
  ultimately have "(y - 1) div k = y div k" using int_div_pos_eq [of "y - 1" k "y div k" "y mod k - 1"] by simp
  with False show ?thesis by simp
qed

lemma in_calendar_next_day: "in_calendar d \<Longrightarrow> in_calendar (next_day d)"
  by (auto simp: in_calendar_def valid_date_def next_day_def month_length_def split: if_splits)

text \<open>The number of days before a year is the sum of the lengths of the years before it.\<close>

definition year_days :: "int \<Rightarrow> int" where
  "year_days y = y * 365 + y div 4 - y div 100 + y div 400"

lemma year_days_pred: "year_days y = year_days (y - 1) + (if leap y then 366 else 365)"
proof -
  have sum: "y * 365 + a - b + c = (y - 1) * 365 + a' - b' + c' + (if P \<and> (Q \<longrightarrow> R) then 366 else 365)"
    if "a = a' + (if P then 1 else 0)" "b = b' + (if Q then 1 else 0)" "c = c' + (if R then 1 else 0)" "R \<longrightarrow> Q" "Q \<longrightarrow> P"
    for a b c a' b' c' :: int and P Q R
    using that by (cases P; cases Q; cases R; simp)
  have d: "400 dvd y \<longrightarrow> 100 dvd y" "100 dvd y \<longrightarrow> 4 dvd y"
    using dvd_trans [of 100 400 y] dvd_trans [of 4 100 y] by simp_all
  show ?thesis unfolding year_days_def leap_def by (rule sum [OF _ _ _ d]) (rule div_pred, simp)+
qed

lemma leap_shift: "leap (y + 4800) \<longleftrightarrow> leap y"
proof -
  have "(4 :: int) dvd 4800" "(100 :: int) dvd 4800" "(400 :: int) dvd 4800" by simp_all
  then show ?thesis by (simp only: leap_def dvd_add_left_iff)
qed

lemma julian_year_days:
  assumes "in_calendar d"
  defines "a \<equiv> (if month d \<le> 2 then 1 else 0)"
  shows "julian d = day d + (153 * (month d + 12 * a - 3) + 2) div 5 + year_days (year d + 4800 - a) - 32045"
  unfolding julian_def julian_march [OF in_calendarD(1,2,5) [OF assms(1)]] by (simp add: Let_def year_days_def a_def)

lemma julian_next_day:
  assumes "in_calendar d"
  shows "julian (next_day d) = julian d + 1"
proof -
  note d = in_calendarD [OF assms]
  define z where "z = year_days (year d + 4799)"
  have y: "year_days (year d + 4800) = z + (if leap (year d) then 366 else 365)"
    using year_days_pred [of "year d + 4800"] by (simp add: leap_shift z_def add.commute)
  have z: "year_days (year d + 4799) = z" "year_days (4799 + year d) = z" "year_days (4800 + year d) = year_days (year d + 4800)"
    by (simp_all add: z_def add.commute)
  show ?thesis
    unfolding julian_year_days [OF assms] julian_year_days [OF in_calendar_next_day [OF assms]]
    using d(3,4) y z
    by (cases rule: month_cases [OF d(1,2)]; simp add: next_day_def month_length_def split: if_splits)
qed

definition first_day :: YearMonthDay where
  "first_day = \<lparr>year = -4799, month = 1, day = 1\<rparr>"

lemma first_day_valid: "in_calendar first_day" "julian first_day = -31738"
  by (simp_all add: first_day_def in_calendar_def valid_date_def month_length_def julian_def getJulianDayNumber_def)

lemma julian_getYearMonthDay:
  assumes "-31738 \<le> j"
  shows "in_calendar (getYearMonthDay j)" "julian (getYearMonthDay j) = j"
proof -
  have "\<exists>d. in_calendar d \<and> julian d = j" using assms
  proof (induction j rule: int_ge_induct)
    case base
    show ?case using first_day_valid by blast
  next
    case (step i)
    then show ?case using in_calendar_next_day julian_next_day by metis
  qed
  then show "in_calendar (getYearMonthDay j)" "julian (getYearMonthDay j) = j"
    using getYearMonthDay_julian by force+
qed

lemma getYearMonthDay_next:
  assumes "-31738 \<le> j"
  shows "getYearMonthDay (j + 1) = next_day (getYearMonthDay j)"
  using getYearMonthDay_julian [OF in_calendar_next_day [OF julian_getYearMonthDay(1) [OF assms]]]
    julian_next_day [OF julian_getYearMonthDay(1) [OF assms]] julian_getYearMonthDay(2) [OF assms] by simp

lemma julian_lower:
  assumes "in_calendar d"
  shows "-31738 \<le> julian d"
proof -
  have ge: "year_days 1 \<le> year_days y" if "1 \<le> y" for y
    using that
  proof (induction y rule: int_ge_induct)
    case (step i)
    then show ?case using year_days_pred [of "i + 1"] by (simp split: if_splits)
  qed simp
  note d = in_calendarD [OF assms]
  define a where "a = (if month d \<le> 2 then 1 else 0 :: int)"
  have "0 \<le> year d + 4799" using d(5) by simp
  show ?thesis
  proof (cases "year d + 4800 - a = 0")
    case True
    then have "year d = -4799" "a = 1" using d(5) by (auto simp: a_def split: if_splits)
    then show ?thesis using d(1,3) unfolding julian_year_days [OF assms] a_def [symmetric]
      by (auto simp: a_def year_days_def split: if_splits)
  next
    case False
    then have "1 \<le> year d + 4800 - a" using d(5) by (auto simp: a_def split: if_splits)
    then have "year_days 1 \<le> year_days (year d + 4800 - a)" by (rule ge)
    moreover have "0 \<le> (153 * (month d + 12 * a - 3) + 2) div 5"
      by (rule pos_imp_zdiv_nonneg_iff [THEN iffD2]) (use d(1) in \<open>auto simp: a_def\<close>)
    ultimately show ?thesis using d(3) unfolding julian_year_days [OF assms] a_def [symmetric]
      by (simp add: year_days_def)
  qed
qed

text \<open>The divisions of \<open>getYearMonthDay\<close> stay within the 32 bits of a C \<open>int\<close> up to this day, in the year 1465072.\<close>

definition last_julian :: int where
  "last_julian = 536838866"

lemma getYearMonthDay_fits:
  assumes "-31738 \<le> j" "j \<le> last_julian"
  defines "a \<equiv> j + 32044"
  defines "b \<equiv> (4 * a + 3) div 146097"
  defines "c \<equiv> a - (b * 146097) div 4"
  defines "d \<equiv> (4 * c + 3) div 1461"
  defines "e \<equiv> c - (1461 * d) div 4"
  shows "0 \<le> 4 * a + 3 \<and> 4 * a + 3 < 2 ^ 31" "0 \<le> b * 146097 \<and> b * 146097 < 2 ^ 31" "0 \<le> 4 * c + 3 \<and> 4 * c + 3 < 2 ^ 31"
    "0 \<le> 1461 * d \<and> 1461 * d < 2 ^ 31" "0 \<le> 5 * e + 2 \<and> 5 * e + 2 < 2 ^ 31"
proof -
  show a: "0 \<le> 4 * a + 3 \<and> 4 * a + 3 < 2 ^ 31" using assms by (simp add: last_julian_def)
  have r: "0 \<le> x - (n * ((4 * x + 3) div n)) div 4 \<and> x - (n * ((4 * x + 3) div n)) div 4 \<le> n \<and> n * ((4 * x + 3) div n) \<le> 4 * x + 3 \<and> 0 \<le> n * ((4 * x + 3) div n)"
    if "0 \<le> x" "4 \<le> n" for x n :: int
  proof -
    define q where "q = n * ((4 * x + 3) div n)"
    have "q + (4 * x + 3) mod n = 4 * x + 3" by (simp add: q_def)
    moreover have "0 \<le> (4 * x + 3) mod n" "(4 * x + 3) mod n < n" using that by simp_all
    moreover have "0 \<le> q" using that by (simp add: q_def pos_imp_zdiv_nonneg_iff)
    ultimately have "q \<le> 4 * x + 3" "4 * x + 3 < q + n" "0 \<le> q" by linarith+
    then show ?thesis using that unfolding q_def [symmetric] by presburger
  qed
  have "0 \<le> a" using assms by simp
  from r [OF this, of 146097] have b: "0 \<le> c" "c \<le> 146097" "b * 146097 \<le> 4 * a + 3" "0 \<le> b * 146097"
    by (simp_all add: b_def c_def mult.commute)
  then show "0 \<le> b * 146097 \<and> b * 146097 < 2 ^ 31" "0 \<le> 4 * c + 3 \<and> 4 * c + 3 < 2 ^ 31" using a by auto
  from r [OF b(1), of 1461] have e: "0 \<le> e" "e \<le> 1461" "1461 * d \<le> 4 * c + 3" "0 \<le> 1461 * d"
    by (simp_all add: d_def e_def)
  then show "0 \<le> 1461 * d \<and> 1461 * d < 2 ^ 31" "0 \<le> 5 * e + 2 \<and> 5 * e + 2 < 2 ^ 31" using b(2) by auto
qed

end
