(* ===== verification/Time_Zone.thy ===== *)
theory Time_Zone
  imports Calendar
begin

text \<open>
  \<open>TimeZone\<close> (\<open>base/TimeZone.cc\<close>): broken-down time in UTC and in a time zone, the search for the offset that is in force,
  and the reader of time zone files. A \<open>time_t\<close> is an unbounded integer. \<open>gmtime_r\<close> and \<open>timegm\<close> of the C library are
  parameters. \<open>None\<close> is a failed assertion or an access out of range.
\<close>

section \<open>Broken-down time in UTC\<close>

record tm =
  tm_sec :: int
  tm_min :: int
  tm_hour :: int
  tm_mday :: int
  tm_mon :: int
  tm_year :: int
  tm_wday :: int
  tm_yday :: int
  tm_isdst :: int
  tm_gmtoff :: int
  tm_zone :: "string option"

definition tm_zero :: tm where
  "tm_zero = \<lparr>tm_sec = 0, tm_min = 0, tm_hour = 0, tm_mday = 0, tm_mon = 0, tm_year = 0, tm_wday = 0, tm_yday = 0,
     tm_isdst = 0, tm_gmtoff = 0, tm_zone = None\<rparr>"

text \<open>The conversion to a 32-bit \<open>int\<close>.\<close>

definition to_int :: "int \<Rightarrow> int" where
  "to_int x = (x + 2 ^ 31) mod 2 ^ 32 - 2 ^ 31"

definition kSecondsPerDay :: int where
  "kSecondsPerDay = 24 * 60 * 60"

definition fillHMS :: "nat \<Rightarrow> tm \<Rightarrow> tm" where
  "fillHMS seconds utc =
     (let utc = utc\<lparr>tm_sec := int (seconds mod 60)\<rparr>;
          minutes = seconds div 60
      in utc\<lparr>tm_min := int (minutes mod 60), tm_hour := int (minutes div 60)\<rparr>)"

definition toUtcTime :: "int \<Rightarrow> bool \<Rightarrow> tm" where
  "toUtcTime secondsSinceEpoch yday =
     (let seconds = to_int (secondsSinceEpoch smod kSecondsPerDay);
          days = to_int (secondsSinceEpoch sdiv kSecondsPerDay);
          (seconds, days) = (if seconds < 0 then (seconds + kSecondsPerDay, days - 1) else (seconds, days));
          utc = fillHMS (nat seconds) (tm_zero\<lparr>tm_zone := Some ''GMT''\<rparr>);
          date = days + kJulianDayOf1970_01_01;
          ymd = getYearMonthDay date;
          utc = utc\<lparr>tm_year := year ymd - 1900, tm_mon := month ymd - 1, tm_mday := day ymd, tm_wday := weekDay date\<rparr>
      in if yday then utc\<lparr>tm_yday := date - getJulianDayNumber (year ymd) 1 1\<rparr> else utc)"

definition fromUtcTime_fields :: "int \<Rightarrow> int \<Rightarrow> int \<Rightarrow> int \<Rightarrow> int \<Rightarrow> int \<Rightarrow> int" where
  "fromUtcTime_fields yr mon d hour minute seconds =
     (let date = getJulianDayNumber yr mon d;
          secondsInDay = hour * 3600 + minute * 60 + seconds;
          days = date - kJulianDayOf1970_01_01
      in days * kSecondsPerDay + secondsInDay)"

definition fromUtcTime :: "tm \<Rightarrow> int" where
  "fromUtcTime utc = fromUtcTime_fields (tm_year utc + 1900) (tm_mon utc + 1) (tm_mday utc) (tm_hour utc) (tm_min utc) (tm_sec utc)"


section \<open>Time zones\<close>

record Transition =
  gmttime :: int
  localtime :: int
  localtimeIdx :: nat

record Localtime =
  gmtOffset :: int
  isDst :: bool
  arrbIdx :: nat

record Data =
  transitions :: "Transition list"
  localtimes :: "Localtime list"
  zone_names :: "string list"
  zone_abbreviation :: string

text \<open>\<open>Comp\<close> is its flag \<open>compareGmt\<close>.\<close>

definition comp_less :: "bool \<Rightarrow> Transition \<Rightarrow> Transition \<Rightarrow> bool" where
  "comp_less compareGmt lhs rhs = (if compareGmt then gmttime lhs < gmttime rhs else localtime lhs < localtime rhs)"

definition comp_equal :: "bool \<Rightarrow> Transition \<Rightarrow> Transition \<Rightarrow> bool" where
  "comp_equal compareGmt lhs rhs = (if compareGmt then gmttime lhs = gmttime rhs else localtime lhs = localtime rhs)"

text \<open>\<open>std::lower_bound\<close>: the binary search of the standard library from \<open>first\<close> on, over \<open>len\<close> elements.\<close>

function lower_bound :: "('a \<Rightarrow> bool) \<Rightarrow> 'a list \<Rightarrow> nat \<Rightarrow> nat \<Rightarrow> nat" where
  "lower_bound before xs first len =
     (if len = 0 then first
      else let half = len div 2; middle = first + half
           in if before (xs ! middle) then lower_bound before xs (middle + 1) (len - half - 1)
              else lower_bound before xs first half)"
  by pat_completeness auto
termination by (relation "measure (\<lambda>(before, xs, first, len). len)") auto

declare lower_bound.simps [simp del]

definition vector_nth :: "'a list \<Rightarrow> nat \<Rightarrow> 'a option" where
  "vector_nth xs i = (if i < length xs then Some (xs ! i) else None)"

definition findLocaltime :: "Data \<Rightarrow> Transition \<Rightarrow> bool \<Rightarrow> Localtime option" where
  "findLocaltime data sentry compareGmt =
     (if transitions data = [] \<or> comp_less compareGmt sentry (hd (transitions data)) then vector_nth (localtimes data) 0
      else let transI = lower_bound (\<lambda>t. comp_less compareGmt t sentry) (transitions data) 0 (length (transitions data))
           in if transI < length (transitions data)
              then if \<not> comp_equal compareGmt sentry (transitions data ! transI)
                   then if transI = 0 then None
                        else vector_nth (localtimes data) (localtimeIdx (transitions data ! (transI - 1)))
                   else vector_nth (localtimes data) (localtimeIdx (transitions data ! transI))
              else vector_nth (localtimes data) (localtimeIdx (last (transitions data))))"

definition empty_Data :: Data where
  "empty_Data = \<lparr>transitions = [], localtimes = [], zone_names = [], zone_abbreviation = ''''\<rparr>"

definition fixed_TimeZone :: "int \<Rightarrow> string \<Rightarrow> Data option" where
  "fixed_TimeZone eastOfUtc name =
     Some (empty_Data\<lparr>localtimes := [\<lparr>gmtOffset = eastOfUtc, isDst = False, arrbIdx = 0\<rparr>], zone_abbreviation := name\<rparr>)"

text \<open>The C string that starts at a place of a \<open>std::string\<close>, whose end is a NUL.\<close>

definition c_str_from :: "string \<Rightarrow> nat \<Rightarrow> string option" where
  "c_str_from s i = (if i \<le> length s then Some (takeWhile (\<lambda>c. c \<noteq> NUL) (drop i s)) else None)"

definition toLocalTime :: "(int \<Rightarrow> tm) \<Rightarrow> Data option \<Rightarrow> int \<Rightarrow> tm option" where
  "toLocalTime gmtime tz seconds =
     (case tz of None \<Rightarrow> None
      | Some data \<Rightarrow>
          (case findLocaltime data \<lparr>gmttime = seconds, localtime = 0, localtimeIdx = 0\<rparr> True of None \<Rightarrow> None
           | Some local \<Rightarrow>
               (case c_str_from (zone_abbreviation data) (arrbIdx local) of None \<Rightarrow> None
                | Some zone \<Rightarrow>
                    Some ((gmtime (seconds + gmtOffset local))
                      \<lparr>tm_isdst := if isDst local then 1 else 0, tm_gmtoff := gmtOffset local, tm_zone := Some zone\<rparr>))))"

definition fromLocalTime :: "(int \<Rightarrow> tm) \<Rightarrow> (tm \<Rightarrow> int) \<Rightarrow> Data option \<Rightarrow> tm \<Rightarrow> int option" where
  "fromLocalTime gmtime timegm tz localTm =
     (case tz of None \<Rightarrow> None
      | Some data \<Rightarrow>
          let seconds = timegm localTm
          in (case findLocaltime data \<lparr>gmttime = 0, localtime = seconds, localtimeIdx = 0\<rparr> False of None \<Rightarrow> None
              | Some local \<Rightarrow>
                  if tm_isdst localTm \<noteq> 0
                  then (case toLocalTime gmtime tz (seconds - gmtOffset local) of None \<Rightarrow> None
                        | Some tryTm \<Rightarrow>
                            if tm_isdst tryTm = 0 \<and> tm_hour tryTm = tm_hour localTm \<and> tm_min tryTm = tm_min localTm
                            then Some (seconds - 3600 - gmtOffset local)
                            else Some (seconds - gmtOffset local))
                  else Some (seconds - gmtOffset local)))"


section \<open>Time zone files\<close>

text \<open>
  A read gives a value and what is left of the file, or throws \<open>logic_error\<close>. \<open>Undefined\<close> is an array of negative size or
  an access out of range.
\<close>

datatype 'a read_outcome = Value 'a | Throw | Undefined

primrec chain :: "'a read_outcome \<Rightarrow> ('a \<Rightarrow> 'b read_outcome) \<Rightarrow> 'b read_outcome" where
  "chain (Value x) f = f x"
| "chain Throw f = Throw"
| "chain Undefined f = Undefined"

definition file_readBytes :: "int \<Rightarrow> string \<Rightarrow> (string \<times> string) read_outcome" where
  "file_readBytes n f =
     (if n < 0 then Undefined else if length f < nat n then Throw else Value (take (nat n) f, drop (nat n) f))"

definition be_value :: "string \<Rightarrow> int" where
  "be_value bs = foldl (\<lambda>v b. v * 256 + int (uchar b)) 0 bs"

definition file_readInt32 :: "string \<Rightarrow> (int \<times> string) read_outcome" where
  "file_readInt32 f = (if length f < 4 then Throw else Value (to_int (be_value (take 4 f)), drop 4 f))"

definition file_readUInt8 :: "string \<Rightarrow> (nat \<times> string) read_outcome" where
  "file_readUInt8 f = (case f of [] \<Rightarrow> Throw | b # bs \<Rightarrow> Value (uchar b, bs))"

text \<open>A loop that reads \<open>n\<close> elements into a vector of its own.\<close>

fun read_vector :: "nat \<Rightarrow> (string \<Rightarrow> ('a \<times> string) read_outcome) \<Rightarrow> string \<Rightarrow> ('a list \<times> string) read_outcome" where
  "read_vector 0 rd f = Value ([], f)"
| "read_vector (Suc n) rd f =
     chain (rd f) (\<lambda>(x, f). chain (read_vector n rd f) (\<lambda>(xs, f). Value (x # xs, f)))"

text \<open>The head of the file up to the vectors \<open>trans\<close> and \<open>localtimes\<close>; \<open>reserve\<close> throws \<open>length_error\<close> for a negative count.\<close>

definition read_head :: "string \<Rightarrow> (int list \<times> nat list \<times> int \<times> int \<times> string) read_outcome" where
  "read_head f =
     chain (file_readBytes 4 f) (\<lambda>(head, f).
     if head \<noteq> ''TZif'' then Throw else
     chain (file_readBytes 1 f) (\<lambda>(version, f).
     chain (file_readBytes 15 f) (\<lambda>(reserved, f).
     chain (file_readInt32 f) (\<lambda>(isgmtcnt, f).
     chain (file_readInt32 f) (\<lambda>(isstdcnt, f).
     chain (file_readInt32 f) (\<lambda>(leapcnt, f).
     chain (file_readInt32 f) (\<lambda>(timecnt, f).
     chain (file_readInt32 f) (\<lambda>(typecnt, f).
     chain (file_readInt32 f) (\<lambda>(charcnt, f).
     if timecnt < 0 then Throw else
     chain (read_vector (nat timecnt) file_readInt32 f) (\<lambda>(trans, f).
     chain (read_vector (nat timecnt) file_readUInt8 f) (\<lambda>(idx, f).
     Value (trans, idx, typecnt, charcnt, f))))))))))))"

definition read_Localtime :: "string \<Rightarrow> (Localtime \<times> string) read_outcome" where
  "read_Localtime f =
     chain (file_readInt32 f) (\<lambda>(gmtoff, f).
     chain (file_readUInt8 f) (\<lambda>(isdst, f).
     chain (file_readUInt8 f) (\<lambda>(abbrind, f).
     Value (\<lparr>gmtOffset = gmtoff, isDst = (isdst \<noteq> 0), arrbIdx = abbrind\<rparr>, f))))"

text \<open>The loop that fills \<open>data->localtimes\<close>: what was pushed stays when a read throws, and then no file is left to read.\<close>

fun push_localtimes :: "nat \<Rightarrow> string \<Rightarrow> Data \<Rightarrow> Data \<times> string option" where
  "push_localtimes 0 f data = (data, Some f)"
| "push_localtimes (Suc n) f data =
     (case read_Localtime f of Value (l, f) \<Rightarrow> push_localtimes n f (data\<lparr>localtimes := localtimes data @ [l]\<rparr>)
      | _ \<Rightarrow> (data, None))"

fun push_transitions :: "int list \<Rightarrow> nat list \<Rightarrow> Data \<Rightarrow> Data option" where
  "push_transitions (t # ts) (i # is) data =
     (case vector_nth (localtimes data) i of None \<Rightarrow> None
      | Some l \<Rightarrow>
          push_transitions ts is
            (data\<lparr>transitions := transitions data @ [\<lparr>gmttime = t, localtime = t + gmtOffset l, localtimeIdx = i\<rparr>]\<rparr>))"
| "push_transitions _ _ data = Some data"

definition readTimeZoneFile :: "string option \<Rightarrow> Data \<Rightarrow> (bool \<times> Data) option" where
  "readTimeZoneFile zonefile data =
     (case zonefile of None \<Rightarrow> Some (True, data)
      | Some f \<Rightarrow>
          (case read_head f of Undefined \<Rightarrow> None | Throw \<Rightarrow> Some (True, data)
           | Value (at, idx, typecnt, charcnt, f) \<Rightarrow>
               (case push_localtimes (nat typecnt) f data of (data, None) \<Rightarrow> Some (True, data)
                | (data, Some f) \<Rightarrow>
                    (case push_transitions at idx data of None \<Rightarrow> None
                     | Some data \<Rightarrow>
                         (case file_readBytes charcnt f of Undefined \<Rightarrow> None | Throw \<Rightarrow> Some (True, data)
                          | Value (abbr, f) \<Rightarrow> Some (True, data\<lparr>zone_abbreviation := abbr\<rparr>))))))"

definition file_TimeZone :: "string option \<Rightarrow> Data option option" where
  "file_TimeZone zonefile =
     (case readTimeZoneFile zonefile empty_Data of None \<Rightarrow> None
      | Some (ok, data) \<Rightarrow> Some (if ok then Some data else None))"


section \<open>UTC\<close>

lemma to_int_id: "- (2 ^ 31) \<le> x \<Longrightarrow> x < 2 ^ 31 \<Longrightarrow> to_int x = x"
  by (simp add: to_int_def)

definition in_clock :: "int \<Rightarrow> bool" where
  "in_clock s \<longleftrightarrow> (-31738 - kJulianDayOf1970_01_01) * kSecondsPerDay \<le> s \<and> s < (last_julian + 1 - kJulianDayOf1970_01_01) * kSecondsPerDay"

lemma kJulianDay [simp]: "kJulianDayOf1970_01_01 = 2440588"
  by (simp add: kJulianDayOf1970_01_01_def getJulianDayNumber_def)

text \<open>The correction of a negative remainder makes the truncating division the floor division.\<close>

lemma floor_correction:
  fixes s k :: int
  assumes "0 < k"
  shows "(if s smod k < 0 then (s smod k + k, s sdiv k - 1) else (s smod k, s sdiv k)) = (s mod k, s div k)"
proof (cases "0 \<le> s")
  case True
  then have "s sdiv k = s div k" "s smod k = s mod k"
    using assms by (simp_all add: signed_divide_int_def signed_modulo_int_def sgn_if minus_div_mult_eq_mod)
  then show ?thesis using pos_mod_sign [OF assms, of s] by simp
next
  case False
  then have "s sdiv k = - ((- s) div k)" "s smod k = - ((- s) mod k)"
    using assms by (simp_all add: signed_divide_int_def signed_modulo_int_def sgn_if minus_div_mult_eq_mod [symmetric])
  moreover have "0 < (- s) mod k \<or> (- s) mod k = 0" using pos_mod_sign [OF assms, of "- s"] by linarith
  ultimately show ?thesis
    using assms zdiv_zminus1_eq_if [of k "- s"] zmod_zminus1_eq_if [of "- s" k] by auto
qed

lemma smod_bounds: "0 < k \<Longrightarrow> - k < s smod k \<and> s smod k < (k :: int)"
  using smod_int_range [of k s] by auto

text \<open>What \<open>toUtcTime\<close> computes, with the day and the second of the day.\<close>

lemma toUtcTime_floor:
  assumes "in_clock s"
  defines "d \<equiv> getYearMonthDay (s div kSecondsPerDay + kJulianDayOf1970_01_01)" and "n \<equiv> nat (s mod kSecondsPerDay)"
  shows "toUtcTime s yday =
    \<lparr>tm_sec = int (n mod 60), tm_min = int (n div 60 mod 60), tm_hour = int (n div 60 div 60), tm_mday = day d, tm_mon = month d - 1,
      tm_year = year d - 1900, tm_wday = weekDay (s div kSecondsPerDay + kJulianDayOf1970_01_01),
      tm_yday = (if yday then s div kSecondsPerDay + kJulianDayOf1970_01_01 - getJulianDayNumber (year d) 1 1 else 0),
      tm_isdst = 0, tm_gmtoff = 0, tm_zone = Some ''GMT''\<rparr>"
proof -
  have "- kSecondsPerDay < s smod kSecondsPerDay" "s smod kSecondsPerDay < kSecondsPerDay"
    using smod_bounds [of kSecondsPerDay s] by (simp_all add: kSecondsPerDay_def)
  then have 1: "to_int (s smod kSecondsPerDay) = s smod kSecondsPerDay"
    by (intro to_int_id) (auto simp: kSecondsPerDay_def)
  have "- (2 ^ 31) \<le> s sdiv kSecondsPerDay" "s sdiv kSecondsPerDay < 2 ^ 31"
    using assms(1) by (auto simp: in_clock_def last_julian_def kSecondsPerDay_def signed_divide_int_def sgn_if)
  then have 2: "to_int (s sdiv kSecondsPerDay) = s sdiv kSecondsPerDay" by (rule to_int_id)
  have "0 < kSecondsPerDay" by (simp add: kSecondsPerDay_def)
  then show ?thesis
    unfolding toUtcTime_def Let_def 1 2 floor_correction [OF \<open>0 < kSecondsPerDay\<close>]
    by (simp add: fillHMS_def tm_zero_def d_def n_def Let_def)
qed

definition valid_time :: "tm \<Rightarrow> bool" where
  "valid_time t \<longleftrightarrow> in_calendar \<lparr>year = tm_year t + 1900, month = tm_mon t + 1, day = tm_mday t\<rparr> \<and>
     0 \<le> tm_hour t \<and> tm_hour t < 24 \<and> 0 \<le> tm_min t \<and> tm_min t < 60 \<and> 0 \<le> tm_sec t \<and> tm_sec t < 60"

text \<open>The date and the time of day, and the second that follows.\<close>

definition date_time :: "tm \<Rightarrow> YearMonthDay \<times> int \<times> int \<times> int" where
  "date_time t = (\<lparr>year = tm_year t + 1900, month = tm_mon t + 1, day = tm_mday t\<rparr>, tm_hour t, tm_min t, tm_sec t)"

fun tick :: "YearMonthDay \<times> int \<times> int \<times> int \<Rightarrow> YearMonthDay \<times> int \<times> int \<times> int" where
  "tick (d, h, m, s) =
     (if s < 59 then (d, h, m, s + 1) else if m < 59 then (d, h, m + 1, 0)
      else if h < 23 then (d, h + 1, 0, 0) else (next_day d, 0, 0, 0))"

lemma hms:
  fixes n :: nat
  shows "n div 60 div 60 * 3600 + n div 60 mod 60 * 60 + n mod 60 = n"
proof -
  have "n div 60 div 60 * 60 + n div 60 mod 60 = n div 60" by (rule div_mult_mod_eq)
  then have "(n div 60 div 60 * 60 + n div 60 mod 60) * 60 + n mod 60 = n" by (simp only: div_mult_mod_eq)
  then show ?thesis by (simp only: add_mult_distrib mult.assoc)
qed

lemma in_clock_julian: "in_clock s \<Longrightarrow> -31738 \<le> s div kSecondsPerDay + kJulianDayOf1970_01_01"
  using zdiv_mono1 [of "(-31738 - kJulianDayOf1970_01_01) * kSecondsPerDay" s kSecondsPerDay]
  by (simp add: in_clock_def kSecondsPerDay_def)

lemma ymd_eta [simp]: "\<lparr>year = year d, month = month d, day = day d\<rparr> = d"
  by (cases d) simp

lemma fromUtcTime_toUtcTime:
  assumes "in_clock s"
  shows "fromUtcTime (toUtcTime s yday) = s" "valid_time (toUtcTime s yday)"
proof -
  define j n where "j = s div kSecondsPerDay + kJulianDayOf1970_01_01" and "n = nat (s mod kSecondsPerDay)"
  note j = julian_getYearMonthDay [OF in_clock_julian [OF assms], folded j_def]
  have t: "toUtcTime s yday =
    \<lparr>tm_sec = int (n mod 60), tm_min = int (n div 60 mod 60), tm_hour = int (n div 60 div 60), tm_mday = day (getYearMonthDay j),
      tm_mon = month (getYearMonthDay j) - 1, tm_year = year (getYearMonthDay j) - 1900, tm_wday = weekDay j,
      tm_yday = (if yday then j - getJulianDayNumber (year (getYearMonthDay j)) 1 1 else 0),
      tm_isdst = 0, tm_gmtoff = 0, tm_zone = Some ''GMT''\<rparr>"
    using toUtcTime_floor [OF assms, of yday] unfolding j_def n_def .
  have n: "int n = s mod kSecondsPerDay" "n < 86400" by (simp_all add: n_def kSecondsPerDay_def nat_less_iff)
  have h: "int (n div 60 div 60) * 3600 + int (n div 60 mod 60) * 60 + int (n mod 60) = int n"
    using arg_cong [OF hms [of n], of int] by (simp only: of_nat_add of_nat_mult of_nat_numeral)
  have "fromUtcTime (toUtcTime s yday) = (julian (getYearMonthDay j) - kJulianDayOf1970_01_01) * kSecondsPerDay + int n"
    unfolding t fromUtcTime_def fromUtcTime_fields_def Let_def julian_def using h by simp
  also have "\<dots> = s" unfolding j n(1) by (simp add: j_def)
  finally show "fromUtcTime (toUtcTime s yday) = s" .
  have "n div 60 div 60 < 24" using n(2) by simp
  then show "valid_time (toUtcTime s yday)" unfolding t valid_time_def using j(1) by simp
qed

lemma date_time_fromUtcTime:
  assumes "valid_time t" "in_clock (fromUtcTime t)"
  shows "date_time (toUtcTime (fromUtcTime t) yday) = date_time t"
proof -
  define d where "d = \<lparr>year = tm_year t + 1900, month = tm_mon t + 1, day = tm_mday t\<rparr>"
  define n where "n = nat (tm_hour t * 3600 + tm_min t * 60 + tm_sec t)"
  have d: "in_calendar d" and t: "0 \<le> tm_hour t" "tm_hour t < 24" "0 \<le> tm_min t" "tm_min t < 60" "0 \<le> tm_sec t" "tm_sec t < 60"
    using assms(1) by (auto simp: valid_time_def d_def)
  have n: "int n = tm_hour t * 3600 + tm_min t * 60 + tm_sec t" "n < 86400" using t by (auto simp: n_def)
  have s: "fromUtcTime t = kSecondsPerDay * (julian d - kJulianDayOf1970_01_01) + int n"
    unfolding n(1) by (simp add: fromUtcTime_def fromUtcTime_fields_def julian_def d_def Let_def)
  have q: "fromUtcTime t div kSecondsPerDay = julian d - kJulianDayOf1970_01_01"
    by (rule int_div_pos_eq [OF s]) (use n(2) in \<open>auto simp: kSecondsPerDay_def\<close>)
  have r: "fromUtcTime t mod kSecondsPerDay = int n"
    by (rule int_mod_pos_eq [OF s]) (use n(2) in \<open>auto simp: kSecondsPerDay_def\<close>)
  have m: "int n div 60 = tm_hour t * 60 + tm_min t" "int n mod 60 = tm_sec t"
    by (rule int_div_pos_eq [of _ _ _ "tm_sec t"], insert n(1) t, auto) (rule int_mod_pos_eq [of _ _ "tm_hour t * 60 + tm_min t"], auto)
  have "int (n mod 60) = tm_sec t" "int (n div 60 mod 60) = tm_min t" "int (n div 60 div 60) = tm_hour t"
    unfolding zmod_int zdiv_int of_nat_numeral m using t by simp_all
  then show ?thesis
    unfolding toUtcTime_floor [OF assms(2)] q r date_time_def
    using getYearMonthDay_julian [OF d] by (simp add: d_def)
qed

lemma tick_date_time:
  assumes "in_clock s" "in_clock (s + 1)"
  shows "date_time (toUtcTime (s + 1) yday) = tick (date_time (toUtcTime s yday))"
proof -
  define j n where "j = s div kSecondsPerDay + kJulianDayOf1970_01_01" and "n = nat (s mod kSecondsPerDay)"
  define clock where "clock = (\<lambda>j n. (getYearMonthDay j, int (n div 60 div 60), int (n div 60 mod 60), int (n mod 60)))"
  have t: "date_time (toUtcTime s yday) = clock j n"
    unfolding toUtcTime_floor [OF assms(1)] date_time_def clock_def j_def n_def by simp
  have n: "int n = s mod kSecondsPerDay" "n < 86400" by (simp_all add: n_def kSecondsPerDay_def nat_less_iff)
  have s: "s = kSecondsPerDay * (s div kSecondsPerDay) + int n" unfolding n(1) by simp
  have t1: "date_time (toUtcTime (s + 1) yday) =
      clock ((s + 1) div kSecondsPerDay + kJulianDayOf1970_01_01) (nat ((s + 1) mod kSecondsPerDay))"
    unfolding toUtcTime_floor [OF assms(2)] date_time_def clock_def by simp
  show ?thesis
  proof (cases "n = 86399")
    case True
    then have s1: "s + 1 = kSecondsPerDay * (s div kSecondsPerDay + 1) + 0" using s by (simp add: kSecondsPerDay_def)
    have "(s + 1) div kSecondsPerDay = s div kSecondsPerDay + 1" by (rule int_div_pos_eq [OF s1]) (simp_all add: kSecondsPerDay_def)
    moreover have "(s + 1) mod kSecondsPerDay = 0" by (rule int_mod_pos_eq [OF s1]) (simp_all add: kSecondsPerDay_def)
    ultimately have "date_time (toUtcTime (s + 1) yday) = clock (j + 1) 0" unfolding t1 by (simp add: j_def)
    moreover have "getYearMonthDay (j + 1) = next_day (getYearMonthDay j)"
      using getYearMonthDay_next [OF in_clock_julian [OF assms(1)]] by (simp add: j_def)
    ultimately show ?thesis unfolding t using True by (simp add: clock_def)
  next
    case False
    have s1: "s + 1 = kSecondsPerDay * (s div kSecondsPerDay) + int (n + 1)" using s by simp
    have m: "int (n + 1) < kSecondsPerDay" using n(2) False by (simp add: kSecondsPerDay_def)
    have "(s + 1) div kSecondsPerDay = s div kSecondsPerDay" by (rule int_div_pos_eq [OF s1 _ m]) simp
    moreover have "(s + 1) mod kSecondsPerDay = int (n + 1)" by (rule int_mod_pos_eq [OF s1 _ m]) simp
    ultimately have "date_time (toUtcTime (s + 1) yday) = clock j (n + 1)" unfolding t1 by (simp add: j_def nat_add_distrib)
    moreover have "clock j (n + 1) = tick (clock j n)"
    proof -
      define a b c where "a = n div 60 div 60" and "b = n div 60 mod 60" and "c = n mod 60"
      have abc: "a < 24" "b < 60" "c < 60" using n(2) by (simp_all add: a_def b_def c_def)
      have no: "\<not> (a = 23 \<and> b = 59 \<and> c = 59)" using hms [of n] False unfolding a_def [symmetric] b_def [symmetric] c_def [symmetric] by auto
      have "(n + 1) mod 60 = (if c = 59 then 0 else c + 1)" by (simp add: c_def mod_Suc)
      moreover have q: "(n + 1) div 60 = (if c = 59 then n div 60 + 1 else n div 60)" by (auto simp: c_def div_Suc mod_Suc)
      moreover have "(n div 60 + 1) mod 60 = (if b = 59 then 0 else b + 1)" "(n div 60 + 1) div 60 = (if b = 59 then a + 1 else a)"
        by (auto simp: a_def b_def div_Suc mod_Suc)
      ultimately have "clock j (n + 1) = (getYearMonthDay j, int (if c = 59 then if b = 59 then a + 1 else a else a),
          int (if c = 59 then if b = 59 then 0 else b + 1 else b), int (if c = 59 then 0 else c + 1))"
        unfolding clock_def by (simp only: a_def [symmetric] b_def [symmetric] split: if_split) simp
      moreover have "clock j n = (getYearMonthDay j, int a, int b, int c)" by (simp add: clock_def a_def b_def c_def)
      ultimately show ?thesis using abc no by auto
    qed
    ultimately show ?thesis unfolding t by simp
  qed
qed

text \<open>The day of the year, counted from the lengths of the months.\<close>

definition day_of_year :: "YearMonthDay \<Rightarrow> int" where
  "day_of_year d = sum_list (map (month_length (year d)) [1..month d - 1]) + day d - 1"

lemma julian_day_of_year:
  assumes "in_calendar d"
  shows "julian d = getJulianDayNumber (year d) 1 1 + day_of_year d"
proof -
  note d = in_calendarD [OF assms]
  have f: "in_calendar \<lparr>year = year d, month = 1, day = 1\<rparr>"
    using d(5) by (simp add: in_calendar_def valid_date_def month_length_def)
  define z where "z = year_days (year d + 4799)"
  have y: "year_days (year d + 4800) = z + (if leap (year d) then 366 else 365)"
    using year_days_pred [of "year d + 4800"] by (simp add: leap_shift z_def add.commute)
  have z: "year_days (year d + 4799) = z" "year_days (4799 + year d) = z" by (simp_all add: z_def add.commute)
  have "getJulianDayNumber (year d) 1 1 = z - 32045 + 307"
    using julian_year_days [OF f] z by (simp add: julian_def)
  then show ?thesis unfolding julian_year_days [OF assms]
    using y z by (cases rule: month_cases [OF d(1,2)]; simp add: day_of_year_def month_length_def upto.simps split: if_splits)
qed


section \<open>The offset in force\<close>

lemma lower_bound_partition:
  assumes "first \<le> p" "p \<le> first + len" "first + len \<le> length xs"
    and "\<And>i. i < p \<Longrightarrow> before (xs ! i)" "\<And>i. p \<le> i \<Longrightarrow> i < length xs \<Longrightarrow> \<not> before (xs ! i)"
  shows "lower_bound before xs first len = p"
  using assms
proof (induction before xs first len rule: lower_bound.induct)
  case (1 before xs first len)
  show ?case
  proof (cases "len = 0")
    case True
    then show ?thesis using "1.prems" by (subst lower_bound.simps) simp
  next
    case False
    define middle where "middle = first + len div 2"
    have m: "middle < first + len" using False by (simp add: middle_def)
    show ?thesis
    proof (cases "before (xs ! middle)")
      case True
      then have "middle < p" using "1.prems"(3,5) m by (meson less_le_trans not_le)
      then have "lower_bound before xs (middle + 1) (len - len div 2 - 1) = p"
        using "1.IH"(1) [OF False refl refl] True "1.prems" by (simp add: middle_def)
      then show ?thesis using False True by (subst lower_bound.simps) (simp add: middle_def Let_def)
    next
      case False
      then have "p \<le> middle" using "1.prems"(4) by (meson not_le)
      then have "lower_bound before xs first (len div 2) = p"
        using "1.IH"(2) [OF \<open>len \<noteq> 0\<close> refl refl] False "1.prems" by (simp add: middle_def)
      then show ?thesis using False \<open>len \<noteq> 0\<close> by (subst lower_bound.simps) (simp add: middle_def Let_def)
    qed
  qed
qed

definition key :: "bool \<Rightarrow> Transition \<Rightarrow> int" where
  "key gmt t = (if gmt then gmttime t else localtime t)"

lemma comp_key: "comp_less c a b \<longleftrightarrow> key c a < key c b" "comp_equal c a b \<longleftrightarrow> key c a = key c b"
  by (simp_all add: comp_less_def comp_equal_def key_def)

text \<open>The entry of the last transition that is not later, and the first entry before all transitions.\<close>

definition in_force :: "bool \<Rightarrow> Data \<Rightarrow> int \<Rightarrow> Localtime option" where
  "in_force c data v =
     (let past = filter (\<lambda>t. key c t \<le> v) (transitions data)
      in vector_nth (localtimes data) (if past = [] then 0 else localtimeIdx (last past)))"

lemma findLocaltime_in_force:
  assumes "sorted_wrt (<) (map (key c) (transitions data))"
  shows "findLocaltime data sentry c = in_force c data (key c sentry)"
proof -
  define v ts where "v = key c sentry" and "ts = transitions data"
  define as bs where "as = takeWhile (\<lambda>t. key c t < v) ts" and "bs = dropWhile (\<lambda>t. key c t < v) ts"
  have ts: "ts = as @ bs" by (simp add: as_def bs_def)
  have s: "sorted_wrt (<) (map (key c) (as @ bs))" using assms unfolding ts_def [symmetric] ts .
  have a: "key c t < v" if "t \<in> set as" for t using that by (auto simp: as_def dest: set_takeWhileD)
  have b: "v \<le> key c t" if "t \<in> set bs" for t
  proof -
    have "bs \<noteq> []" using that by auto
    then have "\<not> key c (hd bs) < v" using hd_dropWhile [of "\<lambda>t. key c t < v" ts] by (simp add: bs_def)
    with s that show ?thesis by (cases bs) (auto simp: sorted_wrt_append)
  qed
  have p: "lower_bound (\<lambda>t. key c t < v) (as @ bs) 0 (length (as @ bs)) = length as"
    by (rule lower_bound_partition) (use a b in \<open>auto simp: nth_append not_less\<close>)
  have fa: "filter (\<lambda>t. key c t \<le> v) as = as" using a by (force intro: filter_True)
  show ?thesis
  proof (cases bs)
    case Nil
    show ?thesis
      unfolding findLocaltime_def in_force_def comp_key v_def [symmetric] ts_def [symmetric] ts Let_def p
      using Nil fa a [OF hd_in_set] by (cases "as = []") auto
  next
    case (Cons t bs')
    have "v < key c u" if "u \<in> set bs'" for u using s b [of t] that Cons by (auto simp: sorted_wrt_append)
    then have fb: "filter (\<lambda>t. key c t \<le> v) bs' = []" by (force simp: filter_empty_conv)
    have vt: "v \<le> key c t" using b [of t] Cons by simp
    show ?thesis
    proof (cases "as = []")
      case True
      show ?thesis
        unfolding findLocaltime_def in_force_def comp_key v_def [symmetric] ts_def [symmetric] ts Let_def p
        using Cons True fb vt by auto
    next
      case False
      then have h: "hd (as @ bs) \<in> set as" "as ! (length as - 1) = last as" by (simp_all add: last_conv_nth)
      show ?thesis
        unfolding findLocaltime_def in_force_def comp_key v_def [symmetric] ts_def [symmetric] ts Let_def p filter_append fa
        using Cons False fb vt h a [OF h(1)] by (auto simp: nth_append)
    qed
  qed
qed


text \<open>A zone whose vectors fit together, as the reader of a well-formed file makes it.\<close>

definition zone_ok :: "Data \<Rightarrow> bool" where
  "zone_ok data \<longleftrightarrow> localtimes data \<noteq> [] \<and>
     sorted_wrt (<) (map gmttime (transitions data)) \<and> sorted_wrt (<) (map localtime (transitions data)) \<and>
     (\<forall>t\<in>set (transitions data). localtimeIdx t < length (localtimes data) \<and>
        localtime t = gmttime t + gmtOffset (localtimes data ! localtimeIdx t)) \<and>
     (\<forall>l\<in>set (localtimes data). arrbIdx l \<le> length (zone_abbreviation data))"

definition local_at :: "Data \<Rightarrow> int \<Rightarrow> Localtime" where
  "local_at data s =
     (let past = filter (\<lambda>t. gmttime t \<le> s) (transitions data)
      in localtimes data ! (if past = [] then 0 else localtimeIdx (last past)))"

lemma zone_okD:
  assumes "zone_ok data"
  shows "localtimes data \<noteq> []" "sorted_wrt (<) (map (key c) (transitions data))"
    "t \<in> set (transitions data) \<Longrightarrow> localtimeIdx t < length (localtimes data)"
    "t \<in> set (transitions data) \<Longrightarrow> localtime t = gmttime t + gmtOffset (localtimes data ! localtimeIdx t)"
    "l \<in> set (localtimes data) \<Longrightarrow> arrbIdx l \<le> length (zone_abbreviation data)"
  using assms unfolding zone_ok_def by (cases c; auto simp: key_def [abs_def])+

lemma last_filter_mem: "filter P xs \<noteq> [] \<Longrightarrow> last (filter P xs) \<in> set xs \<and> P (last (filter P xs))"
  using last_in_set [of "filter P xs"] by simp

lemma findLocaltime_gmt:
  assumes "zone_ok data"
  shows "findLocaltime data \<lparr>gmttime = s, localtime = l, localtimeIdx = k\<rparr> True = Some (local_at data s)"
    and "local_at data s \<in> set (localtimes data)"
proof -
  define past where "past = filter (\<lambda>t. gmttime t \<le> s) (transitions data)"
  define i where "i = (if past = [] then 0 else localtimeIdx (last past))"
  have "i < length (localtimes data)"
    using zone_okD(1) [OF assms] zone_okD(3) [OF assms, of "last past"] last_filter_mem [of "\<lambda>t. gmttime t \<le> s" "transitions data"]
    by (auto simp: i_def past_def)
  moreover have "local_at data s = localtimes data ! i" by (simp add: local_at_def i_def past_def)
  moreover have "in_force True data s = vector_nth (localtimes data) i" by (simp add: in_force_def i_def past_def key_def)
  ultimately show "local_at data s \<in> set (localtimes data)" "findLocaltime data \<lparr>gmttime = s, localtime = l, localtimeIdx = k\<rparr> True = Some (local_at data s)"
    using findLocaltime_in_force [OF zone_okD(2) [OF assms, of True]] by (simp_all add: vector_nth_def key_def)
qed

definition local_tm :: "(int \<Rightarrow> tm) \<Rightarrow> Data \<Rightarrow> int \<Rightarrow> tm" where
  "local_tm gmtime data s =
     (let l = local_at data s
      in (gmtime (s + gmtOffset l))
        \<lparr>tm_isdst := if isDst l then 1 else 0, tm_gmtoff := gmtOffset l,
         tm_zone := Some (takeWhile (\<lambda>c. c \<noteq> NUL) (drop (arrbIdx l) (zone_abbreviation data)))\<rparr>)"

lemma toLocalTime_zone_ok:
  assumes "zone_ok data"
  shows "toLocalTime gmtime (Some data) s = Some (local_tm gmtime data s)"
  using findLocaltime_gmt(1) [OF assms] zone_okD(5) [OF assms findLocaltime_gmt(2) [OF assms]]
  by (simp add: toLocalTime_def local_tm_def c_str_from_def Let_def)

text \<open>
  The wall clock reads the time of \<open>s\<close> only once if no later transition sets it back to that time or before;
  \<open>dst_hour\<close> is the hour that is repeated when daylight saving time ends, the first time.
\<close>

definition read_once :: "Data \<Rightarrow> int \<Rightarrow> bool" where
  "read_once data s \<longleftrightarrow> (\<forall>t\<in>set (transitions data). s < gmttime t \<longrightarrow> s + gmtOffset (local_at data s) < localtime t)"

definition dst_hour :: "Data \<Rightarrow> int \<Rightarrow> bool" where
  "dst_hour data s \<longleftrightarrow> isDst (local_at data s) \<and> \<not> isDst (local_at data (s + 3600)) \<and>
     gmtOffset (local_at data (s + 3600)) = gmtOffset (local_at data s) - 3600 \<and> read_once data (s + 3600)"

lemma findLocaltime_local:
  assumes "zone_ok data" "read_once data s"
  shows "findLocaltime data \<lparr>gmttime = g, localtime = s + gmtOffset (local_at data s), localtimeIdx = i\<rparr> False = Some (local_at data s)"
proof -
  define past where "past = filter (\<lambda>t. gmttime t \<le> s) (transitions data)"
  have "localtime t \<le> s + gmtOffset (local_at data s) \<longleftrightarrow> gmttime t \<le> s" if t: "t \<in> set (transitions data)" for t
  proof
    show "gmttime t \<le> s" if "localtime t \<le> s + gmtOffset (local_at data s)"
      using assms(2) t that by (force simp: read_once_def)
    assume "gmttime t \<le> s"
    then have "t \<in> set past" using t by (simp add: past_def)
    then have "past \<noteq> []" by auto
    then have lp: "local_at data s = localtimes data ! localtimeIdx (last past)" by (simp add: local_at_def past_def)
    have l: "last past \<in> set (transitions data)" "gmttime (last past) \<le> s"
      using last_filter_mem \<open>past \<noteq> []\<close> unfolding past_def by fast+
    have "sorted_wrt (<) (map localtime past)"
      using zone_okD(2) [OF assms(1), of False] sorted_wrt_filter
      by (simp add: past_def key_def [abs_def] sorted_wrt_map)
    then have "localtime t \<le> localtime (last past)"
      using \<open>t \<in> set past\<close> \<open>past \<noteq> []\<close> by (cases past rule: rev_cases) (auto simp: sorted_wrt_append)
    then show "localtime t \<le> s + gmtOffset (local_at data s)"
      using zone_okD(4) [OF assms(1) l(1)] l(2) lp by simp
  qed
  then have f: "filter (\<lambda>t. localtime t \<le> s + gmtOffset (local_at data s)) (transitions data) = past"
    unfolding past_def by (auto intro: filter_cong)
  have "vector_nth (localtimes data) (if past = [] then 0 else localtimeIdx (last past)) = Some (local_at data s)"
    using zone_okD(1) [OF assms(1)] zone_okD(3) [OF assms(1), of "last past"] last_filter_mem [of "\<lambda>t. gmttime t \<le> s" "transitions data"]
    by (auto simp: past_def vector_nth_def local_at_def Let_def)
  moreover have "in_force False data (s + gmtOffset (local_at data s)) = vector_nth (localtimes data) (if past = [] then 0 else localtimeIdx (last past))"
    by (simp only: in_force_def key_def if_False f Let_def)
  ultimately show ?thesis
    using findLocaltime_in_force [OF zone_okD(2) [OF assms(1), of False]] by (simp add: key_def)
qed

lemma local_time_inverse:
  assumes "zone_ok data" "read_once data s \<or> dst_hour data s"
    and "timegm (local_tm gmtime data s) = s + gmtOffset (local_at data s)"
  shows "fromLocalTime gmtime timegm (Some data) (local_tm gmtime data s) = Some s"
  using assms(2)
proof
  assume "read_once data s"
  from findLocaltime_local [OF assms(1) this] show ?thesis
    by (simp add: fromLocalTime_def assms(3)) (simp add: toLocalTime_zone_ok [OF assms(1)] local_tm_def Let_def)
next
  assume d: "dst_hour data s"
  then have o: "gmtOffset (local_at data s) = gmtOffset (local_at data (s + 3600)) + 3600" "isDst (local_at data s)" "\<not> isDst (local_at data (s + 3600))"
    and r: "read_once data (s + 3600)" by (auto simp: dst_hour_def)
  from findLocaltime_local [OF assms(1) r]
  have "findLocaltime data \<lparr>gmttime = 0, localtime = timegm (local_tm gmtime data s), localtimeIdx = 0\<rparr> False = Some (local_at data (s + 3600))"
    unfolding assms(3) o(1) by (simp add: algebra_simps)
  moreover have "timegm (local_tm gmtime data s) - gmtOffset (local_at data (s + 3600)) = s + 3600" unfolding assms(3) o(1) by simp
  ultimately show ?thesis
    using o by (simp add: fromLocalTime_def Let_def toLocalTime_zone_ok [OF assms(1)]) (simp add: local_tm_def Let_def algebra_simps)
qed


section \<open>Reading what was written\<close>

definition enc32 :: "int \<Rightarrow> string" where
  "enc32 x =
     (let n = nat (x mod 2 ^ 32)
      in [char_of (n div 16777216 mod 256), char_of (n div 65536 mod 256), char_of (n div 256 mod 256), char_of (n mod 256)])"

definition fits32 :: "int \<Rightarrow> bool" where
  "fits32 x \<longleftrightarrow> - (2 ^ 31) \<le> x \<and> x < 2 ^ 31"

lemma be_value_enc32: "be_value (enc32 x) = x mod 2 ^ 32"
proof -
  define n where "n = nat (x mod 2 ^ 32)"
  have n: "int n = x mod 2 ^ 32" "n < 4294967296" by (simp_all add: n_def nat_less_iff)
  have d: "n div 65536 = n div 256 div 256" "n div 16777216 = n div 256 div 256 div 256"
    using div_mult2_eq [of n 256 256] div_mult2_eq [of n 65536 256] by simp_all
  have "n div 16777216 < 256" by (rule less_mult_imp_div_less) (use n(2) in simp)
  then have "n div 256 div 256 div 256 mod 256 = n div 256 div 256 div 256" unfolding d(2) by (rule mod_less)
  then have "((n div 16777216 mod 256 * 256 + n div 65536 mod 256) * 256 + n div 256 mod 256) * 256 + n mod 256 = n"
    unfolding d by (simp only: div_mult_mod_eq)
  moreover have "enc32 x = [char_of (n div 16777216 mod 256), char_of (n div 65536 mod 256), char_of (n div 256 mod 256), char_of (n mod 256)]"
    by (simp only: enc32_def Let_def n_def)
  moreover have "uchar (char_of (m mod 256)) = m mod 256" for m :: nat by (rule uchar_char_of) simp
  moreover have "be_value [a, b, c, d] = int (((uchar a * 256 + uchar b) * 256 + uchar c) * 256 + uchar d)" for a b c d
    by (simp add: be_value_def)
  ultimately show ?thesis by (simp only: n(1))
qed

lemma file_readInt32_enc32 [simp]: "fits32 x \<Longrightarrow> file_readInt32 (enc32 x @ f) = Value (x, f)"
proof -
  have "length (enc32 x) = 4" by (simp add: enc32_def Let_def)
  moreover assume "fits32 x"
  then have "to_int (x mod 2 ^ 32) = x" unfolding fits32_def to_int_def mod_add_left_eq by simp
  ultimately show ?thesis by (simp add: file_readInt32_def be_value_enc32)
qed

lemma file_readUInt8_char [simp]: "n < 256 \<Longrightarrow> file_readUInt8 (char_of n # f) = Value (n, f)"
  by (simp add: file_readUInt8_def)

lemma read_vector_encoded:
  "(\<And>x f. x \<in> set xs \<Longrightarrow> rd (enc x @ f) = Value (x, f)) \<Longrightarrow> read_vector (length xs) rd (concat (map enc xs) @ f) = Value (xs, f)"
  by (induction xs) auto

definition enc_Localtime :: "Localtime \<Rightarrow> string" where
  "enc_Localtime l = enc32 (gmtOffset l) @ [char_of (if isDst l then 1 else 0 :: nat), char_of (arrbIdx l)]"

definition enc_byte :: "nat \<Rightarrow> string" where
  "enc_byte n = [char_of n]"

lemma read_Localtime_encoded:
  "fits32 (gmtOffset l) \<Longrightarrow> arrbIdx l < 256 \<Longrightarrow> read_Localtime (enc_Localtime l @ f) = Value (l, f)"
  by (cases l) (simp add: read_Localtime_def enc_Localtime_def)

lemma push_localtimes_encoded:
  assumes "\<forall>l\<in>set ls. fits32 (gmtOffset l) \<and> arrbIdx l < 256"
  shows "push_localtimes (length ls) (concat (map enc_Localtime ls) @ f) data = (data\<lparr>localtimes := localtimes data @ ls\<rparr>, Some f)"
  using assms by (induction ls arbitrary: data) (simp_all add: read_Localtime_encoded)

lemma push_transitions_encoded:
  assumes "\<forall>t\<in>set ts. localtimeIdx t < length (localtimes data) \<and> localtime t = gmttime t + gmtOffset (localtimes data ! localtimeIdx t)"
  shows "push_transitions (map gmttime ts) (map localtimeIdx ts) data = Some (data\<lparr>transitions := transitions data @ ts\<rparr>)"
  using assms
proof (induction ts arbitrary: data)
  case (Cons t ts)
  then have "vector_nth (localtimes data) (localtimeIdx t) = Some (localtimes data ! localtimeIdx t)" by (simp add: vector_nth_def)
  moreover have "\<lparr>gmttime = gmttime t, localtime = gmttime t + gmtOffset (localtimes data ! localtimeIdx t), localtimeIdx = localtimeIdx t\<rparr> = t"
    using Cons.prems by (cases t) simp
  ultimately show ?case using Cons.prems by (simp add: Cons.IH)
qed simp

text \<open>A file in the format of version 1; \<open>rest\<close> holds the leap seconds, the indicators and the data of later versions.\<close>

definition tz_file :: "Data \<Rightarrow> char \<Rightarrow> string \<Rightarrow> int \<Rightarrow> int \<Rightarrow> int \<Rightarrow> string \<Rightarrow> string" where
  "tz_file data version reserved isgmtcnt isstdcnt leapcnt rest =
     ''TZif'' @ [version] @ reserved @ enc32 isgmtcnt @ enc32 isstdcnt @ enc32 leapcnt @
     enc32 (int (length (transitions data))) @ enc32 (int (length (localtimes data))) @ enc32 (int (length (zone_abbreviation data))) @
     concat (map enc32 (map gmttime (transitions data))) @ concat (map enc_byte (map localtimeIdx (transitions data))) @
     concat (map enc_Localtime (localtimes data)) @ zone_abbreviation data @ rest"

definition encodable :: "Data \<Rightarrow> bool" where
  "encodable data \<longleftrightarrow> zone_names data = [] \<and>
     length (transitions data) < 2 ^ 31 \<and> length (localtimes data) < 2 ^ 31 \<and> length (zone_abbreviation data) < 2 ^ 31 \<and>
     (\<forall>t\<in>set (transitions data). fits32 (gmttime t) \<and> localtimeIdx t < 256 \<and> localtimeIdx t < length (localtimes data) \<and>
        localtime t = gmttime t + gmtOffset (localtimes data ! localtimeIdx t)) \<and>
     (\<forall>l\<in>set (localtimes data). fits32 (gmtOffset l) \<and> arrbIdx l < 256)"

lemma file_readBytes_append: "length bs = nat n \<Longrightarrow> 0 \<le> n \<Longrightarrow> file_readBytes n (bs @ f) = Value (bs, f)"
  by (simp add: file_readBytes_def)

lemma read_head_encoded:
  assumes "encodable data" "length reserved = 15" "fits32 isgmtcnt" "fits32 isstdcnt" "fits32 leapcnt"
  shows "read_head (tz_file data version reserved isgmtcnt isstdcnt leapcnt rest) =
    Value (map gmttime (transitions data), map localtimeIdx (transitions data), int (length (localtimes data)),
      int (length (zone_abbreviation data)), concat (map enc_Localtime (localtimes data)) @ zone_abbreviation data @ rest)"
proof -
  have c: "fits32 (int (length (transitions data)))" "fits32 (int (length (localtimes data)))" "fits32 (int (length (zone_abbreviation data)))"
    using assms(1) by (simp_all add: encodable_def fits32_def)
  have "read_vector (length (map gmttime (transitions data))) file_readInt32 (concat (map enc32 (map gmttime (transitions data))) @ f) =
      Value (map gmttime (transitions data), f)" for f
    by (rule read_vector_encoded) (use assms(1) in \<open>auto simp: encodable_def\<close>)
  note v = this [unfolded length_map]
  have "read_vector (length (map localtimeIdx (transitions data))) file_readUInt8 (concat (map enc_byte (map localtimeIdx (transitions data))) @ f) =
      Value (map localtimeIdx (transitions data), f)" for f
    by (rule read_vector_encoded) (use assms(1) in \<open>auto simp: encodable_def enc_byte_def\<close>)
  note i = this [unfolded length_map]
  have 1: "file_readBytes 4 (''TZif'' @ f) = Value (''TZif'', f)" "file_readBytes 1 ([version] @ f) = Value ([version], f)"
    "file_readBytes 15 (reserved @ f) = Value (reserved, f)" for f
    by (rule file_readBytes_append; use assms(2) in simp)+
  show ?thesis
    unfolding read_head_def tz_file_def 1 chain.simps prod.case
    by (simp only: c assms(3-5) file_readInt32_enc32 chain.simps prod.case nat_int v i) simp
qed

lemma readTimeZoneFile_encoded:
  assumes "encodable data" "length reserved = 15" "fits32 isgmtcnt" "fits32 isstdcnt" "fits32 leapcnt"
  shows "readTimeZoneFile (Some (tz_file data version reserved isgmtcnt isstdcnt leapcnt rest)) empty_Data = Some (True, data)"
proof -
  have l: "push_localtimes (length (localtimes data)) (concat (map enc_Localtime (localtimes data)) @ f) empty_Data =
      (empty_Data\<lparr>localtimes := localtimes data\<rparr>, Some f)" for f
    using push_localtimes_encoded [of "localtimes data" f empty_Data] assms(1) by (simp add: encodable_def empty_Data_def)
  have t: "push_transitions (map gmttime (transitions data)) (map localtimeIdx (transitions data)) (empty_Data\<lparr>localtimes := localtimes data\<rparr>) =
      Some (empty_Data\<lparr>localtimes := localtimes data, transitions := transitions data\<rparr>)"
    using push_transitions_encoded [of "transitions data" "empty_Data\<lparr>localtimes := localtimes data\<rparr>"] assms(1)
    by (simp add: encodable_def empty_Data_def)
  have b: "file_readBytes (int (length (zone_abbreviation data))) (zone_abbreviation data @ rest) = Value (zone_abbreviation data, rest)"
    by (simp add: file_readBytes_append)
  have "zone_names data = []" using assms(1) by (simp add: encodable_def)
  then show ?thesis
    unfolding readTimeZoneFile_def option.case read_head_encoded [OF assms] read_outcome.case prod.case nat_int l t b
    by (cases data) (simp add: empty_Data_def)
qed

text \<open>The reader never answers \<open>false\<close>; a zone of a file that cannot be opened is valid, and has no offset to work with.\<close>

lemma readTimeZoneFile_true: "readTimeZoneFile f data = Some (ok, data') \<Longrightarrow> ok"
  by (auto simp: readTimeZoneFile_def split: option.splits read_outcome.splits prod.splits)

lemma missing_zone_file_valid:
  "file_TimeZone None = Some (Some empty_Data)" "toLocalTime gmtime (Some empty_Data) s = None"
  by (simp_all add: file_TimeZone_def readTimeZoneFile_def toLocalTime_def findLocaltime_def empty_Data_def vector_nth_def)


section \<open>Properties\<close>



text \<open>C25: \<open>toUtcTime\<close> is a clock: it shows midnight of 1970-01-01 at 0, every second moves it on by one second of the
  calendar, the fields are in range, the day of the year counts from the first of January, and \<open>fromUtcTime\<close> gives the seconds
  back, also before the epoch, where the remainders of C are negative. Conversely a valid time is shown again at its seconds.\<close>

theorem utc_clock:
  assumes "in_clock s"
  shows "fromUtcTime (toUtcTime s yday) = s \<and> valid_time (toUtcTime s yday) \<and>
    date_time (toUtcTime 0 yday) = (\<lparr>year = 1970, month = 1, day = 1\<rparr>, 0, 0, 0) \<and>
    (in_clock (s + 1) \<longrightarrow> date_time (toUtcTime (s + 1) yday) = tick (date_time (toUtcTime s yday))) \<and>
    tm_yday (toUtcTime s True) = day_of_year (fst (date_time (toUtcTime s True))) \<and>
    (\<forall>t. valid_time t \<and> fromUtcTime t = s \<longrightarrow> date_time (toUtcTime s yday) = date_time t)"
proof -
  have "in_clock 0" by (simp add: in_clock_def kSecondsPerDay_def last_julian_def)
  then have "date_time (toUtcTime 0 yday) = (\<lparr>year = 1970, month = 1, day = 1\<rparr>, 0, 0, 0)"
    by (simp add: toUtcTime_floor date_time_def getYearMonthDay_def)
  moreover have "tm_yday (toUtcTime s True) = day_of_year (fst (date_time (toUtcTime s True)))"
    using julian_day_of_year [OF julian_getYearMonthDay(1) [OF in_clock_julian [OF assms]]]
      julian_getYearMonthDay(2) [OF in_clock_julian [OF assms]]
    by (simp add: toUtcTime_floor [OF assms] date_time_def)
  ultimately show ?thesis
    using fromUtcTime_toUtcTime [OF assms] tick_date_time [OF assms] date_time_fromUtcTime assms by blast
qed

theorem utc_clock_witness:
  "fromUtcTime (toUtcTime (-1) True) = -1 \<and> date_time (toUtcTime (-1) True) = (\<lparr>year = 1969, month = 12, day = 31\<rparr>, 23, 59, 59)"
proof -
  have "in_clock (-1)" by (simp add: in_clock_def kSecondsPerDay_def last_julian_def)
  from utc_clock [OF this, of True] have "fromUtcTime (toUtcTime (-1) True) = -1" by (rule conjunct1)
  moreover have "date_time (toUtcTime (-1) True) = (\<lparr>year = 1969, month = 12, day = 31\<rparr>, 23, 59, 59)"
    using toUtcTime_floor [OF \<open>in_clock (-1)\<close>, of True] by (simp add: date_time_def kSecondsPerDay_def getYearMonthDay_def)
  ultimately show ?thesis by (rule conjI)
qed

text \<open>C27: In a zone whose transitions are in order, \<open>toLocalTime\<close> uses the offset of the last transition that is not later (the
  first entry before all transitions), found by binary search, and \<open>fromLocalTime\<close> gives the seconds back whenever the wall clock
  shows this time only once, and also in the hour that is repeated at the end of daylight saving time, the first time.
  \<open>gmtime_r\<close> and \<open>timegm\<close> are parameters; it is used that \<open>timegm\<close> inverts \<open>gmtime_r\<close> at this place.\<close>

theorem local_time_roundtrip:
  assumes "zone_ok data" "read_once data s \<or> dst_hour data s"
    and "toLocalTime gmtime (Some data) s = Some t" "timegm t = s + tm_gmtoff t"
  shows "tm_gmtoff t = gmtOffset (local_at data s) \<and> fromLocalTime gmtime timegm (Some data) t = Some s"
proof -
  have t: "t = local_tm gmtime data s" using assms(3) toLocalTime_zone_ok [OF assms(1)] by simp
  then have "tm_gmtoff t = gmtOffset (local_at data s)" by (simp add: local_tm_def Let_def)
  then show ?thesis using local_time_inverse [OF assms(1,2), of timegm gmtime] assms(4) t by simp
qed

text \<open>Central European time in the year 2000; the witness is half an hour before the clocks are set back in October.\<close>

definition cet :: Data where
  "cet = \<lparr>transitions = [\<lparr>gmttime = 954032400, localtime = 954039600, localtimeIdx = 1\<rparr>, \<lparr>gmttime = 972781200, localtime = 972784800, localtimeIdx = 0\<rparr>],
     localtimes = [\<lparr>gmtOffset = 3600, isDst = False, arrbIdx = 0\<rparr>, \<lparr>gmtOffset = 7200, isDst = True, arrbIdx = 4\<rparr>],
     zone_names = [], zone_abbreviation = ''CET'' @ [NUL] @ ''CEST'' @ [NUL]\<rparr>"

theorem local_time_roundtrip_witness:
  "fromLocalTime (\<lambda>s. toUtcTime s True) fromUtcTime (Some cet) (local_tm (\<lambda>s. toUtcTime s True) cet 972779400) = Some 972779400"
proof -
  have z: "zone_ok cet" by (simp add: zone_ok_def cet_def)
  have d: "dst_hour cet 972779400" by (simp add: dst_hour_def read_once_def local_at_def cet_def)
  have "in_clock (972779400 + gmtOffset (local_at cet 972779400))"
    by (simp add: in_clock_def kSecondsPerDay_def last_julian_def local_at_def cet_def)
  then have "fromUtcTime (local_tm (\<lambda>s. toUtcTime s True) cet 972779400) = 972779400 + tm_gmtoff (local_tm (\<lambda>s. toUtcTime s True) cet 972779400)"
    using fromUtcTime_toUtcTime(1) by (simp add: local_tm_def Let_def fromUtcTime_def)
  from local_time_roundtrip [where timegm = fromUtcTime, OF z disjI2 [OF d] toLocalTime_zone_ok [OF z, of "\<lambda>s. toUtcTime s True"] this] show ?thesis by (rule conjunct2)
qed

text \<open>C28: A time zone file is read as it was written: for every zone whose numbers fit into the format, whatever stands in the
  other fields of the head and behind the abbreviations, the constructor makes the object of that zone.\<close>

theorem time_zone_file_roundtrip:
  assumes "encodable data" "length reserved = 15" "fits32 isgmtcnt" "fits32 isstdcnt" "fits32 leapcnt"
  shows "file_TimeZone (Some (tz_file data version reserved isgmtcnt isstdcnt leapcnt rest)) = Some (Some data)"
  using readTimeZoneFile_encoded [OF assms] by (simp add: file_TimeZone_def)

theorem time_zone_file_roundtrip_witness:
  "file_TimeZone (Some (tz_file cet CHR ''2'' (replicate 15 NUL) 0 0 0 [])) = Some (Some cet)"
  by (rule time_zone_file_roundtrip) (simp_all add: encodable_def fits32_def cet_def)

end
