(* ===== verification/Thread_Pool.thy ===== *)
theory Thread_Pool
  imports Prelude "HOL-Library.Multiset"
begin

text \<open>
  \<open>ThreadPool\<close> (\<open>base/ThreadPool.cc\<close>): a bounded queue of tasks that callers fill and worker threads empty. The threads are
  interleaved: a step is what a thread does from the moment it has the mutex until it releases it, at the end of the
  block or in \<open>wait\<close>. A notification wakes one of the sleeping threads, which one is the choice of the system, and a
  thread may also wake up without one. A woken thread has yet to get the mutex. \<open>accepted\<close>, \<open>taken\<close> and \<open>executed\<close> are
  histories.
\<close>

section \<open>State\<close>

text \<open>Where a worker stands in \<open>runInThread\<close>: before the test of the loop, before or in \<open>take\<close>, in a task, or at its end.\<close>

datatype 'a worker = Loop | Enter | WaitEmpty | WokenEmpty | RunTask 'a | Ended

text \<open>Where a thread that calls \<open>run\<close> stands.\<close>

datatype 'a caller = Calling 'a | WaitFull 'a | WokenFull 'a | Returned

record 'a pool =
  maxQueueSize :: nat
  running :: bool
  queue :: "'a list"
  threads :: "'a worker list"
  callers :: "'a caller list"
  accepted :: "'a list"
  taken :: "'a list"
  executed :: "'a list"

definition new_ThreadPool :: "'a pool" where
  "new_ThreadPool = \<lparr>maxQueueSize = 0, running = False, queue = [], threads = [], callers = [], accepted = [], taken = [], executed = []\<rparr>"

definition setMaxQueueSize :: "nat \<Rightarrow> 'a pool \<Rightarrow> 'a pool" where
  "setMaxQueueSize maxSize s = s\<lparr>maxQueueSize := maxSize\<rparr>"

text \<open>\<open>start\<close> fails its assertion when it is called a second time.\<close>

definition start :: "nat \<Rightarrow> 'a pool \<Rightarrow> 'a pool option" where
  "start numThreads s = (if threads s \<noteq> [] then None else Some (s\<lparr>running := True, threads := replicate numThreads Loop\<rparr>))"

section \<open>Condition variables\<close>

fun asleep :: "'a worker \<Rightarrow> bool" where
  "asleep WaitEmpty = True"
| "asleep _ = False"

fun wake_worker :: "'a worker \<Rightarrow> 'a worker" where
  "wake_worker WaitEmpty = WokenEmpty"
| "wake_worker w = w"

fun blocked :: "'a caller \<Rightarrow> bool" where
  "blocked (WaitFull t) = True"
| "blocked _ = False"

fun wake_caller :: "'a caller \<Rightarrow> 'a caller" where
  "wake_caller (WaitFull t) = WokenFull t"
| "wake_caller c = c"

text \<open>The thread that a \<open>notify\<close> wakes: one that sleeps, or none if none does.\<close>

definition picks :: "('x \<Rightarrow> bool) \<Rightarrow> nat option \<Rightarrow> 'x list \<Rightarrow> bool" where
  "picks sleeping w xs = (case w of None \<Rightarrow> \<not> list_ex sleeping xs | Some j \<Rightarrow> j < length xs \<and> sleeping (xs ! j))"

definition wake :: "('x \<Rightarrow> 'x) \<Rightarrow> nat option \<Rightarrow> 'x list \<Rightarrow> 'x list" where
  "wake f w xs = (case w of None \<Rightarrow> xs | Some j \<Rightarrow> xs[j := f (xs ! j)])"

definition notEmpty_notify :: "nat option \<Rightarrow> 'a pool \<Rightarrow> 'a pool" where
  "notEmpty_notify w s = s\<lparr>threads := wake wake_worker w (threads s)\<rparr>"

definition notEmpty_notifyAll :: "'a pool \<Rightarrow> 'a pool" where
  "notEmpty_notifyAll s = s\<lparr>threads := map wake_worker (threads s)\<rparr>"

definition notFull_notify :: "nat option \<Rightarrow> 'a pool \<Rightarrow> 'a pool" where
  "notFull_notify w s = s\<lparr>callers := wake wake_caller w (callers s)\<rparr>"

section \<open>Operations\<close>

definition isFull :: "'a pool \<Rightarrow> bool" where
  "isFull s \<longleftrightarrow> 0 < maxQueueSize s \<and> maxQueueSize s \<le> length (queue s)"

definition push_task :: "nat option \<Rightarrow> 'a \<Rightarrow> 'a pool \<Rightarrow> 'a pool" where
  "push_task w task s = notEmpty_notify w (s\<lparr>queue := queue s @ [task], accepted := accepted s @ [task]\<rparr>)"

text \<open>Without threads the caller of \<open>run\<close> or \<open>TryRun\<close> executes the task itself.\<close>

definition run_task_here :: "'a \<Rightarrow> 'a pool \<Rightarrow> 'a pool" where
  "run_task_here task s = s\<lparr>accepted := accepted s @ [task], taken := taken s @ [task], executed := executed s @ [task]\<rparr>"

text \<open>One turn of the loop of \<open>run\<close> for the caller \<open>i\<close>, with the rest of the function when the queue is not full.\<close>

definition run_section :: "nat \<Rightarrow> 'a \<Rightarrow> nat option \<Rightarrow> 'a pool \<Rightarrow> 'a pool" where
  "run_section i task w s =
     (if isFull s then s\<lparr>callers := (callers s)[i := WaitFull task]\<rparr>
      else (push_task w task s)\<lparr>callers := (callers s)[i := Returned]\<rparr>)"

definition TryRun :: "'a \<Rightarrow> nat option \<Rightarrow> 'a pool \<Rightarrow> bool \<times> 'a pool" where
  "TryRun task w s = (if isFull s then (False, s) else (True, push_task w task s))"

text \<open>One turn of the loop of \<open>take\<close> for the worker \<open>i\<close>; an empty task is not executed.\<close>

definition take_section :: "nat \<Rightarrow> nat option \<Rightarrow> 'a pool \<Rightarrow> 'a pool" where
  "take_section i w s =
     (if queue s = [] \<and> running s then s\<lparr>threads := (threads s)[i := WaitEmpty]\<rparr>
      else case queue s of [] \<Rightarrow> s\<lparr>threads := (threads s)[i := Loop]\<rparr>
      | t # q \<Rightarrow>
          let s = s\<lparr>queue := q, taken := taken s @ [t], threads := (threads s)[i := RunTask t]\<rparr>
          in if 0 < maxQueueSize s then notFull_notify w s else s)"

definition loop_test :: "nat \<Rightarrow> 'a pool \<Rightarrow> 'a pool" where
  "loop_test i s = s\<lparr>threads := (threads s)[i := if running s then Enter else Ended]\<rparr>"

definition task_done :: "nat \<Rightarrow> 'a \<Rightarrow> 'a pool \<Rightarrow> 'a pool" where
  "task_done i task s = s\<lparr>threads := (threads s)[i := Loop], executed := executed s @ [task]\<rparr>"

definition stop :: "'a pool \<Rightarrow> 'a pool" where
  "stop s = notEmpty_notifyAll (s\<lparr>running := False\<rparr>)"

inductive pool_step :: "'a pool \<Rightarrow> 'a pool \<Rightarrow> bool" where
  call: "threads s \<noteq> [] \<Longrightarrow> pool_step s (s\<lparr>callers := callers s @ [Calling task]\<rparr>)"
| call_here: "threads s = [] \<Longrightarrow> pool_step s (run_task_here task s)"
| try_run: "threads s \<noteq> [] \<Longrightarrow> picks asleep w (threads s) \<Longrightarrow> pool_step s (snd (TryRun task w s))"
| run: "i < length (callers s) \<Longrightarrow> callers s ! i = Calling task \<or> callers s ! i = WokenFull task \<Longrightarrow>
    picks asleep w (threads s) \<Longrightarrow> pool_step s (run_section i task w s)"
| loop: "i < length (threads s) \<Longrightarrow> threads s ! i = Loop \<Longrightarrow> pool_step s (loop_test i s)"
| take_task: "i < length (threads s) \<Longrightarrow> threads s ! i = Enter \<or> threads s ! i = WokenEmpty \<Longrightarrow>
    picks blocked w (callers s) \<Longrightarrow> pool_step s (take_section i w s)"
| task: "i < length (threads s) \<Longrightarrow> threads s ! i = RunTask t \<Longrightarrow> pool_step s (task_done i t s)"
| stop: "pool_step s (stop s)"
| spurious_worker: "i < length (threads s) \<Longrightarrow> asleep (threads s ! i) \<Longrightarrow>
    pool_step s (s\<lparr>threads := (threads s)[i := wake_worker (threads s ! i)]\<rparr>)"
| spurious_caller: "i < length (callers s) \<Longrightarrow> blocked (callers s ! i) \<Longrightarrow>
    pool_step s (s\<lparr>callers := (callers s)[i := wake_caller (callers s ! i)]\<rparr>)"

text \<open>The states of a pool with \<open>n\<close> threads and room for \<open>m\<close> tasks; \<open>m = 0\<close> is no limit.\<close>

inductive pool_reachable :: "nat \<Rightarrow> nat \<Rightarrow> 'a pool \<Rightarrow> bool" for m n where
  started: "start n (setMaxQueueSize m new_ThreadPool) = Some s \<Longrightarrow> pool_reachable m n s"
| step: "pool_reachable m n s \<Longrightarrow> pool_step s s' \<Longrightarrow> pool_reachable m n s'"

section \<open>Invariants\<close>

definition count_if :: "('x \<Rightarrow> bool) \<Rightarrow> 'x list \<Rightarrow> nat" where
  "count_if P xs = length (filter P xs)"

lemma count_if_simps [simp]: "count_if P [] = 0" "count_if P (x # xs) = (if P x then Suc (count_if P xs) else count_if P xs)"
  "count_if P (xs @ ys) = count_if P xs + count_if P ys"
  by (simp_all add: count_if_def)

lemma count_if_update:
  "i < length xs \<Longrightarrow> count_if P (xs[i := x]) + (if P (xs ! i) then 1 else 0) = count_if P xs + (if P x then 1 else 0)"
proof (induction xs arbitrary: i)
  case (Cons y ys)
  then show ?case using Cons.IH [of "i - 1"] by (cases i) auto
qed simp

lemma count_if_0: "count_if P xs = 0 \<longleftrightarrow> \<not> list_ex P xs"
  by (induction xs) auto

fun woken :: "'a worker \<Rightarrow> bool" where
  "woken WokenEmpty = True"
| "woken _ = False"

fun woken_caller :: "'a caller \<Rightarrow> bool" where
  "woken_caller (WokenFull t) = True"
| "woken_caller _ = False"

fun task_of :: "'a worker \<Rightarrow> 'a multiset" where
  "task_of (RunTask t) = {#t#}"
| "task_of _ = {#}"

definition busy :: "'a worker list \<Rightarrow> 'a multiset" where
  "busy ws = sum_list (map task_of ws)"

lemma busy_update: "i < length ws \<Longrightarrow> busy (ws[i := w]) + task_of (ws ! i) = busy ws + task_of w"
proof (induction ws arbitrary: i)
  case (Cons v ws)
  then show ?case using Cons.IH [of "i - 1"] by (cases i) (auto simp: busy_def ac_simps)
qed simp

text \<open>Every sleeping worker is matched: as long as one sleeps, there is a woken worker for each task in the queue.\<close>

definition workers_matched :: "'a pool \<Rightarrow> bool" where
  "workers_matched s \<longleftrightarrow> (0 < count_if asleep (threads s) \<longrightarrow> length (queue s) \<le> count_if woken (threads s))"

definition callers_matched :: "'a pool \<Rightarrow> bool" where
  "callers_matched s \<longleftrightarrow>
     (0 < count_if blocked (callers s) \<longrightarrow> 0 < maxQueueSize s \<and> maxQueueSize s \<le> length (queue s) + count_if woken_caller (callers s))"

definition tasks_kept :: "'a pool \<Rightarrow> bool" where
  "tasks_kept s \<longleftrightarrow> accepted s = taken s @ queue s \<and> mset (taken s) = mset (executed s) + busy (threads s)"

definition queue_bounded :: "'a pool \<Rightarrow> bool" where
  "queue_bounded s \<longleftrightarrow> (0 < maxQueueSize s \<longrightarrow> length (queue s) \<le> maxQueueSize s)"

definition phase_ok :: "'a pool \<Rightarrow> bool" where
  "phase_ok s \<longleftrightarrow>
     (if running s then Ended \<notin> set (threads s) else WaitEmpty \<notin> set (threads s)) \<and>
     (threads s = [] \<longrightarrow> queue s = [] \<and> callers s = [])"

lemma wake_None [simp]: "wake f None xs = xs"
  and wake_Some [simp]: "wake f (Some j) xs = xs[j := f (xs ! j)]"
  by (simp_all add: wake_def)

lemma asleep_iff: "asleep w \<longleftrightarrow> w = WaitEmpty"
  by (cases w) auto

lemma blocked_iff: "blocked c \<longleftrightarrow> (\<exists>t. c = WaitFull t)"
  by (cases c) auto

lemma wake_worker_simps [simp]: "asleep w \<Longrightarrow> wake_worker w = WokenEmpty" "asleep w \<Longrightarrow> \<not> woken w" "asleep w \<Longrightarrow> task_of w = {#}"
  by (cases w; simp)+

lemma wake_worker_not_asleep [simp]: "WaitEmpty \<noteq> wake_worker w" "wake_worker w \<noteq> WaitEmpty" "\<not> asleep (wake_worker w)" "task_of (wake_worker w) = task_of w"
  by (cases w; simp)+

lemma wake_caller_simps [simp]: "blocked c \<Longrightarrow> woken_caller (wake_caller c)" "blocked c \<Longrightarrow> \<not> woken_caller c" "\<not> blocked (wake_caller c)"
  by (cases c; simp)+

text \<open>What a notification does to the numbers of sleeping and woken threads.\<close>

lemma wake_workers:
  assumes "picks asleep w ws"
  shows "if 0 < count_if asleep ws then count_if woken (wake wake_worker w ws) = count_if woken ws + 1
           \<and> count_if asleep (wake wake_worker w ws) + 1 = count_if asleep ws
         else wake wake_worker w ws = ws"
    and "busy (wake wake_worker w ws) = busy ws" "length (wake wake_worker w ws) = length ws"
    and "Ended \<in> set (wake wake_worker w ws) \<Longrightarrow> Ended \<in> set ws" "WaitEmpty \<in> set (wake wake_worker w ws) \<Longrightarrow> WaitEmpty \<in> set ws"
proof -
  show "if 0 < count_if asleep ws then count_if woken (wake wake_worker w ws) = count_if woken ws + 1
           \<and> count_if asleep (wake wake_worker w ws) + 1 = count_if asleep ws
         else wake wake_worker w ws = ws"
  proof (cases w)
    case None
    then show ?thesis using assms count_if_0 [of asleep ws] by (simp add: picks_def)
  next
    case (Some j)
    then have "j < length ws" "asleep (ws ! j)" using assms by (simp_all add: picks_def)
    then show ?thesis using Some count_if_update [of j ws asleep WokenEmpty] count_if_update [of j ws woken WokenEmpty] by auto
  qed
  show "busy (wake wake_worker w ws) = busy ws"
    using assms by (cases w) (auto simp: picks_def dest: busy_update [of _ ws WokenEmpty])
  show "length (wake wake_worker w ws) = length ws" by (cases w) simp_all
  show "Ended \<in> set (wake wake_worker w ws) \<Longrightarrow> Ended \<in> set ws" "WaitEmpty \<in> set (wake wake_worker w ws) \<Longrightarrow> WaitEmpty \<in> set ws"
    using assms by (cases w; auto simp: picks_def dest!: subsetD [OF set_update_subset_insert])+
qed

lemma wake_callers:
  assumes "picks blocked w cs"
  shows "if 0 < count_if blocked cs then count_if woken_caller (wake wake_caller w cs) = count_if woken_caller cs + 1
           \<and> count_if blocked (wake wake_caller w cs) + 1 = count_if blocked cs
         else wake wake_caller w cs = cs"
proof (cases w)
  case None
  then show ?thesis using assms count_if_0 [of blocked cs] by (simp add: picks_def)
next
  case (Some j)
  then have "j < length cs" "blocked (cs ! j)" using assms by (simp_all add: picks_def)
  then show ?thesis
    using Some count_if_update [of j cs blocked "wake_caller (cs ! j)"] count_if_update [of j cs woken_caller "wake_caller (cs ! j)"] by auto
qed

lemma map_wake_worker:
  "busy (map wake_worker ws) = busy ws" "count_if asleep (map wake_worker ws) = 0" "WaitEmpty \<notin> set (map wake_worker ws)"
  by (induction ws) (auto simp: busy_def)

definition pool_inv :: "'a pool \<Rightarrow> bool" where
  "pool_inv s \<longleftrightarrow> workers_matched s \<and> callers_matched s \<and> tasks_kept s \<and> queue_bounded s \<and> phase_ok s"

lemmas pool_inv_defs = pool_inv_def workers_matched_def callers_matched_def tasks_kept_def queue_bounded_def phase_ok_def

text \<open>A worker that goes from one place to another, when neither sleeps nor was just woken.\<close>

lemma move_worker:
  assumes "pool_inv s" "i < length (threads s)" "\<not> asleep w" "\<not> woken w" "\<not> asleep (threads s ! i)" "\<not> woken (threads s ! i)"
    and "w = Ended \<longrightarrow> \<not> running s"
    and "mset ex + task_of w = mset (executed s) + task_of (threads s ! i)"
  shows "pool_inv (s\<lparr>threads := (threads s)[i := w], executed := ex\<rparr>)"
proof -
  have "mset ex + busy ((threads s)[i := w]) = mset (executed s) + busy (threads s)"
  proof -
    have "mset ex + busy ((threads s)[i := w]) + task_of (threads s ! i) = (mset ex + task_of w) + busy (threads s)"
      unfolding add.assoc busy_update [OF assms(2), of w] by (simp add: ac_simps)
    also have "\<dots> = mset (executed s) + busy (threads s) + task_of (threads s ! i)" unfolding assms(8) by (simp add: ac_simps)
    finally show ?thesis by simp
  qed
  moreover have "count_if asleep ((threads s)[i := w]) = count_if asleep (threads s)" "count_if woken ((threads s)[i := w]) = count_if woken (threads s)"
    using count_if_update [OF assms(2), of asleep w] count_if_update [OF assms(2), of woken w] assms(3-6) by simp_all
  moreover have "WaitEmpty \<noteq> w" using assms(3) by auto
  ultimately show ?thesis
    using assms(1,7) by (auto simp: pool_inv_defs dest!: subsetD [OF set_update_subset_insert])
qed

lemma push_task_inv:
  assumes "pool_inv s" "\<not> isFull s" "picks asleep w (threads s)" "threads s \<noteq> []"
  shows "pool_inv (push_task w t s)"
  using assms(1,2,4) wake_workers [OF assms(3)]
  by (auto simp: pool_inv_defs push_task_def notEmpty_notify_def isFull_def split: if_splits)

lemma run_section_inv:
  assumes "pool_inv s" "i < length (callers s)" "callers s ! i = Calling t \<or> callers s ! i = WokenFull t" "picks asleep w (threads s)"
  shows "pool_inv (run_section i t w s)"
proof (cases "isFull s")
  case True
  then show ?thesis
    using assms(1,3) count_if_update [OF assms(2), of blocked "WaitFull t"] count_if_update [OF assms(2), of woken_caller "WaitFull t"]
    by (auto simp: run_section_def pool_inv_defs isFull_def)
next
  case False
  have "threads s \<noteq> []" using assms(1,2) by (auto simp: pool_inv_defs)
  moreover have "callers (push_task w t s) = callers s" "queue (push_task w t s) = queue s @ [t]" "maxQueueSize (push_task w t s) = maxQueueSize s"
    by (simp_all add: push_task_def notEmpty_notify_def)
  ultimately show ?thesis
    using False assms(1,3) push_task_inv [OF assms(1) False assms(4), of t]
      count_if_update [OF assms(2), of blocked Returned] count_if_update [OF assms(2), of woken_caller Returned]
    by (auto simp: run_section_def pool_inv_defs)
qed

lemma take_section_inv:
  assumes "pool_inv s" "i < length (threads s)" "threads s ! i = Enter \<or> threads s ! i = WokenEmpty" "picks blocked w (callers s)"
  shows "pool_inv (take_section i w s)"
proof (cases "queue s")
  case Nil
  show ?thesis
    using Nil assms(1,3) count_if_update [OF assms(2), of asleep WaitEmpty] busy_update [OF assms(2), of WaitEmpty] busy_update [OF assms(2), of Loop]
    by (auto simp: take_section_def pool_inv_defs dest!: subsetD [OF set_update_subset_insert])
next
  case (Cons t q)
  have b: "busy ((threads s)[i := RunTask t]) = busy (threads s) + {#t#}"
    using busy_update [OF assms(2), of "RunTask t"] assms(3) by auto
  define s' where "s' = s\<lparr>queue := q, taken := taken s @ [t], threads := (threads s)[i := RunTask t]\<rparr>"
  have w: "workers_matched s'" "tasks_kept s'" "queue_bounded s'" "phase_ok s'"
    using Cons assms(1,3) b count_if_update [OF assms(2), of asleep "RunTask t"] count_if_update [OF assms(2), of woken "RunTask t"]
    by (auto simp: s'_def pool_inv_defs dest!: subsetD [OF set_update_subset_insert])
  have "pool_inv (if 0 < maxQueueSize s' then notFull_notify w s' else s')"
    using w assms(1) Cons wake_callers [OF assms(4)]
    by (auto simp: s'_def pool_inv_defs notFull_notify_def split: if_splits)
  then show ?thesis using Cons by (simp add: take_section_def s'_def Let_def split: if_splits)
qed

lemma pool_step_inv:
  assumes "pool_step s s'" "pool_inv s"
  shows "pool_inv s'"
  using assms
proof (cases rule: pool_step.cases)
  case (call task)
  then show ?thesis using assms(2) by (simp add: pool_inv_defs)
next
  case (call_here task)
  then show ?thesis using assms(2) by (auto simp: pool_inv_defs run_task_here_def)
next
  case (try_run w task)
  then show ?thesis using assms(2) push_task_inv [OF assms(2)] by (simp add: TryRun_def)
next
  case (run i task w)
  then show ?thesis using run_section_inv [OF assms(2)] by blast
next
  case (loop i)
  then show ?thesis
    using move_worker [OF assms(2), of i "if running s then Enter else Ended" "executed s"] by (simp add: loop_test_def)
next
  case (take_task i w)
  then show ?thesis using take_section_inv [OF assms(2)] by blast
next
  case (task i t)
  then show ?thesis
    using move_worker [OF assms(2), of i Loop "executed s @ [t]"] by (simp add: task_done_def)
next
  case stop
  then show ?thesis using assms(2) by (auto simp: pool_inv_defs stop_def notEmpty_notifyAll_def map_wake_worker)
next
  case (spurious_worker i)
  then show ?thesis
    using assms(2) count_if_update [of i "threads s" asleep WokenEmpty] count_if_update [of i "threads s" woken WokenEmpty]
      busy_update [of i "threads s" WokenEmpty]
    by (auto simp: pool_inv_defs dest!: subsetD [OF set_update_subset_insert] split: if_splits)
next
  case (spurious_caller i)
  then show ?thesis
    using assms(2) count_if_update [of i "callers s" blocked "wake_caller (callers s ! i)"] count_if_update [of i "callers s" woken_caller "wake_caller (callers s ! i)"]
    by (auto simp: pool_inv_defs)
qed

lemma start_inv: "start n (setMaxQueueSize m new_ThreadPool) = Some s \<Longrightarrow> pool_inv s"
proof -
  have "busy (replicate n Loop) = {#}" "count_if asleep (replicate n Loop) = 0" by (induction n) (simp_all add: busy_def)
  then show "start n (setMaxQueueSize m new_ThreadPool) = Some s \<Longrightarrow> pool_inv s"
    by (auto simp: start_def setMaxQueueSize_def new_ThreadPool_def pool_inv_defs)
qed

lemma pool_reachable_inv: "pool_reachable m n s \<Longrightarrow> pool_inv s"
  by (induction rule: pool_reachable.induct) (auto intro: start_inv pool_step_inv)

lemma pool_step_size: "pool_step s s' \<Longrightarrow> maxQueueSize s' = maxQueueSize s \<and> length (threads s') = length (threads s)"
proof (induction rule: pool_step.induct)
  case (try_run s w task)
  then show ?case using wake_workers(3) [OF try_run(2)] by (simp add: TryRun_def push_task_def notEmpty_notify_def)
next
  case (run i s task w)
  then show ?case using wake_workers(3) [OF run(3)] by (simp add: run_section_def push_task_def notEmpty_notify_def)
next
  case (take_task i s w)
  show ?case by (simp add: take_section_def notFull_notify_def Let_def split: list.split)
qed (simp_all add: run_task_here_def loop_test_def task_done_def stop_def notEmpty_notifyAll_def)

lemma pool_reachable_size: "pool_reachable m n s \<Longrightarrow> maxQueueSize s = m \<and> length (threads s) = n"
  by (induction rule: pool_reachable.induct)
    (auto simp: start_def setMaxQueueSize_def new_ThreadPool_def dest: pool_step_size split: if_splits)


section \<open>Progress\<close>

lemma picks_exists: "\<exists>w. picks P w xs"
proof (cases "list_ex P xs")
  case True
  then obtain j where "j < length xs" "P (xs ! j)" by (auto simp: list_ex_length)
  then show ?thesis by (intro exI [of _ "Some j"]) (simp add: picks_def)
qed (auto simp: picks_def intro: exI [of _ None])

text \<open>A worker that is not asleep takes the first task of the queue and executes it.\<close>

lemma enter_take:
  assumes "running s" "i < length (threads s)" "threads s ! i \<in> {Loop, Enter, WokenEmpty}"
  shows "\<exists>w. pool_step\<^sup>*\<^sup>* s (s\<lparr>threads := (threads s)[i := w]\<rparr>) \<and> (w = Enter \<or> w = WokenEmpty)"
proof (cases "threads s ! i = Loop")
  case True
  then have "pool_step s (s\<lparr>threads := (threads s)[i := Enter]\<rparr>)" using pool_step.loop [OF assms(2)] assms(1) by (simp add: loop_test_def)
  then show ?thesis by blast
next
  case False
  have "s\<lparr>threads := (threads s)[i := threads s ! i]\<rparr> = s" by simp
  then show ?thesis using False assms(3) by (metis empty_iff insert_iff rtranclp.rtrancl_refl)
qed

lemma drain_one:
  assumes "running s" "i < length (threads s)" "threads s ! i \<in> {Loop, Enter, WokenEmpty}" "queue s = t # q"
  shows "\<exists>s'. pool_step\<^sup>*\<^sup>* s s' \<and> running s' \<and> queue s' = q \<and> accepted s' = accepted s \<and> threads s' = (threads s)[i := Loop]"
proof -
  obtain w where "pool_step\<^sup>*\<^sup>* s (s\<lparr>threads := (threads s)[i := w]\<rparr>)" and w: "w = Enter \<or> w = WokenEmpty"
    using enter_take [OF assms(1-3)] by blast
  moreover define s1 where "s1 = s\<lparr>threads := (threads s)[i := w]\<rparr>"
  ultimately have r1: "pool_step\<^sup>*\<^sup>* s s1" by simp
  obtain v where v: "picks blocked v (callers s1)" using picks_exists by blast
  have i1: "i < length (threads s1)" "threads s1 ! i = Enter \<or> threads s1 ! i = WokenEmpty" using assms(2) w by (auto simp: s1_def)
  define s2 where "s2 = take_section i v s1"
  have r2: "pool_step s1 s2" unfolding s2_def by (rule pool_step.take_task [OF i1 v])
  have s2: "threads s2 = (threads s)[i := RunTask t]" "queue s2 = q" "running s2" "accepted s2 = accepted s"
    using assms(1,4) by (simp_all add: s2_def s1_def take_section_def notFull_notify_def Let_def)
  have "pool_step s2 (task_done i t s2)" using assms(2) s2(1) by (intro pool_step.task) simp_all
  with r1 r2 have "pool_step\<^sup>*\<^sup>* s (task_done i t s2)" by simp
  then show ?thesis using s2 by (intro exI [of _ "task_done i t s2"]) (simp add: task_done_def)
qed

lemma drain_queue:
  assumes "running s" "i < length (threads s)" "threads s ! i \<in> {Loop, Enter, WokenEmpty}"
  shows "\<exists>s'. pool_step\<^sup>*\<^sup>* s s' \<and> running s' \<and> queue s' = [] \<and> accepted s' = accepted s \<and>
    (\<forall>w\<in>set (threads s'). w = Loop \<or> w \<in> set (threads s))"
  using assms
proof (induction "queue s" arbitrary: s)
  case Nil
  then show ?case by (intro exI [of _ s]) auto
next
  case (Cons t q)
  from drain_one [OF Cons.prems Cons.hyps(2) [symmetric]] obtain s1
    where s1: "pool_step\<^sup>*\<^sup>* s s1" "running s1" "queue s1 = q" "accepted s1 = accepted s" "threads s1 = (threads s)[i := Loop]" by blast
  from Cons.hyps(1) [of s1] s1 Cons.prems(2) obtain s2 where s2: "pool_step\<^sup>*\<^sup>* s1 s2" "running s2" "queue s2 = []"
    "accepted s2 = accepted s1" "\<forall>w\<in>set (threads s2). w = Loop \<or> w \<in> set (threads s1)" by auto
  have "\<forall>w\<in>set (threads s2). w = Loop \<or> w \<in> set (threads s)"
    using s2(5) s1(5) set_update_subset_insert [of "threads s" i Loop] by auto
  moreover have "pool_step\<^sup>*\<^sup>* s s2" using s1(1) s2(1) by (rule rtranclp_trans)
  ultimately show ?case using s1(4) s2(2-4) by (intro exI [of _ s2]) simp
qed

lemma task_of_empty: "task_of w = {#} \<longleftrightarrow> (\<forall>t. w \<noteq> RunTask t)"
  by (cases w) auto

lemma finish_tasks:
  "running s \<Longrightarrow> \<exists>s'. pool_step\<^sup>*\<^sup>* s s' \<and> running s' \<and> queue s' = queue s \<and> accepted s' = accepted s \<and> (\<forall>w\<in>set (threads s'). task_of w = {#})"
proof (induction "count_if (\<lambda>w. task_of w \<noteq> {#}) (threads s)" arbitrary: s)
  case 0
  then show ?case using count_if_0 [of "\<lambda>w. task_of w \<noteq> {#}" "threads s"] by (intro exI [of _ s]) (auto simp: list_ex_iff)
next
  case (Suc k)
  then have "list_ex (\<lambda>w. task_of w \<noteq> {#}) (threads s)" using count_if_0 [of "\<lambda>w. task_of w \<noteq> {#}" "threads s"] by auto
  then obtain i t where i: "i < length (threads s)" "threads s ! i = RunTask t"
    by (auto simp: list_ex_length task_of_empty)
  define s1 where "s1 = task_done i t s"
  have "pool_step s s1" unfolding s1_def by (rule pool_step.task [OF i])
  moreover have "k = count_if (\<lambda>w. task_of w \<noteq> {#}) (threads s1)"
    using count_if_update [OF i(1), of "\<lambda>w. task_of w \<noteq> {#}" Loop] i(2) Suc.hyps(2) by (simp add: s1_def task_done_def)
  moreover have "running s1" "queue s1 = queue s" "accepted s1 = accepted s" using Suc.prems by (simp_all add: s1_def task_done_def)
  ultimately show ?case using Suc.hyps(1) [of s1] by (metis converse_rtranclp_into_rtranclp)
qed

lemma pool_steps_reachable: "pool_step\<^sup>*\<^sup>* s s' \<Longrightarrow> pool_reachable m n s \<Longrightarrow> pool_reachable m n s'"
  by (induction rule: rtranclp_induct) (auto intro: pool_reachable.step)

lemma can_drain:
  assumes "pool_reachable m n s" "running s" "0 < n"
  shows "\<exists>s'. pool_step\<^sup>*\<^sup>* s s' \<and> queue s' = [] \<and> accepted s' = accepted s \<and> mset (executed s') = mset (accepted s)"
proof -
  obtain s1 where s1: "pool_step\<^sup>*\<^sup>* s s1" "running s1" "queue s1 = queue s" "accepted s1 = accepted s" "\<forall>w\<in>set (threads s1). task_of w = {#}"
    using finish_tasks [OF assms(2)] by blast
  note r1 = pool_steps_reachable [OF s1(1) assms(1)]
  note inv = pool_reachable_inv [OF r1]
  have "\<exists>s'. pool_step\<^sup>*\<^sup>* s1 s' \<and> running s' \<and> queue s' = [] \<and> accepted s' = accepted s1 \<and> (\<forall>w\<in>set (threads s'). task_of w = {#})"
  proof (cases "\<exists>i<length (threads s1). \<not> asleep (threads s1 ! i)")
    case True
    then obtain i where i: "i < length (threads s1)" "\<not> asleep (threads s1 ! i)" by blast
    have "threads s1 ! i \<in> set (threads s1)" "Ended \<notin> set (threads s1)" using i(1) s1(2) inv by (auto simp: pool_inv_defs)
    then have "task_of (threads s1 ! i) = {#}" "threads s1 ! i \<noteq> Ended" using s1(5) by metis+
    then have "threads s1 ! i \<in> {Loop, Enter, WokenEmpty}" using i(2) by (cases "threads s1 ! i") simp_all
    from drain_queue [OF s1(2) i(1) this] s1(5) show ?thesis by (metis task_of.simps(2))
  next
    case False
    then have "\<forall>w\<in>set (threads s1). asleep w" by (auto simp: in_set_conv_nth)
    moreover have "threads s1 \<noteq> []" using pool_reachable_size [OF r1] assms(3) by auto
    ultimately have "0 < count_if asleep (threads s1)" "count_if woken (threads s1) = 0"
      using count_if_0 [of asleep "threads s1"] count_if_0 [of woken "threads s1"] by (cases "threads s1"; force simp: list_ex_iff)+
    then have "queue s1 = []" using inv by (simp add: pool_inv_defs)
    with s1 show ?thesis by blast
  qed
  then obtain s2 where s2: "pool_step\<^sup>*\<^sup>* s1 s2" "queue s2 = []" "accepted s2 = accepted s1" "\<forall>w\<in>set (threads s2). task_of w = {#}" by blast
  have "pool_inv s2" by (rule pool_reachable_inv [OF pool_steps_reachable [OF s2(1) r1]])
  moreover have "busy ws = {#}" if "\<forall>w\<in>set ws. task_of w = {#}" for ws :: "'a worker list" using that by (induction ws) (auto simp: busy_def)
  ultimately have "mset (executed s2) = mset (accepted s2)" using s2(2,4) by (simp add: pool_inv_defs)
  with s1 s2 show ?thesis by (metis rtranclp_trans)
qed

section \<open>After \<open>stop\<close>\<close>

text \<open>A pool with one thread and room for one task: a task is accepted, a second caller waits, and the pool is stopped.\<close>

definition full_pool :: "nat pool" where
  "full_pool = \<lparr>maxQueueSize = 1, running = True, queue = [1], threads = [Loop], callers = [Returned, WaitFull 2],
     accepted = [1], taken = [], executed = []\<rparr>"

definition stopped_pool :: "nat pool" where
  "stopped_pool = full_pool\<lparr>running := False, threads := [Ended]\<rparr>"

lemma full_pool_reachable: "pool_reachable 1 1 full_pool"
proof -
  define s0 :: "nat pool" where "s0 = \<lparr>maxQueueSize = 1, running = True, queue = [], threads = [Loop], callers = [], accepted = [], taken = [], executed = []\<rparr>"
  have r0: "pool_reachable 1 1 s0"
    by (rule pool_reachable.started) (simp add: start_def setMaxQueueSize_def new_ThreadPool_def s0_def)
  have "pool_step s0 (s0\<lparr>callers := [Calling 1]\<rparr>)" using pool_step.call [of s0 1] by (simp add: s0_def)
  note r1 = pool_reachable.step [OF r0 this]
  have "pool_step (s0\<lparr>callers := [Calling 1]\<rparr>) (s0\<lparr>callers := [Returned], queue := [1], accepted := [1]\<rparr>)"
    using pool_step.run [of 0 "s0\<lparr>callers := [Calling 1]\<rparr>" 1 None]
    by (simp add: s0_def picks_def run_section_def isFull_def push_task_def notEmpty_notify_def)
  note r2 = pool_reachable.step [OF r1 this]
  have "pool_step (s0\<lparr>callers := [Returned], queue := [1], accepted := [1]\<rparr>) (s0\<lparr>callers := [Returned, Calling 2], queue := [1], accepted := [1]\<rparr>)"
    using pool_step.call [of "s0\<lparr>callers := [Returned], queue := [1], accepted := [1]\<rparr>" 2] by (simp add: s0_def)
  note r3 = pool_reachable.step [OF r2 this]
  have "pool_step (s0\<lparr>callers := [Returned, Calling 2], queue := [1], accepted := [1]\<rparr>) full_pool"
    using pool_step.run [of 1 "s0\<lparr>callers := [Returned, Calling 2], queue := [1], accepted := [1]\<rparr>" 2 None]
    by (simp add: s0_def picks_def run_section_def isFull_def full_pool_def)
  from pool_reachable.step [OF r3 this] show ?thesis .
qed

lemma stopped_pool_reachable: "pool_reachable 1 1 stopped_pool"
proof -
  have "pool_step full_pool (full_pool\<lparr>running := False\<rparr>)"
    using pool_step.stop [of full_pool] by (simp add: stop_def notEmpty_notifyAll_def full_pool_def)
  note r = pool_reachable.step [OF full_pool_reachable this]
  have "pool_step (full_pool\<lparr>running := False\<rparr>) stopped_pool"
    using pool_step.loop [of 0 "full_pool\<lparr>running := False\<rparr>"] by (simp add: loop_test_def full_pool_def stopped_pool_def)
  from pool_reachable.step [OF r this] show ?thesis .
qed

text \<open>When all workers have ended, the queue is never emptied, and who waits for room in it waits for ever.\<close>

definition dead_end :: "nat \<Rightarrow> 'a pool \<Rightarrow> bool" where
  "dead_end i s \<longleftrightarrow> threads s \<noteq> [] \<and> (\<forall>w\<in>set (threads s). w = Ended) \<and> isFull s \<and>
     i < length (callers s) \<and> (blocked (callers s ! i) \<or> woken_caller (callers s ! i))"

lemma dead_end_step:
  assumes "pool_step s s'" "dead_end i s"
  shows "dead_end i s' \<and> queue s' = queue s \<and> executed s' = executed s"
  using assms
proof (cases rule: pool_step.cases)
  case (run j task w)
  then show ?thesis using assms(2)
    by (auto simp: dead_end_def run_section_def nth_list_update isFull_def)
next
  case stop
  then show ?thesis using assms(2) by (auto simp: dead_end_def stop_def notEmpty_notifyAll_def isFull_def)
next
  case (spurious_worker j)
  then have "threads s ! j = Ended" using assms(2) by (auto simp: dead_end_def)
  then show ?thesis using spurious_worker by simp
next
  case (spurious_caller j)
  then show ?thesis using assms(2) by (auto simp: dead_end_def nth_list_update isFull_def)
qed (auto simp: dead_end_def TryRun_def isFull_def nth_append dest!: nth_mem)

lemma stop_drops_tasks:
  "pool_reachable 1 1 stopped_pool"
  "pool_step\<^sup>*\<^sup>* stopped_pool s' \<Longrightarrow> accepted stopped_pool = [1] \<and> executed s' = [] \<and> callers s' ! 1 \<noteq> Returned"
proof -
  show "pool_reachable 1 1 stopped_pool" by (rule stopped_pool_reachable)
  assume "pool_step\<^sup>*\<^sup>* stopped_pool s'"
  then have "dead_end 1 s' \<and> executed s' = []"
  proof (induction rule: rtranclp_induct)
    case base
    show ?case by (simp add: dead_end_def stopped_pool_def full_pool_def isFull_def)
  next
    case (step s1 s2)
    then show ?case using dead_end_step [of s1 s2 1] by simp
  qed
  moreover have "accepted stopped_pool = [1]" by (simp add: stopped_pool_def full_pool_def)
  ultimately show "accepted stopped_pool = [1] \<and> executed s' = [] \<and> callers s' ! 1 \<noteq> Returned"
    by (auto simp: dead_end_def)
qed

section \<open>Properties\<close>

text \<open>C23: However the threads are interleaved, and whichever sleeper a notification wakes, the queue never holds more tasks
  than its limit, the tasks are taken in the order in which they were accepted, none is lost or doubled, and every task that was
  taken was executed exactly once or is being executed by one worker.\<close>

theorem thread_pool_safe:
  assumes "pool_reachable m n s"
  shows "(0 < m \<longrightarrow> length (queue s) \<le> m) \<and> accepted s = taken s @ queue s \<and>
    mset (taken s) = mset (executed s) + busy (threads s)"
  using pool_reachable_inv [OF assms] pool_reachable_size [OF assms] by (simp add: pool_inv_defs)

theorem thread_pool_safe_witness: "length (queue stopped_pool) \<le> 1"
  using thread_pool_safe [OF stopped_pool_reachable] by simp

text \<open>C24: No wakeup is lost: while a worker sleeps there is a woken worker for every task in the queue, and while a caller is
  blocked the queue is full but for places that woken callers will take. A pool that was not stopped can always execute every
  task it accepted, so it is never stuck. Once it is stopped no worker sleeps, so that \<open>stop\<close> can join all of them.\<close>

theorem thread_pool_progress:
  assumes "pool_reachable m n s" "0 < n"
  shows "(list_ex asleep (threads s) \<longrightarrow> length (queue s) \<le> count_if woken (threads s)) \<and>
    (list_ex blocked (callers s) \<longrightarrow> 0 < m \<and> m \<le> length (queue s) + count_if woken_caller (callers s)) \<and>
    (running s \<longrightarrow> (\<exists>s'. pool_step\<^sup>*\<^sup>* s s' \<and> queue s' = [] \<and> accepted s' = accepted s \<and> mset (executed s') = mset (accepted s))) \<and>
    (\<not> running s \<longrightarrow> \<not> list_ex asleep (threads s))"
proof -
  have "0 < count_if P xs" if "list_ex P xs" for P :: "'x \<Rightarrow> bool" and xs using count_if_0 [of P xs] that by auto
  moreover have "\<not> list_ex asleep (threads s)" if "\<not> running s"
    using pool_reachable_inv [OF assms(1)] that by (auto simp: pool_inv_defs list_ex_iff asleep_iff)
  ultimately show ?thesis
    using pool_reachable_inv [OF assms(1)] pool_reachable_size [OF assms(1)] can_drain [OF assms(1) _ assms(2)]
    unfolding pool_inv_defs by meson
qed

theorem thread_pool_progress_witness:
  "\<exists>s'. pool_step\<^sup>*\<^sup>* full_pool s' \<and> mset (executed s') = {#1#}"
proof -
  have "\<exists>s'. pool_step\<^sup>*\<^sup>* full_pool s' \<and> queue s' = [] \<and> accepted s' = accepted full_pool \<and> mset (executed s') = mset (accepted full_pool)"
    using thread_pool_progress [OF full_pool_reachable] by (simp add: full_pool_def)
  moreover have "mset (accepted full_pool) = {#1#}" by (simp add: full_pool_def)
  ultimately show ?thesis by auto
qed

end
