(* ===== verification/Log_Stream.thy ===== *)
theory Log_Stream
  imports Prelude "HOL-Library.Signed_Division"
begin

text \<open>
  \<open>LogStream\<close> (\<open>base/LogStream.cc\<close>, \<open>base/LogStream.h\<close>): the conversion of integers to decimal and of pointers to hexadecimal
  text, the stream that appends them, and \<open>FixedBuffer\<close>, which takes a piece as a whole or drops it. A loop over the
  digits writes them from the last to the first and the text is reversed, as in the code. Division is \<open>sdiv\<close>, so that
  a remainder may be negative: the table of digits has entries on both sides of its zero.
\<close>

section \<open>Conversion\<close>

definition digits :: string where
  "digits = ''9876543210123456789''"

definition digitsHex :: string where
  "digitsHex = ''0123456789ABCDEF''"

definition zero_at :: "int \<Rightarrow> char" where
  "zero_at lsd = digits ! nat (9 + lsd)"

function convert_loop :: "int \<Rightarrow> string" where
  "convert_loop i = zero_at (i smod 10) # (if i sdiv 10 \<noteq> 0 then convert_loop (i sdiv 10) else [])"
  by pat_completeness auto
termination
  by (relation "measure (\<lambda>i. nat \<bar>i\<bar>)") (auto simp: signed_divide_int_def sgn_if split: if_splits)

definition convert :: "int \<Rightarrow> string" where
  "convert v = rev (convert_loop v @ (if v < 0 then ''-'' else ''''))"

fun convertHex_loop :: "nat \<Rightarrow> string" where
  "convertHex_loop i = digitsHex ! (i mod 16) # (if i div 16 \<noteq> 0 then convertHex_loop (i div 16) else [])"

definition convertHex :: "nat \<Rightarrow> string" where
  "convertHex v = rev (convertHex_loop v)"

declare convert_loop.simps [simp del] convertHex_loop.simps [simp del]

section \<open>The stream\<close>

text \<open>The stream is its buffer. \<open>shift_string\<close> of a null pointer writes \<open>(null)\<close>.\<close>

definition shift_bool :: "string \<Rightarrow> bool \<Rightarrow> string" where
  "shift_bool s v = s @ (if v then ''1'' else ''0'')"

definition formatInteger :: "string \<Rightarrow> int \<Rightarrow> string" where
  "formatInteger s v = s @ convert v"

definition shift_pointer :: "string \<Rightarrow> nat \<Rightarrow> string" where
  "shift_pointer s p = s @ ''0x'' @ convertHex p"

definition shift_string :: "string \<Rightarrow> string option \<Rightarrow> string" where
  "shift_string s str = (case str of Some t \<Rightarrow> s @ t | None \<Rightarrow> s @ ''(null)'')"

section \<open>Fixed buffers\<close>

text \<open>\<open>FixedBuffer<SIZE>\<close> with what was written of \<open>data_\<close>.\<close>

record FixedBuffer =
  fb_size :: nat
  fb_data :: string

definition fb_avail :: "FixedBuffer \<Rightarrow> nat" where
  "fb_avail b = fb_size b - length (fb_data b)"

definition fb_append :: "string \<Rightarrow> FixedBuffer \<Rightarrow> FixedBuffer" where
  "fb_append buf b = (if length buf < fb_avail b then b\<lparr>fb_data := fb_data b @ buf\<rparr> else b)"

definition fb_reset :: "FixedBuffer \<Rightarrow> FixedBuffer" where
  "fb_reset b = b\<lparr>fb_data := ''''\<rparr>"

section \<open>Decimal text\<close>

lemma zero_at_digit: "\<bar>d\<bar> < 10 \<Longrightarrow> zero_at d = char_of (48 + nat \<bar>d\<bar>)"
proof -
  assume "\<bar>d\<bar> < 10"
  then have "d \<in> {-9..9}" by auto
  then have "d = -9 \<or> d = -8 \<or> d = -7 \<or> d = -6 \<or> d = -5 \<or> d = -4 \<or> d = -3 \<or> d = -2 \<or> d = -1 \<or> d = 0 \<or>
    d = 1 \<or> d = 2 \<or> d = 3 \<or> d = 4 \<or> d = 5 \<or> d = 6 \<or> d = 7 \<or> d = 8 \<or> d = 9" by auto presburger
  then show ?thesis by (elim disjE; simp add: zero_at_def digits_def char_of_def bit_0 bit_Suc_0_iff)
qed

text \<open>The decimal digits of a natural number, from the last to the first.\<close>

fun dec_digits :: "nat \<Rightarrow> nat list" where
  "dec_digits n = n mod 10 # (if n < 10 then [] else dec_digits (n div 10))"

declare dec_digits.simps [simp del]

lemma convert_loop_digits: "convert_loop i = map (\<lambda>d. char_of (48 + d)) (dec_digits (nat \<bar>i\<bar>))"
proof (induction i rule: convert_loop.induct)
  case (1 i)
  have "\<bar>i smod 10\<bar> = \<bar>i\<bar> mod 10" by (cases "i = 0") (simp_all add: smod_int_alt_def abs_mult)
  then have m: "\<bar>i smod 10\<bar> < 10" "nat \<bar>i smod 10\<bar> = nat \<bar>i\<bar> mod 10" by (simp_all add: nat_mod_distrib)
  have d: "\<bar>i sdiv 10\<bar> = \<bar>i\<bar> div 10" by (simp add: signed_divide_int_def abs_mult sgn_if)
  then have "nat \<bar>i sdiv 10\<bar> = nat \<bar>i\<bar> div 10" by (simp add: nat_div_distrib)
  moreover have "i sdiv 10 \<noteq> 0 \<longleftrightarrow> \<not> nat \<bar>i\<bar> < 10" using d by auto
  ultimately show ?case
    using 1 m by (subst convert_loop.simps, subst dec_digits.simps) (simp add: zero_at_digit)
qed

lemma dec_digits_less: "d \<in> set (dec_digits n) \<Longrightarrow> d < 10"
  by (induction n rule: dec_digits.induct) (subst (asm) (2) dec_digits.simps, auto split: if_splits)

lemma dec_digits_value: "foldr (\<lambda>d v. d + 10 * v) (dec_digits n) 0 = n"
  by (induction n rule: dec_digits.induct) (subst dec_digits.simps, auto)

lemma dec_digits_length: "n < 10 ^ Suc k \<Longrightarrow> length (dec_digits n) \<le> Suc k"
proof (induction k arbitrary: n)
  case 0
  then show ?case by (subst dec_digits.simps) simp
next
  case (Suc k)
  then have "n div 10 < 10 ^ Suc k" by (simp add: less_mult_imp_div_less)
  from Suc.IH [OF this] show ?case by (subst dec_digits.simps) simp
qed

lemma dec_digits_last: "0 < n \<Longrightarrow> last (dec_digits n) \<noteq> 0"
proof (induction n rule: dec_digits.induct)
  case (1 n)
  moreover have "dec_digits (n div 10) \<noteq> []" by (subst dec_digits.simps) simp
  ultimately show ?case by (subst dec_digits.simps) auto
qed

text \<open>Reading decimal and hexadecimal text, as a reader of the log does.\<close>

definition read_int :: "string \<Rightarrow> int" where
  "read_int s = (if s \<noteq> [] \<and> hd s = CHR ''-'' then - int (dec_value 0 (tl s)) else int (dec_value 0 s))"

definition hex_digit_value :: "char \<Rightarrow> nat" where
  "hex_digit_value c = (if isdigit c then uchar c - 48 else uchar c - 55)"

definition read_hex :: "string \<Rightarrow> nat" where
  "read_hex s = foldl (\<lambda>v c. 16 * v + hex_digit_value c) 0 s"

lemma dec_value_foldl: "dec_value a cs = foldl (\<lambda>v c. 10 * v + (uchar c - 48)) a cs"
  by (induction cs arbitrary: a) simp_all

definition dec_text :: "nat \<Rightarrow> string" where
  "dec_text n = rev (map (\<lambda>d. char_of (48 + d)) (dec_digits n))"

lemma convert_dec_text: "convert v = (if v < 0 then ''-'' else '''') @ dec_text (nat \<bar>v\<bar>)"
  by (simp add: convert_def dec_text_def convert_loop_digits)

lemma uchar_dec_digit: "d < 10 \<Longrightarrow> uchar (char_of (48 + d)) = 48 + d"
  by (rule uchar_char_of) simp

lemma dec_value_dec_text: "dec_value 0 (dec_text n) = n"
proof -
  have "foldr (\<lambda>c v. 10 * v + (uchar c - 48)) (map (\<lambda>d. char_of (48 + d)) ds) 0 = foldr (\<lambda>d v. d + 10 * v) ds 0"
    if "\<forall>d\<in>set ds. d < 10" for ds
    using that by (induction ds) (auto simp: uchar_dec_digit simp del: uchar_char_of)
  then show ?thesis
    using dec_digits_less [of _ n] by (simp add: dec_value_foldl dec_text_def foldl_conv_foldr dec_digits_value)
qed

lemma dec_text_digits: "c \<in> set (dec_text n) \<Longrightarrow> isdigit c"
  using dec_digits_less [of _ n] by (auto simp: dec_text_def isdigit_def uchar_dec_digit less_Suc_eq_le dest!: dec_digits_less)

lemma dec_text_head: "dec_text n \<noteq> [] \<and> (0 < n \<longrightarrow> hd (dec_text n) \<noteq> CHR ''0'') \<and> isdigit (hd (dec_text n))"
proof -
  have ne: "dec_digits n \<noteq> []" by (subst dec_digits.simps) simp
  then have h: "hd (dec_text n) = char_of (48 + last (dec_digits n))" by (simp add: dec_text_def hd_rev last_map)
  have "last (dec_digits n) < 10" using ne dec_digits_less [of _ n] by simp
  then have "uchar (hd (dec_text n)) = 48 + last (dec_digits n)" unfolding h by (rule uchar_dec_digit)
  moreover have "uchar CHR ''0'' = 48" by (simp add: uchar_def)
  ultimately have "0 < n \<longrightarrow> hd (dec_text n) \<noteq> CHR ''0''" using dec_digits_last [of n] by auto
  moreover have "dec_text n \<noteq> []" using ne by (simp add: dec_text_def)
  ultimately show ?thesis using dec_text_digits [of "hd (dec_text n)" n] by simp
qed

lemma hex_digit_value_nth: "d < 16 \<Longrightarrow> hex_digit_value (digitsHex ! d) = d"
proof -
  assume "d < 16"
  then have "d = 0 \<or> d = 1 \<or> d = 2 \<or> d = 3 \<or> d = 4 \<or> d = 5 \<or> d = 6 \<or> d = 7 \<or> d = 8 \<or> d = 9 \<or> d = 10 \<or> d = 11 \<or> d = 12 \<or> d = 13 \<or> d = 14 \<or> d = 15"
    by presburger
  then show ?thesis by (elim disjE; simp add: digitsHex_def hex_digit_value_def isdigit_def uchar_def)
qed

lemma read_hex_convertHex: "read_hex (convertHex v) = v"
proof -
  have "foldr (\<lambda>c v. 16 * v + hex_digit_value c) (convertHex_loop v) 0 = v"
    by (induction v rule: convertHex_loop.induct) (subst convertHex_loop.simps, simp add: hex_digit_value_nth)
  then show ?thesis by (simp add: read_hex_def convertHex_def foldl_conv_foldr)
qed

lemma convertHex_length: "v < 16 ^ Suc k \<Longrightarrow> length (convertHex v) \<le> Suc k"
proof -
  have "v < 16 ^ Suc k \<Longrightarrow> length (convertHex_loop v) \<le> Suc k"
  proof (induction k arbitrary: v)
    case 0
    then show ?case by (subst convertHex_loop.simps) simp
  next
    case (Suc k)
    then have "v div 16 < 16 ^ Suc k" by (simp add: less_mult_imp_div_less)
    from Suc.IH [OF this] show ?case by (subst convertHex_loop.simps) simp
  qed
  then show "v < 16 ^ Suc k \<Longrightarrow> length (convertHex v) \<le> Suc k" by (simp add: convertHex_def)
qed

lemma convert_fits: "\<bar>v\<bar> < 2 ^ 64 \<Longrightarrow> length (convert v) < 33"
proof -
  assume "\<bar>v\<bar> < 2 ^ 64"
  then have "nat \<bar>v\<bar> < 10 ^ Suc 19" by simp
  from dec_digits_length [OF this] have "length (dec_text (nat \<bar>v\<bar>)) \<le> Suc 19" unfolding dec_text_def by (simp only: length_rev length_map)
  then show "length (convert v) < 33" unfolding convert_dec_text by (cases "v < 0") simp_all
qed

lemma convertHex_fits: "p < 2 ^ 64 \<Longrightarrow> 2 + length (convertHex p) < 33"
  using convertHex_length [of p 15] by simp

text \<open>C39: What the stream writes for an integer is read back as this integer: an optional minus sign and decimal digits without
  a leading zero, for the smallest value of a type too, whose absolute value the type does not have. What it writes for a pointer
  is read back as its address. Both fit into the buffer of 33 bytes with the final NUL, for every 64-bit value.\<close>

theorem log_integers:
  "read_int (convert v) = v \<and> convert v = (if v < 0 then ''-'' else []) @ dec_text (nat \<bar>v\<bar>) \<and>
   (\<forall>c\<in>set (dec_text (nat \<bar>v\<bar>)). isdigit c) \<and> (v \<noteq> 0 \<longrightarrow> hd (dec_text (nat \<bar>v\<bar>)) \<noteq> CHR ''0'') \<and>
   (\<bar>v\<bar> < 2 ^ 64 \<longrightarrow> length (convert v) < 33) \<and>
   read_hex (convertHex p) = p \<and> (p < 2 ^ 64 \<longrightarrow> 2 + length (convertHex p) < 33)"
proof -
  have "\<not> isdigit CHR ''-''" by (simp add: isdigit_def uchar_def)
  then have "hd (dec_text n) \<noteq> CHR ''-''" for n using dec_text_head [of n] by metis
  then have "read_int (convert v) = v"
    using dec_text_head by (simp add: read_int_def convert_dec_text dec_value_dec_text)
  then show ?thesis
    using convert_dec_text [of v] dec_text_digits dec_text_head [of "nat \<bar>v\<bar>"] read_hex_convertHex [of p] convert_fits [of v] convertHex_fits [of p]
    by auto
qed

theorem log_integers_witness: "length (convert (- (2 ^ 63))) < 33 \<and> read_int (convert (- (2 ^ 63))) = - (2 ^ 63)"
proof -
  note l = log_integers [of "- (2 ^ 63)" 0]
  have "length (convert (- (2 ^ 63))) < 33" by (rule l [THEN conjunct2, THEN conjunct2, THEN conjunct2, THEN conjunct2, THEN conjunct1, THEN mp]) simp
  then show ?thesis using l [THEN conjunct1] by (rule conjI)
qed

text \<open>A \<open>FixedBuffer\<close> never holds more than its size leaves room for.\<close>

lemma fb_append_bounded: "length (fb_data b) \<le> fb_size b \<Longrightarrow> length (fb_data (fb_append buf b)) \<le> fb_size (fb_append buf b)"
  by (auto simp: fb_append_def fb_avail_def)

end
