(* ===== verification/Spec2Isabelle.thy ===== *)
theory Spec2Isabelle
  imports Http_Semantics Http_Message Http_Url String_Util String_Codec Tcp_Connection Timer_Queue User_Online
    Time_Zone Thread_Pool Log_Stream
begin

text \<open>
  Verification library for \<open>libmwnet\<close>, a C and C++ network library: an event-driven TCP layer, an HTTP
  parser, HTTP and TCP servers and clients on top of them, and utilities (strings, digests, logging).
  The library models the parts that compute: what the bytes of a connection mean and how they are
  stored, converted and digested. All sources are under \<open>src/mwnet_mt\<close>.

  \<^bold>\<open>How the parts interact.\<close> An event loop runs, one after the other, the handlers of ready channels, the callbacks
  of expired timers (\<open>net/TimerQueue.cc\<close>) and queued functors. A \<open>TcpConnection\<close> (\<open>net/TcpConnection.cc\<close>) reads
  bytes into a \<open>Buffer\<close> (\<open>net/Buffer.h\<close>) and keeps what could not be sent in a list of buffers, with a timer for
  each. The HTTP server (\<open>netserver/NetServer.cc\<close>)
  gives them to an \<open>HttpParser\<close> (\<open>net/httpparser/httpparser.cpp\<close>), whose callbacks are driven by the state
  machine \<open>http_parser_execute\<close> (\<open>net/httpparser/http_parser.c\<close>) and note where the URL, the headers and
  the body lie. \<open>http_parser_parse_url\<close> splits a URL; \<open>StringUtil\<close> (\<open>util/MWStringUtil.cc\<close>) offers text
  functions, URL encoding and wrappers of the base64 and digest code in \<open>crypto/\<close>. For programs on top there are a
  \<open>UserOnlineList\<close> of users and connections (\<open>netserver/UserOnlineList.cc\<close>) and a \<open>ThreadPool\<close> (\<open>base/ThreadPool.cc\<close>).
  The logger writes through a
  \<open>LogStream\<close> (\<open>base/LogStream.cc\<close>) and shows its times with \<open>TimeZone\<close> and \<open>Date\<close> (\<open>base/TimeZone.cc\<close>, \<open>base/Date.cc\<close>).

  \<^bold>\<open>Conventions.\<close> A \<open>char\<close> is a byte of HOL's type \<open>char\<close>; \<open>uchar\<close> and \<open>schar\<close> are its unsigned and signed
  values. Integers whose width matters are words (\<open>u8\<close> to \<open>u64\<close>, a 7-bit word for a bit field) or natural
  numbers with the wrap-around written out. A C++ object is a record that the operations pass on; a
  pointer is an offset or an address, and \<open>None\<close> is a null pointer. A failed \<open>assert\<close> and an exception are
  values: \<open>Abort\<close> and \<open>Aborted\<close> for the parser, \<open>None\<close> for the buffer, a constructor of a result type
  elsewhere. A loop that need not end is a partial function in the option monad, and that it returns is
  proved; all other loops are total functions, so that no theorem depends on fuel.

  \<^bold>\<open>Theories.\<close>
  \<^item> \<open>Prelude\<close>: integer types, bytes, C strings, \<open>memchr\<close>, \<open>strtoul\<close>, case conversion, bit masks.
  \<^item> \<open>Http_Tables\<close>: the enumerations, tables and character classes of \<open>http_parser.c\<close> and \<open>http_parser.h\<close>,
    and what the tables mean as conditions on the byte.
  \<^item> \<open>Http_Parser\<close>: the structures \<open>http_parser\<close> and \<open>http_parser_settings\<close>, the macros (\<open>CALLBACK_NOTIFY\<close>,
    \<open>CALLBACK_DATA\<close>, \<open>MARK\<close>, \<open>COUNT_HEADER_SIZE\<close>), \<open>parse_url_char\<close>, the small functions of the API.
  \<^item> \<open>Http_Execute\<close>: \<open>http_parser_execute\<close>, one definition for every case of its switch, the inner loops
    over header fields and values, the loops \<open>reexecute\<close> and over the bytes.
  \<^item> \<open>Http_Safety\<close>, \<open>Http_Progress\<close>, \<open>Http_Returns\<close>, \<open>Http_Loop\<close>: the invariant of the parser and of the
    local variables, kept by every case; the locale \<open>http_buffer_callbacks\<close> is the contract of the callbacks
    for one call on one buffer, and its theorem \<open>execute_ok\<close> says that the call returns, fails no assertion,
    stays in the buffer and keeps both invariants.
  \<^item> \<open>Http_Session\<close>: any sequence of calls (locale \<open>http_callbacks\<close>); the invariant and the bounds of every
    reachable parser, when input is left over, the queries of the API.
  \<^item> \<open>Http_Semantics\<close>: what the client sees: delivery of a body in any pieces, all methods recognised, sizes
    without wrap-around, closed connections. The contract is interpreted on callbacks that keep a log.
  \<^item> \<open>Http_Message\<close>: the class \<open>HttpParser\<close>, the real client of the parser. Its callbacks satisfy
    \<open>http_buffer_callbacks\<close>, so every call returns and the object holds only places of the received memory;
    header lookup, chunked bodies, the query of a GET request, urlencoded bodies.
  \<^item> \<open>Http_Url\<close>: \<open>http_parser_parse_url\<close> with \<open>http_parse_host\<close>: fields in bounds, the port, no failed assertion.
  \<^item> \<open>Net_Buffer\<close>: the class \<open>Buffer\<close> with the byte order functions of \<open>net/Endian.h\<close>. Its contract is the
    locale \<open>byte_queue\<close>, interpreted on the class: a first-in first-out queue of bytes.
  \<^item> \<open>Runs\<close>: sequences of operations that may abort; the locales \<open>safe_steps\<close> and \<open>traced_steps\<close> carry a property of one
    operation over to every run.
  \<^item> \<open>Tcp_Connection\<close>: the class \<open>TcpConnection\<close> with the functors and timers it gives to the loop. The locales of \<open>Runs\<close>
    are interpreted on it: no run aborts, every accepted message is reported exactly once, the byte stream is kept,
    half close, draining. An answer of \<open>write\<close> is an argument of the operation, what reaches the socket is \<open>wire\<close>.
  \<^item> \<open>Timer_Queue\<close>: the classes \<open>Timer\<close> and \<open>TimerQueue\<close> over a heap of timers with allocation and deletion; what a
    callback does to the queue is an argument of the handler. No run aborts or uses a deleted timer, none leaks,
    expiry in order, cancellation.
  \<^item> \<open>User_Online\<close>: the class \<open>UserOnlineList\<close> on maps in the order of their keys, with the weak pointer to the connection
    of the smallest window. \<open>safe_steps\<close> and \<open>traced_steps\<close> are interpreted on it: no index out of range, totals are sums,
    the counters grow by what was added, the choice of a connection.
  \<^item> \<open>Thread_Pool\<close>: the class \<open>ThreadPool\<close> as a step relation of callers and workers; a step is what a thread does while it
    holds the mutex. Invariants of all interleavings: bounds and order of the queue, each task executed once, no lost
    wakeup; progress.
  \<^item> \<open>Calendar\<close>, \<open>Time_Zone\<close>: \<open>Date\<close> and \<open>TimeZone\<close>: day numbers against a calendar of month lengths, broken-down time
    against a clock that ticks, binary search for the offset in force, local time, files of the zoneinfo format.
  \<^item> \<open>Log_Stream\<close>: \<open>LogStream\<close> and \<open>FixedBuffer\<close>: the text of integers and pointers.
  \<^item> \<open>Md_Stream\<close>: the update and finish functions that \<open>md5.c\<close>, \<open>sha1.c\<close> and \<open>sha256.c\<close> repeat, once, with the
    locales \<open>md_hash\<close> and \<open>md_digest\<close>: a block function that implements a compression function gives a streaming
    interface that computes the digest of the padded message. \<open>Md5\<close>, \<open>Sha1\<close>, \<open>Sha256\<close>: the block functions as
    the sources unroll them, equal to the compression functions of RFC 1321 and FIPS 180, and the
    interpretations of the locales.
  \<^item> \<open>Base64\<close>: \<open>mbedtls_base64_encode\<close> and \<open>mbedtls_base64_decode\<close>: round trip, errors, output size.
  \<^item> \<open>String_Util\<close>: splitting, trimming, replacing, URL encoding. \<open>String_Codec\<close>: hexadecimal text and the
    base64 and digest wrappers, on top of \<open>Base64\<close>, \<open>Md5\<close>, \<open>Sha1\<close> and \<open>Sha256\<close>.

  \<^bold>\<open>Bounds.\<close> Digest theorems hold for messages below the limit their statements name (the byte counter of an
  update takes 32 bits). Buffer theorems hold as long as the vector stays within \<open>max_size\<close>, the limit of the
  standard library; \<open>readv\<close> is a parameter that delivers no more than it was asked for. The memory of
  \<open>Http_Message\<close> is a list whose end reads as a NUL.

  A message of \<open>Tcp_Connection\<close> is not empty and fits into a buffer; the operations of a run are those the loop
  executes, so that what another thread asks for appears where the loop runs it. The time of \<open>Timer_Queue\<close> is an
  integer of microseconds after the epoch, and the sequence number does not wrap around. Dates and times are unbounded
  integers; \<open>in_clock\<close> spans the years -4799 to 1465072, where the 32-bit computation of the code does not overflow
  (\<open>getYearMonthDay_fits\<close>). A task of \<open>Thread_Pool\<close> is a value: it does not itself call the pool, which could block its worker.

  \<^bold>\<open>Not modelled.\<close> The loop itself, pollers, sockets, TCP servers and clients, locks, the other queues of \<open>base/\<close>, files and
  the back end of the logger are calls of the operating system and of callbacks between threads.
  The servers and clients built on them (\<open>NetServer\<close>, \<open>netclient\<close>) are glue around these calls and around
  \<open>libcurl\<close>. The rest of \<open>crypto/\<close> (TLS, X.509, big numbers, ciphers) is the vendored mbedtls, of which the
  library calls only the modelled functions. \<open>StringUtil::FormatString\<close> is a call of \<open>vsnprintf\<close>, and
  \<open>http_strstri\<close> of \<open>httpparser.h\<close> has no caller.

  \<^bold>\<open>Observations.\<close> Where a theorem needs a hypothesis that the code does not establish, a lemma shows that it
  is needed: \<open>chunk_data_stale\<close>, \<open>query_mark_in_header\<close>, \<open>duplicate_header_length\<close>, \<open>urlencoded_missing_equals\<close>,
  \<open>over_uninitialised\<close> in \<open>Http_Message\<close>, \<open>ensureWritableBytes_wraps\<close> in \<open>Net_Buffer\<close>, \<open>parse_url_port_overread\<close> in
  \<open>Http_Url\<close>, \<open>md5_update_counter_4GiB\<close> in \<open>Md5\<close>, \<open>url_decode_last_plus\<close> in \<open>String_Util\<close>, \<open>send_not_connected_succeeds\<close>,
  \<open>blocked_write_drops_output\<close>, \<open>timeout_leaves_writing\<close> and \<open>empty_message_unreported\<close> in \<open>Tcp_Connection\<close>,
  \<open>cancel_in_batch_still_runs\<close> in \<open>Timer_Queue\<close>, \<open>best_connection_not_smallest\<close> and \<open>all_commands_is_command_0\<close> in \<open>User_Online\<close>,
  \<open>missing_zone_file_valid\<close> in \<open>Time_Zone\<close>, \<open>stop_drops_tasks\<close> in \<open>Thread_Pool\<close>.
\<close>

end
